(* ===== verification/WS_Prelude.thy ===== *)
theory WS_Prelude
  imports Main "HOL-Library.Word" "HOL-Library.Sublist"
begin

text \<open>
  Shared vocabulary of the development: the machine integer types of the gateway's
  sources, the C++ exceptions and undefined behaviours as error values, the result type and
  its sequencing, the control characters of HTTP text, and the generic list lemmas that the
  component theories use.
\<close>

section \<open>Collections of rewrite rules\<close>

named_theorems result_simps "rewrite rules for the result type"

section \<open>Machine integers\<close>

type_synonym uint8 = "8 word"
type_synonym uint16 = "16 word"
type_synonym uint32 = "32 word"
type_synonym size_t = "64 word"

section \<open>Errors as values\<close>

text \<open>
  The first four constructors are C++ exceptions derived from \<open>std::exception\<close>; they can be
  caught. \<open>UndefinedBehaviour\<close> marks a point where the C++ standard gives the program no
  meaning (its string says which), and \<open>Exit\<close> a call of \<open>exit\<close>: neither is ever
  caught by a handler of the model.
\<close>

datatype cxx_error =
    InvalidArgument
  | OutOfRange
  | LengthError
  | LibraryException string
  | UndefinedBehaviour string
  | Exit int

type_synonym 'a result = "cxx_error + 'a"

fun is_exception :: "cxx_error \<Rightarrow> bool" where
  "is_exception (UndefinedBehaviour _) = False"
| "is_exception (Exit _) = False"
| "is_exception _ = True"

definition and_then :: "'a result \<Rightarrow> ('a \<Rightarrow> 'b result) \<Rightarrow> 'b result" where
  "and_then r f = (case r of Inl e \<Rightarrow> Inl e | Inr x \<Rightarrow> f x)"

lemma and_then_simps [simp, result_simps]:
  "and_then (Inl e) f = Inl e"
  "and_then (Inr x) f = f x"
  by (simp_all add: and_then_def)

lemma and_then_eq_Inr [result_simps]:
  "and_then r f = Inr y \<longleftrightarrow> (\<exists>x. r = Inr x \<and> f x = Inr y)"
  by (cases r) simp_all

lemma and_then_eq_Inl [result_simps]:
  "and_then r f = Inl e \<longleftrightarrow> r = Inl e \<or> (\<exists>x. r = Inr x \<and> f x = Inl e)"
  by (cases r) auto

section \<open>Characters\<close>

abbreviation NUL :: char where "NUL \<equiv> CHR 0x00"
abbreviation LF :: char where "LF \<equiv> CHR 0x0A"
abbreviation CR :: char where "CR \<equiv> CHR 0x0D"
abbreviation SP :: char where "SP \<equiv> CHR 0x20"
abbreviation CRLF :: string where "CRLF \<equiv> [CR, LF]"

section \<open>Lists\<close>

lemma takeWhile_upto [simp]:
  "x \<notin> set xs \<Longrightarrow> takeWhile (\<lambda>c. c \<noteq> x) (xs @ x # ys) = xs"
  by (subst takeWhile_append2) auto

lemma dropWhile_upto [simp]:
  "x \<notin> set xs \<Longrightarrow> dropWhile (\<lambda>c. c \<noteq> x) (xs @ x # ys) = x # ys"
  by (subst dropWhile_append2) auto

lemma takeWhile_none: "x \<notin> set xs \<Longrightarrow> takeWhile (\<lambda>c. c \<noteq> x) xs = xs"
  by (auto simp: takeWhile_eq_all_conv)

lemma dropWhile_none: "x \<notin> set xs \<Longrightarrow> dropWhile (\<lambda>c. c \<noteq> x) xs = []"
  by (auto simp: dropWhile_eq_Nil_conv)

lemma dropWhile_Cons_hd: "dropWhile P xs = y # ys \<Longrightarrow> \<not> P y"
  by (metis hd_dropWhile list.distinct(1) list.sel(1))

lemma dropWhile_Cons_length: "dropWhile P xs = y # ys \<Longrightarrow> length ys < length xs"
  by (metis Suc_le_lessD length_Cons length_dropWhile_le)

lemma last_in_suffix: "xs \<noteq> [] \<Longrightarrow> butlast xs @ [last xs] = xs"
  by simp

section \<open>Sums over two lists\<close>

definition sum2 :: "('a \<Rightarrow> 'b \<Rightarrow> 'c::comm_monoid_add) \<Rightarrow> 'a list \<Rightarrow> 'b list \<Rightarrow> 'c" where
  "sum2 f xs ys = sum_list (map2 f xs ys)"

lemma sum2_simps [simp]:
  "sum2 f [] ys = 0" "sum2 f (x # xs) (y # ys) = f x y + sum2 f xs ys"
  by (simp_all add: sum2_def)

lemma sum2_append: "length xs = length ys \<Longrightarrow> sum2 f (xs @ as) (ys @ bs) = sum2 f xs ys + sum2 f as bs"
  by (simp add: sum2_def)

lemma sum2_update:
  "i < length xs \<Longrightarrow> length xs = length ys \<Longrightarrow>
     sum2 f xs (ys[i := y]) + f (xs ! i) (ys ! i) = sum2 f xs ys + f (xs ! i) y"
proof (induction xs arbitrary: i ys)
  case (Cons x xs)
  then obtain z zs where ys: "ys = z # zs" by (cases ys) auto
  show ?case
  proof (cases i)
    case (Suc n)
    then have "sum2 f xs (zs[n := y]) + f (xs ! n) (zs ! n) = sum2 f xs zs + f (xs ! n) y"
      using Cons ys by simp
    then show ?thesis using ys Suc by (simp add: add.assoc)
  qed (simp add: ys ac_simps)
qed simp

lemma sum2_remove:
  "i < length xs \<Longrightarrow> length xs = length ys \<Longrightarrow>
     sum2 f (take i xs @ drop (Suc i) xs) (take i ys @ drop (Suc i) ys) + f (xs ! i) (ys ! i) = sum2 f xs ys"
proof (induction xs arbitrary: i ys)
  case (Cons x xs)
  then obtain z zs where ys: "ys = z # zs" by (cases ys) auto
  show ?case
  proof (cases i)
    case (Suc n)
    then have "sum2 f (take n xs @ drop (Suc n) xs) (take n zs @ drop (Suc n) zs) + f (xs ! n) (zs ! n)
        = sum2 f xs zs"
      using Cons ys by simp
    then show ?thesis using ys Suc by (simp add: add.assoc)
  qed (simp add: ys ac_simps)
qed simp

lemma sum2_none: "(\<And>x. f x None = 0) \<Longrightarrow> sum2 f xs (replicate n None) = 0"
proof (induction n arbitrary: xs)
  case (Suc n)
  then show ?case by (cases xs) simp_all
qed (simp add: sum2_def)

lemma set_zip_update:
  "(x, y) \<in> set (zip xs (ys[i := z])) \<Longrightarrow>
     (x, y) \<in> set (zip xs ys) \<or> i < length xs \<and> x = xs ! i \<and> y = z"
proof -
  assume "(x, y) \<in> set (zip xs (ys[i := z]))"
  then obtain n where n: "n < length xs" "n < length ys" "x = xs ! n" "y = ys[i := z] ! n"
    by (auto simp: in_set_zip)
  then show ?thesis by (cases "n = i") (auto simp: in_set_zip)
qed

lemma set_zip_remove:
  "length xs = length ys \<Longrightarrow>
     set (zip (take i xs @ drop (Suc i) xs) (take i ys @ drop (Suc i) ys)) \<subseteq> set (zip xs ys)"
  by (auto simp: zip_append take_zip [symmetric] drop_zip [symmetric] dest: in_set_takeD in_set_dropD)

end
