(* ===== verification/Cxx_Strings.thy ===== *)
theory Cxx_Strings
  imports WS_Prelude
begin

text \<open>
  The operations of the C and C++ standard library on strings and numbers that the gateway
  uses: character classes of the C locale, \<open>std::string::find\<close>, \<open>substr\<close> and
  \<open>insert\<close> with their \<open>size_t\<close> arithmetic, \<open>strtol\<close>, \<open>std::stoi\<close>,
  \<open>std::to_string\<close>, and the narrowing conversions. The lemmas give the value of each
  operation and the round trip between printing and reading a number.
\<close>

section \<open>Character classes of the C locale\<close>

definition code :: "char \<Rightarrow> nat" where
  "code c = of_char c"

definition isspace :: "char \<Rightarrow> bool" where
  "isspace c \<longleftrightarrow> c \<in> {SP, CHR 0x09, LF, CHR 0x0B, CHR 0x0C, CR}"

definition isdigit :: "char \<Rightarrow> bool" where
  "isdigit c \<longleftrightarrow> 48 \<le> code c \<and> code c \<le> 57"

definition tolower :: "char \<Rightarrow> char" where
  "tolower c = (if 65 \<le> code c \<and> code c \<le> 90 then char_of (code c + 32) else c)"

definition digit_char :: "nat \<Rightarrow> char" where
  "digit_char d = char_of (48 + d)"

lemma code_digit_char [simp]: "d < 10 \<Longrightarrow> code (digit_char d) = 48 + d"
  by (simp add: code_def digit_char_def)

lemma isdigit_digit_char [simp]: "d < 10 \<Longrightarrow> isdigit (digit_char d)"
  by (simp add: isdigit_def)

lemma digit_char_code: "isdigit c \<Longrightarrow> digit_char (code c - 48) = c"
  by (simp add: isdigit_def digit_char_def code_def)

lemma digit_char_0 [simp]: "digit_char 0 = CHR ''0''"
  by code_simp

lemma digit_not_space: "isdigit c \<Longrightarrow> \<not> isspace c"
  by (auto simp: isdigit_def isspace_def code_def)

lemma digit_not_sign: "isdigit c \<Longrightarrow> c \<noteq> CHR ''-'' \<and> c \<noteq> CHR ''+''"
  by (auto simp: isdigit_def code_def)

section \<open>Strings as C strings\<close>

definition c_str :: "string \<Rightarrow> string" where
  \<comment> \<open>what a C function sees of \<open>s.c_str()\<close>: the bytes before the first NUL\<close>
  "c_str s = takeWhile (\<lambda>c. c \<noteq> NUL) s"

lemma c_str_id [simp]: "NUL \<notin> set s \<Longrightarrow> c_str s = s"
  by (simp add: c_str_def takeWhile_none)

section \<open>Sizes, search and substrings\<close>

definition npos :: size_t where
  "npos = - 1"

definition max_size :: nat where
  \<comment> \<open>\<open>std::string::max_size()\<close>: no string object is longer\<close>
  "max_size = 2 ^ 63 - 1"

definition str_size :: "string \<Rightarrow> size_t" where
  "str_size s = of_nat (length s)"

fun find_from :: "string \<Rightarrow> string \<Rightarrow> nat option" where
  "find_from p [] = (if p = [] then Some 0 else None)"
| "find_from p (c # cs) =
     (if prefix p (c # cs) then Some 0 else map_option Suc (find_from p cs))"

definition str_find :: "string \<Rightarrow> string \<Rightarrow> size_t" where
  "str_find p s = (case find_from p s of None \<Rightarrow> npos | Some i \<Rightarrow> of_nat i)"

definition substr :: "string \<Rightarrow> size_t \<Rightarrow> size_t \<Rightarrow> string result" where
  "substr s pos n =
     (if length s < unat pos then Inl OutOfRange else Inr (take (unat n) (drop (unat pos) s)))"

definition insert_fill :: "string \<Rightarrow> size_t \<Rightarrow> size_t \<Rightarrow> char \<Rightarrow> string result" where
  \<comment> \<open>\<open>s.insert(pos, n, c)\<close>\<close>
  "insert_fill s pos n c =
     (if length s < unat pos then Inl OutOfRange
      else if max_size < length s + unat n then Inl LengthError
      else Inr (take (unat pos) s @ replicate (unat n) c @ drop (unat pos) s))"

lemma find_from_Some:
  "find_from p s = Some i \<Longrightarrow> i + length p \<le> length s \<and> prefix p (drop i s)"
proof (induction p s arbitrary: i rule: find_from.induct)
  case (1 p)
  then show ?case by (simp split: if_splits)
next
  case (2 p c cs)
  then show ?case by (auto split: if_splits dest: prefix_length_le)
qed

lemma find_from_least: "find_from p s = Some i \<Longrightarrow> j < i \<Longrightarrow> \<not> prefix p (drop j s)"
proof (induction p s arbitrary: i j rule: find_from.induct)
  case (1 p)
  then show ?case by (simp split: if_splits)
next
  case (2 p c cs)
  then show ?case by (cases j) (auto split: if_splits)
qed

lemma find_from_None: "find_from p s = None \<longleftrightarrow> (\<forall>j \<le> length s. \<not> prefix p (drop j s))"
proof (induction p s rule: find_from.induct)
  case (1 p)
  then show ?case by simp
next
  case (2 p c cs)
  then show ?case
    by (auto simp: less_Suc_eq_le) (metis Suc_le_mono drop_Suc_Cons drop0 not0_implies_Suc)+
qed

text \<open>A delimiter whose first character does not occur before it is found where it stands.\<close>

lemma find_from_here: "d \<notin> set xs \<Longrightarrow> find_from (d # ds) (xs @ d # ds @ ys) = Some (length xs)"
  by (induction xs) auto

lemma find_from_absent: "d \<notin> set xs \<Longrightarrow> find_from (d # ds) xs = None"
  by (induction xs) auto

lemma unat_npos [simp]: "unat npos = 2 ^ 64 - 1"
  by (simp add: npos_def unsigned_minus_1_eq_mask mask_eq_exp_minus_1)

lemma npos_plus_2 [simp]: "npos + 2 = 1"
  by (simp add: npos_def)

lemma unat_str_size: "length s \<le> max_size \<Longrightarrow> unat (str_size s) = length s"
  by (simp add: str_size_def max_size_def unat_of_nat)

lemma str_find_npos:
  assumes "length s \<le> max_size"
  shows "str_find p s = npos \<longleftrightarrow> find_from p s = None"
proof (cases "find_from p s")
  case (Some i)
  then have "i \<le> length s" using find_from_Some by fastforce
  then have "unat (of_nat i :: size_t) = i" "i < 2 ^ 63"
    using assms by (auto simp: max_size_def unat_of_nat)
  then have "unat (of_nat i :: size_t) \<noteq> unat npos" by simp
  then have "(of_nat i :: size_t) \<noteq> npos" by metis
  with Some show ?thesis by (simp add: str_find_def)
qed (simp add: str_find_def)

lemma substr_all: "length s \<le> max_size \<Longrightarrow> substr s 0 npos = Inr s"
  by (simp add: substr_def max_size_def)

section \<open>Printing and reading numbers\<close>

fun show_nat :: "nat \<Rightarrow> string" where
  "show_nat n = (if n < 10 then [digit_char n] else show_nat (n div 10) @ [digit_char (n mod 10)])"

declare show_nat.simps [simp del]

definition show_int :: "int \<Rightarrow> string" where
  \<comment> \<open>\<open>std::to_string\<close> of a signed integer\<close>
  "show_int i = (if i < 0 then CHR ''-'' # show_nat (nat (- i)) else show_nat (nat i))"

definition digits_val :: "string \<Rightarrow> nat" where
  "digits_val ds = foldl (\<lambda>a c. 10 * a + (code c - 48)) 0 ds"

fun skip_sign :: "string \<Rightarrow> bool \<times> string" where
  "skip_sign [] = (False, [])"
| "skip_sign (c # cs) =
     (if c = CHR ''-'' then (True, cs) else if c = CHR ''+'' then (False, cs) else (False, c # cs))"

definition strtol_scan :: "string \<Rightarrow> (int \<times> string) option" where
  \<comment> \<open>the value denoted by the longest decimal prefix of a C string and what follows it;
     \<open>None\<close> where no conversion can be performed\<close>
  "strtol_scan s =
     (let (neg, s1) = skip_sign (dropWhile isspace s);
          ds = takeWhile isdigit s1
      in if ds = [] then None
         else Some ((if neg then - int (digits_val ds) else int (digits_val ds)),
                    dropWhile isdigit s1))"

definition clamp_long :: "int \<Rightarrow> int" where
  "clamp_long v = max (- (2 ^ 63)) (min (2 ^ 63 - 1) v)"

definition strtol :: "string \<Rightarrow> int \<times> string" where
  \<comment> \<open>\<open>strtol(s.c_str(), &end, 10)\<close>: the value and the C string that \<open>end\<close> points to\<close>
  "strtol s = (case strtol_scan (c_str s) of
      None \<Rightarrow> (0, c_str s)
    | Some (v, rest) \<Rightarrow> (clamp_long v, rest))"

definition int_min :: int where "int_min = - (2 ^ 31)"
definition int_max :: int where "int_max = 2 ^ 31 - 1"

definition stoi :: "string \<Rightarrow> int result" where
  "stoi s = (case strtol_scan (c_str s) of
      None \<Rightarrow> Inl InvalidArgument
    | Some (v, _) \<Rightarrow> if v < int_min \<or> int_max < v then Inl OutOfRange else Inr v)"

lemma show_nat_nonempty [simp]: "show_nat n \<noteq> []"
  by (subst show_nat.simps) simp

lemma show_nat_digits: "c \<in> set (show_nat n) \<Longrightarrow> isdigit c"
proof (induction n rule: show_nat.induct)
  case (1 n)
  then show ?case by (auto simp: show_nat.simps [of n] split: if_splits)
qed

lemma NUL_show_nat [simp]: "NUL \<notin> set (show_nat n)"
  using show_nat_digits [of NUL n] by (auto simp: isdigit_def code_def)

lemma digits_val_snoc: "digits_val (ds @ [c]) = 10 * digits_val ds + (code c - 48)"
  by (simp add: digits_val_def)

lemma digits_val_show_nat [simp]: "digits_val (show_nat n) = n"
proof (induction n rule: show_nat.induct)
  case (1 n)
  show ?case
  proof (cases "n < 10")
    case True
    then show ?thesis by (simp add: show_nat.simps [of n] digits_val_def)
  next
    case False
    with 1 have "digits_val (show_nat (n div 10)) = n div 10" by simp
    with False show ?thesis by (simp add: show_nat.simps [of n] digits_val_snoc)
  qed
qed

lemma show_nat_inj: "show_nat m = show_nat n \<Longrightarrow> m = n"
  by (metis digits_val_show_nat)

lemma skip_sign_digit: "isdigit c \<Longrightarrow> skip_sign (c # cs) = (False, c # cs)"
  using digit_not_sign by auto

lemma show_nat_Cons: "\<exists>c cs. show_nat n = c # cs \<and> isdigit c"
  using show_nat_nonempty [of n] show_nat_digits [of _ n] by (metis list.exhaust list.set_intros(1))

lemma span_show_nat:
  assumes "rest = [] \<or> \<not> isdigit (hd rest)"
  shows "takeWhile isdigit (show_nat n @ rest) = show_nat n"
    and "dropWhile isdigit (show_nat n @ rest) = rest"
  using assms show_nat_digits [of _ n]
  by (cases rest; simp add: takeWhile_append2 dropWhile_append2)+

text \<open>Reading back what was printed, whatever non-digit follows it.\<close>

lemma strtol_scan_show_int:
  assumes "rest = [] \<or> \<not> isdigit (hd rest)"
  shows "strtol_scan (show_int i @ rest) = Some (i, rest)"
proof -
  obtain c cs where c: "show_nat (nat \<bar>i\<bar>) = c # cs" "isdigit c" using show_nat_Cons by blast
  have "\<not> isspace (CHR ''-'')" by (simp add: isspace_def)
  moreover have "skip_sign (show_nat (nat \<bar>i\<bar>) @ rest) = (False, show_nat (nat \<bar>i\<bar>) @ rest)"
    "dropWhile isspace (show_nat (nat \<bar>i\<bar>) @ rest) = show_nat (nat \<bar>i\<bar>) @ rest"
    using c skip_sign_digit digit_not_space by simp_all
  ultimately show ?thesis
    using span_show_nat [OF assms, of "nat \<bar>i\<bar>"]
    by (cases "i < 0") (simp_all add: strtol_scan_def show_int_def)
qed

lemma stoi_show_int:
  assumes "int_min \<le> i" "i \<le> int_max"
  shows "stoi (show_int i) = Inr i"
proof -
  have "NUL \<notin> set (show_int i)" by (simp add: show_int_def)
  with strtol_scan_show_int [of "[]" i] assms show ?thesis by (auto simp: stoi_def)
qed

lemma stoi_range: "stoi s = Inr i \<Longrightarrow> int_min \<le> i \<and> i \<le> int_max"
  by (auto simp: stoi_def split: option.splits if_splits)

lemma stoi_errors: "stoi s = Inl e \<Longrightarrow> e = InvalidArgument \<or> e = OutOfRange"
  by (auto simp: stoi_def split: option.splits if_splits)

lemma skip_sign_keeps:
  "skip_sign xs = (neg, ys) \<Longrightarrow> c \<in> set xs \<Longrightarrow> c \<noteq> CHR ''-'' \<Longrightarrow> c \<noteq> CHR ''+'' \<Longrightarrow> c \<in> set ys"
  by (cases xs) (auto split: if_splits)

lemma strtol_scan_rest:
  assumes "strtol_scan s = Some (v, rest)" "c \<in> set s" "\<not> isdigit c" "\<not> isspace c"
    "c \<noteq> CHR ''-''" "c \<noteq> CHR ''+''"
  shows "c \<in> set rest"
proof -
  obtain neg s1 where s1: "skip_sign (dropWhile isspace s) = (neg, s1)" by fastforce
  have "c \<in> set (dropWhile isspace s)"
    using assms(2,4) by (metis Un_iff set_append set_takeWhileD takeWhile_dropWhile_id)
  then have "c \<in> set s1"
    using s1 assms(5,6) skip_sign_keeps by blast
  then have "c \<in> set (dropWhile isdigit s1)"
    using assms(3) by (metis Un_iff set_append set_takeWhileD takeWhile_dropWhile_id)
  then show ?thesis using assms(1) s1 by (auto simp: strtol_scan_def Let_def split: if_splits)
qed

text \<open>\<open>strtol\<close> stops before any character that is no part of a number.\<close>

lemma strtol_stops:
  assumes "c \<in> set (c_str s)" "\<not> isdigit c" "\<not> isspace c" "c \<noteq> CHR ''-''" "c \<noteq> CHR ''+''"
  shows "snd (strtol s) \<noteq> []"
proof (cases "strtol_scan (c_str s)")
  case None
  then show ?thesis using assms(1) by (auto simp: strtol_def)
next
  case (Some p)
  then obtain v rest where p: "strtol_scan (c_str s) = Some (v, rest)" by (cases p) auto
  then have "c \<in> set rest" using assms by (blast intro: strtol_scan_rest)
  with p show ?thesis by (auto simp: strtol_def)
qed

lemma digits_val_bound: "list_all isdigit ds \<Longrightarrow> digits_val ds < 10 ^ length ds"
proof (induction ds rule: rev_induct)
  case (snoc c ds)
  then have "code c - 48 < 10" "digits_val ds < 10 ^ length ds" by (auto simp: isdigit_def)
  then show ?case by (simp add: digits_val_snoc)
qed (simp add: digits_val_def)

text \<open>A digit string without a superfluous zero is the decimal form of its value.\<close>

lemma show_nat_digits_val:
  assumes "list_all isdigit ds" "ds \<noteq> []" "hd ds = CHR ''0'' \<Longrightarrow> length ds = 1"
  shows "show_nat (digits_val ds) = ds"
  using assms
proof (induction ds rule: rev_induct)
  case (snoc c ds)
  have c: "code c - 48 < 10" "digit_char (code c - 48) = c"
    using snoc.prems(1) digit_char_code by (auto simp: isdigit_def)
  show ?case
  proof (cases "ds = []")
    case True
    with c show ?thesis by (simp add: digits_val_def show_nat.simps)
  next
    case False
    with snoc have nz: "hd ds \<noteq> CHR ''0''" and IH: "show_nat (digits_val ds) = ds" by auto
    have "digits_val ds \<noteq> 0"
    proof
      assume "digits_val ds = 0"
      with IH have "ds = show_nat 0" by simp
      with nz show False by (simp add: show_nat.simps)
    qed
    with IH c show ?thesis
      by (simp add: digits_val_snoc show_nat.simps [of "10 * digits_val ds + (code c - 48)"])
  qed
qed simp

lemma show_nat_leading: "hd (show_nat n) = CHR ''0'' \<Longrightarrow> show_nat n = ''0''"
proof (induction n rule: show_nat.induct)
  case (1 n)
  show ?case
  proof (cases "n < 10")
    case True
    then show ?thesis using "1.prems" by (simp add: show_nat.simps [of n])
  next
    case False
    with "1.prems" have "hd (show_nat (n div 10)) = CHR ''0''" by (simp add: show_nat.simps [of n])
    with False 1 have "show_nat (n div 10) = ''0''" by simp
    then have "n div 10 = digits_val ''0''" by (metis digits_val_show_nat)
    with False show ?thesis by (simp add: digits_val_def code_def)
  qed
qed

lemma length_show_nat: "n < 10 ^ k \<Longrightarrow> 0 < k \<Longrightarrow> length (show_nat n) \<le> k"
proof (induction k arbitrary: n)
  case (Suc k)
  show ?case
  proof (cases "n < 10")
    case True
    then show ?thesis by (simp add: show_nat.simps [of n])
  next
    case False
    with Suc.prems have "n div 10 < 10 ^ k" "0 < k" by (auto intro: gr0I)
    with Suc.IH False show ?thesis by (simp add: show_nat.simps [of n])
  qed
qed simp

lemma stoi_digits:
  assumes "list_all isdigit ds" "ds \<noteq> []" "int (digits_val ds) \<le> int_max"
  shows "stoi ds = Inr (int (digits_val ds))"
proof -
  obtain c cs where ds: "ds = c # cs" "isdigit c" using assms by (cases ds) auto
  have "c_str ds = ds"
    using assms(1) by (auto simp: isdigit_def code_def list_all_iff intro!: c_str_id)
  moreover have "skip_sign (dropWhile isspace ds) = (False, ds)"
    using ds skip_sign_digit digit_not_space by simp
  moreover have "takeWhile isdigit ds = ds" "dropWhile isdigit ds = []"
    using assms(1) by (auto simp: list_all_iff)
  ultimately have "strtol_scan (c_str ds) = Some (int (digits_val ds), [])"
    using assms(2) by (simp add: strtol_scan_def Let_def takeWhile_eq_all_conv [THEN iffD2])
  with assms(3) show ?thesis by (simp add: stoi_def int_min_def)
qed

end
