(* ===== verification/Cxx_Stream.thy ===== *)
theory Cxx_Stream
  imports Cxx_Strings
begin

text \<open>
  \<open>std::istringstream\<close> and the extraction operations the gateway uses: \<open>std::getline\<close>,
  \<open>operator>>\<close> into a string and \<open>read\<close>. A stream is its unread characters and its
  \<open>eofbit\<close> and \<open>failbit\<close>. Every operation first builds a sentry: on a stream that is
  not good it only sets \<open>failbit\<close> and leaves the target string as it was. The locale
  \<open>token_loop\<close> is the interface between a line source and the loops
  \<open>while (getline(s, tok, d)) v.push_back(tok)\<close> of the sources.
\<close>

section \<open>The stream and its operations\<close>

record istream =
  rdbuf :: string
  eofbit :: bool
  failbit :: bool

definition istringstream :: "string \<Rightarrow> istream" where
  "istringstream s = \<lparr>rdbuf = s, eofbit = False, failbit = False\<rparr>"

definition good :: "istream \<Rightarrow> bool" where
  "good s \<longleftrightarrow> \<not> eofbit s \<and> \<not> failbit s"

instantiation istream_ext :: (type) size
begin

definition size_istream_ext :: "'a istream_scheme \<Rightarrow> nat" where
  "size_istream_ext s = length (rdbuf s)"

instance ..

end

definition getline :: "char \<Rightarrow> istream \<Rightarrow> string \<Rightarrow> istream \<times> string" where
  "getline d s old =
     (if good s then
        (let tok = takeWhile (\<lambda>c. c \<noteq> d) (rdbuf s)
         in case dropWhile (\<lambda>c. c \<noteq> d) (rdbuf s) of
              [] \<Rightarrow> (s\<lparr>rdbuf := [], eofbit := True, failbit := (tok = [])\<rparr>, tok)
            | _ # rest \<Rightarrow> (s\<lparr>rdbuf := rest\<rparr>, tok))
      else (s\<lparr>failbit := True\<rparr>, old))"

definition extract_word :: "istream \<Rightarrow> string \<Rightarrow> istream \<times> string" where
  \<comment> \<open>\<open>stream >> str\<close>\<close>
  "extract_word s old =
     (if good s then
        (let b = dropWhile isspace (rdbuf s)
         in if b = [] then (s\<lparr>rdbuf := [], eofbit := True, failbit := True\<rparr>, old)
            else (let rest = dropWhile (\<lambda>c. \<not> isspace c) b
                  in (s\<lparr>rdbuf := rest, eofbit := (rest = [])\<rparr>,
                      takeWhile (\<lambda>c. \<not> isspace c) b)))
      else (s\<lparr>failbit := True\<rparr>, old))"

definition read_chars :: "istream \<Rightarrow> nat \<Rightarrow> istream \<times> string" where
  \<comment> \<open>\<open>stream.read(p, n)\<close>: the characters stored from \<open>p\<close> on\<close>
  "read_chars s n =
     (if good s then
        (if length (rdbuf s) < n then (s\<lparr>rdbuf := [], eofbit := True, failbit := True\<rparr>, rdbuf s)
         else (s\<lparr>rdbuf := drop n (rdbuf s)\<rparr>, take n (rdbuf s)))
      else (s\<lparr>failbit := True\<rparr>, []))"

lemma istringstream_simps [simp]:
  "rdbuf (istringstream s) = s" "good (istringstream s)"
  "size (istringstream s) = length s"
  by (simp_all add: istringstream_def good_def size_istream_ext_def)

lemma good_update [simp]: "good (s\<lparr>rdbuf := r\<rparr>) = good s"
  by (simp add: good_def)

section \<open>Reading lines\<close>

lemma getline_delim:
  assumes "good s" "rdbuf s = u @ d # v" "d \<notin> set u"
  shows "getline d s old = (s\<lparr>rdbuf := v\<rparr>, u)"
  using assms by (simp add: getline_def)

lemma getline_last:
  assumes "good s" "d \<notin> set (rdbuf s)"
  shows "getline d s old
           = (s\<lparr>rdbuf := [], eofbit := True, failbit := (rdbuf s = [])\<rparr>, rdbuf s)"
  using assms by (simp add: getline_def takeWhile_none dropWhile_none Let_def)

lemma getline_closed: "\<not> good s \<Longrightarrow> getline d s old = (s\<lparr>failbit := True\<rparr>, old)"
  by (simp add: getline_def)

text \<open>A line that was read consumed a character: every loop over \<open>getline\<close> ends.\<close>

lemma getline_shrinks:
  assumes "getline d s old = (s', tok)" "\<not> failbit s'"
  shows "size s' < size s"
proof (cases "good s")
  case True
  then show ?thesis using assms
    by (cases "dropWhile (\<lambda>c. c \<noteq> d) (rdbuf s)")
      (auto simp: getline_def Let_def size_istream_ext_def takeWhile_eq_Nil_iff
        dest: dropWhile_Cons_length)
next
  case False
  then show ?thesis using assms by (auto simp: getline_def)
qed

lemma getline_no_delim: "getline d s old = (s', tok) \<Longrightarrow> good s \<Longrightarrow> d \<notin> set tok"
  by (auto simp: getline_def Let_def split: list.splits dest: set_takeWhileD)

lemma getline_token_length:
  "getline d s old = (s', tok) \<Longrightarrow> good s \<Longrightarrow> length tok \<le> size s"
  by (auto simp: getline_def Let_def size_istream_ext_def length_takeWhile_le split: list.splits)

lemma getline_ok_good: "getline d s old = (s', tok) \<Longrightarrow> \<not> failbit s' \<Longrightarrow> good s"
  by (auto simp: getline_def split: if_splits)

section \<open>Splitting into fields\<close>

fun pieces :: "'a \<Rightarrow> 'a list \<Rightarrow> 'a list list" where
  "pieces d [] = [[]]"
| "pieces d (c # cs) =
     (if c = d then [] # pieces d cs
      else (case pieces d cs of [] \<Rightarrow> [[c]] | f # fs \<Rightarrow> (c # f) # fs))"

fun join :: "'a \<Rightarrow> 'a list list \<Rightarrow> 'a list" where
  "join d [] = []"
| "join d [x] = x"
| "join d (x # y # zs) = x @ d # join d (y # zs)"

definition drop_last_empty :: "'a list list \<Rightarrow> 'a list list" where
  "drop_last_empty fs = (if fs \<noteq> [] \<and> last fs = [] then butlast fs else fs)"

lemma pieces_nonempty [simp]: "pieces d s \<noteq> []"
  by (cases s) (auto split: list.splits)

lemma pieces_free: "d \<notin> set s \<Longrightarrow> pieces d s = [s]"
  by (induction s) auto

lemma pieces_delim: "d \<notin> set u \<Longrightarrow> pieces d (u @ d # v) = u # pieces d v"
  by (induction u) auto

lemma pieces_no_delim: "f \<in> set (pieces d s) \<Longrightarrow> d \<notin> set f"
  by (induction s arbitrary: f) (auto split: list.splits if_splits)

lemma join_Cons: "xs \<noteq> [] \<Longrightarrow> join d (x # xs) = x @ d # join d xs"
  by (cases xs) simp_all

lemma join_pieces [simp]: "join d (pieces d s) = s"
proof (induction s)
  case (Cons c cs)
  then show ?case
    by (cases "pieces d cs"; cases "tl (pieces d cs)") (auto simp: join_Cons)
qed simp

lemma pieces_join: "xs \<noteq> [] \<Longrightarrow> \<forall>x \<in> set xs. d \<notin> set x \<Longrightarrow> pieces d (join d xs) = xs"
  by (induction d xs rule: join.induct) (auto simp: pieces_free pieces_delim)

lemma length_pieces: "length (pieces d s) = Suc (count_list s d)"
  by (induction s) (auto split: list.splits)

lemma join_snoc_empty: "xs \<noteq> [] \<Longrightarrow> join d (xs @ [[]]) = join d xs @ [d]"
  by (induction d xs rule: join.induct) (auto simp: join_Cons)

text \<open>The text a list of kept fields came from: their join, with or without a last delimiter.\<close>

lemma kept_fields_iff:
  assumes "ts \<noteq> []" "last ts \<noteq> []" "\<forall>t \<in> set ts. d \<notin> set t"
  shows "drop_last_empty (pieces d s) = ts \<longleftrightarrow> s = join d ts \<or> s = join d ts @ [d]"
proof
  assume kept: "drop_last_empty (pieces d s) = ts"
  show "s = join d ts \<or> s = join d ts @ [d]"
  proof (cases "last (pieces d s) = []")
    case True
    then have "pieces d s = ts @ [[]]"
      using kept by (simp add: drop_last_empty_def) (metis append_butlast_last_id pieces_nonempty)
    then show ?thesis using join_snoc_empty assms(1) join_pieces by metis
  next
    case False
    then show ?thesis using kept join_pieces [of d s] by (simp add: drop_last_empty_def)
  qed
next
  assume "s = join d ts \<or> s = join d ts @ [d]"
  then have "s = join d ts \<or> s = join d (ts @ [[]])" using assms(1) join_snoc_empty by metis
  then have "pieces d s = ts \<or> pieces d s = ts @ [[]]"
    using assms pieces_join [of ts d] pieces_join [of "ts @ [[]]" d] by auto
  then show "drop_last_empty (pieces d s) = ts" using assms by (auto simp: drop_last_empty_def)
qed

section \<open>The interface between a line source and a token loop\<close>

locale token_loop =
  fixes next_line :: "'s \<Rightarrow> string \<Rightarrow> 's \<times> string"
    and failed :: "'s \<Rightarrow> bool"
    and opened :: "'s \<Rightarrow> bool"
    and content :: "'s \<Rightarrow> string"
    and delim :: char
    and collect :: "'s \<Rightarrow> string \<Rightarrow> string list"
  assumes line_delim: "opened s \<Longrightarrow> content s = u @ delim # v \<Longrightarrow> delim \<notin> set u \<Longrightarrow>
      \<exists>s'. next_line s old = (s', u) \<and> \<not> failed s' \<and> opened s' \<and> content s' = v"
    and line_last: "opened s \<Longrightarrow> delim \<notin> set (content s) \<Longrightarrow>
      \<exists>s'. next_line s old = (s', content s) \<and> failed s' = (content s = []) \<and> \<not> opened s'"
    and line_closed: "\<not> opened s \<Longrightarrow> failed (fst (next_line s old))"
    and collect_step: "collect s old =
      (case next_line s old of (s', tok) \<Rightarrow> if failed s' then [] else tok # collect s' tok)"
begin

lemma collect_closed: "\<not> opened s \<Longrightarrow> collect s old = []"
  using line_closed [of s old] by (subst collect_step) (auto split: prod.splits)

lemma collect_fields:
  assumes "opened s"
  shows "collect s old = drop_last_empty (pieces delim (content s))"
  using assms
proof (induction "length (content s)" arbitrary: s old rule: less_induct)
  case less
  show ?case
  proof (cases "delim \<in> set (content s)")
    case True
    then obtain u v where uv: "content s = u @ delim # v" "delim \<notin> set u"
      using split_list_first by metis
    then obtain s' where s': "next_line s old = (s', u)" "\<not> failed s'" "opened s'" "content s' = v"
      using line_delim less.prems by blast
    then have "collect s' u = drop_last_empty (pieces delim v)" using less.hyps uv by auto
    with s' uv show ?thesis
      by (subst collect_step) (simp add: pieces_delim drop_last_empty_def)
  next
    case False
    then obtain s' where "next_line s old = (s', content s)"
      "failed s' = (content s = [])" "\<not> opened s'"
      using line_last less.prems by blast
    with False show ?thesis
      by (subst collect_step) (simp add: pieces_free drop_last_empty_def collect_closed)
  qed
qed

end

end
