(* ===== verification/Tokens.thy ===== *)
theory Tokens
  imports Cxx_Stream
begin

text \<open>
  \<open>src/src/utilis/split.h\<close> and \<open>src/src/utilis/ipUtils.h\<close>: the comma splitter used for
  the lists of database hosts and ports, the IPv4 checker, and the host lookup. Both
  parsers loop over \<open>std::getline\<close> on a string stream and are instances of
  \<open>token_loop\<close>.
\<close>

section \<open>split\<close>

function split_loop :: "char \<Rightarrow> istream \<Rightarrow> string \<Rightarrow> string list" where
  "split_loop delimiter ss token =
     (case getline delimiter ss token of
        (ss', token') \<Rightarrow> if failbit ss' then [] else token' # split_loop delimiter ss' token')"
  by pat_completeness auto
termination
  by (relation "measure (\<lambda>(d, ss, t). size ss)") (auto split: prod.splits dest: getline_shrinks)

declare split_loop.simps [simp del]

definition split :: "string \<Rightarrow> char \<Rightarrow> string list" where
  "split str delimiter = split_loop delimiter (istringstream str) []"

lemma getline_delim_ex:
  "good s \<Longrightarrow> rdbuf s = u @ d # v \<Longrightarrow> d \<notin> set u \<Longrightarrow>
     \<exists>s'. getline d s old = (s', u) \<and> \<not> failbit s' \<and> good s' \<and> rdbuf s' = v"
  by (auto simp: getline_delim good_def)

lemma getline_last_ex:
  "good s \<Longrightarrow> d \<notin> set (rdbuf s) \<Longrightarrow>
     \<exists>s'. getline d s old = (s', rdbuf s) \<and> failbit s' = (rdbuf s = []) \<and> \<not> good s'"
  by (auto simp: getline_last good_def)

lemma getline_closed_failed: "\<not> good s \<Longrightarrow> failbit (fst (getline d s old))"
  by (simp add: getline_closed)

lemmas getline_laws = getline_delim_ex getline_last_ex getline_closed_failed

interpretation splitter: token_loop "getline d" failbit good rdbuf d "split_loop d" for d
  by unfold_locales (auto simp: getline_laws intro: split_loop.simps)

lemma split_fields: "split str d = drop_last_empty (pieces d str)"
  by (simp add: split_def splitter.collect_fields)

lemma split_no_delim: "t \<in> set (split str d) \<Longrightarrow> d \<notin> set t"
  by (auto simp: split_fields drop_last_empty_def pieces_no_delim split: if_splits
      dest: in_set_butlastD)

lemma split_several: "2 \<le> length (split str d) \<Longrightarrow> d \<in> set str"
  using pieces_free [of d str] by (fastforce simp: split_fields drop_last_empty_def split: if_splits)

lemma split_nonempty: "str \<noteq> [] \<Longrightarrow> split str d \<noteq> []"
  by (cases "pieces d str"; cases str)
    (auto simp: split_fields drop_last_empty_def split: if_splits list.splits)

section \<open>isValidIPv4\<close>

function octet_loop :: "istream \<Rightarrow> string \<Rightarrow> string list" where
  "octet_loop ss octet =
     (case getline (CHR ''.'') ss octet of
        (ss', octet') \<Rightarrow> if failbit ss' then [] else octet' # octet_loop ss' octet')"
  by pat_completeness auto
termination
  by (relation "measure (\<lambda>(ss, t). size ss)") (auto split: prod.splits dest: getline_shrinks)

declare octet_loop.simps [simp del]

fun check_octets :: "string list \<Rightarrow> bool result" where
  \<comment> \<open>\<open>isdigit\<close> of a character beyond 127, which the C standard leaves open, is taken as false\<close>
  "check_octets [] = Inr True"
| "check_octets (oct # octs) =
     (if oct = [] \<or> 3 < length oct \<or> \<not> list_all isdigit oct then Inr False
      else and_then (stoi oct) (\<lambda>num.
        if num < 0 \<or> 255 < num then Inr False
        else if hd oct = CHR ''0'' \<and> 1 < length oct then Inr False
        else check_octets octs))"

definition isValidIPv4 :: "string \<Rightarrow> bool result" where
  "isValidIPv4 ipAddress =
     (let octets = octet_loop (istringstream ipAddress) []
      in if length octets \<noteq> 4 then Inr False else check_octets octets)"

interpretation octets: token_loop "getline (CHR ''.'')" failbit good rdbuf "CHR ''.''" octet_loop
  by unfold_locales (auto simp: getline_laws intro: octet_loop.simps)

lemma octet_loop_fields: "octet_loop (istringstream s) [] = drop_last_empty (pieces (CHR ''.'') s)"
  by (simp add: octets.collect_fields)

definition dotted :: "nat list \<Rightarrow> string" where
  \<comment> \<open>the specification's text of an address: decimal numbers separated by dots\<close>
  "dotted ns = join (CHR ''.'') (map show_nat ns)"

definition octet_ok :: "string \<Rightarrow> bool" where
  "octet_ok t \<longleftrightarrow> t = show_nat (digits_val t) \<and> digits_val t \<le> 255"

lemma octet_ok_show_nat [simp]: "octet_ok (show_nat n) \<longleftrightarrow> n \<le> 255"
  by (simp add: octet_ok_def)

lemma octet_ok_nonempty: "octet_ok t \<Longrightarrow> t \<noteq> []"
  by (auto simp: octet_ok_def) (metis show_nat_nonempty)

lemma octet_ok_no_dot: "octet_ok t \<Longrightarrow> CHR ''.'' \<notin> set t"
  using show_nat_digits [of "CHR ''.''" "digits_val t"]
  by (auto simp: octet_ok_def isdigit_def code_def)

lemma check_octets_Cons: "check_octets (t # ts) = (if octet_ok t then check_octets ts else Inr False)"
proof (cases "t = [] \<or> 3 < length t \<or> \<not> list_all isdigit t")
  case True
  moreover have "\<not> octet_ok t"
  proof
    assume ok: "octet_ok t"
    then have "list_all isdigit t"
      using show_nat_digits [of _ "digits_val t"] by (auto simp: octet_ok_def list_all_iff)
    moreover have "length t \<le> 3"
      using ok length_show_nat [of "digits_val t" 3] by (simp add: octet_ok_def)
    ultimately show False using True octet_ok_nonempty [OF ok] by simp
  qed
  ultimately show ?thesis by simp
next
  case False
  then have t: "list_all isdigit t" "t \<noteq> []" "length t \<le> 3" by auto
  have "digits_val t < 10 ^ length t" by (rule digits_val_bound [OF t(1)])
  also have "(10::nat) ^ length t \<le> 10 ^ 3" using t(3) by (intro power_increasing) auto
  finally have "stoi t = Inr (int (digits_val t))"
    using stoi_digits t by (simp add: int_max_def)
  moreover have "octet_ok t \<longleftrightarrow> digits_val t \<le> 255 \<and> \<not> (hd t = CHR ''0'' \<and> 1 < length t)"
  proof
    assume ok: "octet_ok t"
    then have "hd t = CHR ''0'' \<Longrightarrow> t = ''0''"
      using show_nat_leading [of "digits_val t"] by (simp add: octet_ok_def)
    with ok show "digits_val t \<le> 255 \<and> \<not> (hd t = CHR ''0'' \<and> 1 < length t)"
      by (auto simp: octet_ok_def)
  next
    assume "digits_val t \<le> 255 \<and> \<not> (hd t = CHR ''0'' \<and> 1 < length t)"
    moreover have "length t = 1 \<or> 1 < length t" using t(2) by (cases t) auto
    ultimately show "octet_ok t"
      using show_nat_digits_val [OF t(1,2)] by (auto simp: octet_ok_def)
  qed
  ultimately show ?thesis using False by auto
qed

lemma check_octets_all: "check_octets ts = Inr (list_all octet_ok ts)"
  by (induction ts) (simp_all add: check_octets_Cons del: check_octets.simps(2))

declare check_octets.simps(2) [simp del]

lemma isValidIPv4_fields:
  "isValidIPv4 s = Inr (length (drop_last_empty (pieces (CHR ''.'') s)) = 4
                        \<and> list_all octet_ok (drop_last_empty (pieces (CHR ''.'') s)))"
  by (simp add: isValidIPv4_def octet_loop_fields check_octets_all Let_def)

lemma four_octets:
  "length ts = 4 \<and> list_all octet_ok ts \<longleftrightarrow>
     (\<exists>a b c d. {a, b, c, d} \<subseteq> {..255} \<and> ts = map show_nat [a, b, c, d])"
proof
  assume ts: "length ts = 4 \<and> list_all octet_ok ts"
  then obtain t u v w where "ts = [t, u, v, w]"
    by (auto simp: numeral_eq_Suc length_Suc_conv)
  with ts show "\<exists>a b c d. {a, b, c, d} \<subseteq> {..255} \<and> ts = map show_nat [a, b, c, d]"
    by (intro exI [of _ "digits_val t"] exI [of _ "digits_val u"] exI [of _ "digits_val v"]
        exI [of _ "digits_val w"]) (auto simp: octet_ok_def)
qed auto

section \<open>s_valid_ipv6\<close>

definition s_valid_ipv6 :: "(string \<Rightarrow> int) \<Rightarrow> string \<Rightarrow> bool" where
  \<comment> \<open>\<open>inet_pton\<close> is the result of the library call for the family \<open>AF_INET6\<close>\<close>
  "s_valid_ipv6 inet_pton ip \<longleftrightarrow> inet_pton (c_str ip) \<noteq> 0"

section \<open>getHostAndIP\<close>

text \<open>
  The answers of the operating system are a parameter: the host name (\<open>None\<close> where the
  call fails), the address list of a name (\<open>None\<close> where it does not resolve), the text of an
  address, and the message of the last error. An empty address list makes the code read
  through a null pointer.
\<close>

record os_net =
  os_gethostname :: "string option"
  os_gethostbyname :: "string \<Rightarrow> uint32 list option"
  os_inet_ntoa :: "uint32 \<Rightarrow> string option"
  os_strerror :: string

definition getHostAndIP :: "os_net \<Rightarrow> (string \<times> string \<times> int) result" where
  "getHostAndIP os =
     (case os_gethostname os of
        None \<Rightarrow> Inr (os_strerror os, [], - 1)
      | Some host \<Rightarrow>
          (case os_gethostbyname os host of
             None \<Rightarrow> Inr (os_strerror os, [], - 1)
           | Some [] \<Rightarrow> Inl (UndefinedBehaviour ''null h_addr_list entry'')
           | Some (addr # _) \<Rightarrow>
               (case os_inet_ntoa os addr of
                  None \<Rightarrow> Inr (os_strerror os, [], - 1)
                | Some ip \<Rightarrow> Inr (host, ip, 0))))"

lemma getHostAndIP_cases:
  "getHostAndIP os = Inr (h, ip, err) \<Longrightarrow>
     (err = 0 \<and> os_gethostname os = Some h) \<or> (err = - 1 \<and> ip = [])"
  by (auto simp: getHostAndIP_def split: option.splits list.splits)

section \<open>Properties\<close>

text \<open>
  C29. The IPv4 checker never throws, and it accepts exactly the dotted quads of decimal numbers
  up to 255 without superfluous zeros, and, because \<open>getline\<close> yields no token for an empty
  rest, the same texts followed by one more dot.
\<close>

theorem isValidIPv4_exact:
  "isValidIPv4 s = Inr (\<exists>a b c d. {a, b, c, d} \<subseteq> {..255} \<and>
     s \<in> {dotted [a, b, c, d], dotted [a, b, c, d] @ ''.''})"
proof -
  let ?dot = "CHR ''.''"
  have kept: "drop_last_empty (pieces ?dot s) = map show_nat [a, b, c, d]
      \<longleftrightarrow> s \<in> {dotted [a, b, c, d], dotted [a, b, c, d] @ ''.''}"
    if "{a, b, c, d} \<subseteq> {..255::nat}" for a b c d
  proof -
    have "\<forall>t \<in> set (map show_nat [a, b, c, d]). ?dot \<notin> set t"
      using that by (auto intro!: octet_ok_no_dot)
    then show ?thesis
      using kept_fields_iff [of "map show_nat [a, b, c, d]" ?dot s] by (auto simp: dotted_def)
  qed
  show ?thesis
    unfolding isValidIPv4_fields four_octets
    by (intro arg_cong [where f = Inr] ex_cong1 conj_cong refl kept)
qed

text \<open>
  C30. Splitting loses nothing but a final delimiter: joining the tokens of \<open>split\<close> gives
  the text back, or the text without its last character where that is a delimiter; no token
  holds a delimiter, and every list of delimiter-free tokens that ends in a non-empty one is
  returned by splitting its join.
\<close>

theorem split_roundtrip:
  "str \<in> {join d (split str d), join d (split str d) @ [d]}
   \<and> list_all (\<lambda>t. d \<notin> set t) (split str d)
   \<and> (ts = [] \<or> (last ts \<noteq> [] \<and> list_all (\<lambda>t. d \<notin> set t) ts) \<longrightarrow> split (join d ts) d = ts)"
proof (intro conjI impI)
  show "str \<in> {join d (split str d), join d (split str d) @ [d]}"
  proof (cases "last (pieces d str) = []")
    case True
    then obtain ps where "pieces d str = ps @ [[]]" by (metis append_butlast_last_id pieces_nonempty)
    moreover from this have "str = join d (ps @ [[]])" by (metis join_pieces)
    ultimately show ?thesis
      by (cases "ps = []") (simp_all add: split_fields drop_last_empty_def join_snoc_empty)
  next
    case False
    then show ?thesis by (simp add: split_fields drop_last_empty_def)
  qed
  show "list_all (\<lambda>t. d \<notin> set t) (split str d)"
    by (auto simp: list_all_iff dest: split_no_delim)
next
  assume "ts = [] \<or> (last ts \<noteq> [] \<and> list_all (\<lambda>t. d \<notin> set t) ts)"
  then show "split (join d ts) d = ts"
    using kept_fields_iff [of ts d "join d ts"]
    by (cases "ts = []") (auto simp: split_fields drop_last_empty_def list_all_iff)
qed

lemma split_roundtrip_witness:
  "split ''10.0.0.1,10.0.0.2'' (CHR '','') = [''10.0.0.1'', ''10.0.0.2'']"
  using split_roundtrip [of "[]" "CHR '',''" "[''10.0.0.1'', ''10.0.0.2'']"] by simp

end
