(* ===== verification/Scylla.thy ===== *)
theory Scylla
  imports Tokens
begin

text \<open>
  \<open>src/src/ScyllaDBManager.h\<close>: the manager of the presence table. The statements it builds,
  its \<open>connect\<close> with the parsing of the port list, and its queries are modelled call by
  call: each operation returns its value, the calls it made on the Cassandra driver, in
  order, and the new state of the database. The driver is a parameter: \<open>exec q w\<close> is the
  outcome of running the statement text \<open>q\<close> (as the C string the driver is handed) in the
  database state \<open>w\<close>.
\<close>

section \<open>The driver and the manager\<close>

type_synonym row = "string \<Rightarrow> string option"

datatype cass_result = CassOk "row list" | CassError string

type_synonym 'w driver = "string \<Rightarrow> 'w \<Rightarrow> cass_result \<times> 'w"

datatype cass_call =
    StatementNew string | StatementFree
  | SessionExecute | SessionConnect | FutureFree | FutureErrorMessage
  | FutureGetResult | ResultFree
  | IteratorFromResult | IteratorFree
  | Cerr string  \<comment> \<open>not a call: a text written to \<open>std::cerr\<close>\<close>

record cluster =
  \<comment> \<open>what the code last passed to \<open>cass_cluster_set_contact_points\<close> and \<open>cass_cluster_set_port\<close>; the code
     ignores the results of both, so that a port the driver rejects is recorded here all the same\<close>
  contact_points :: string
  cluster_port :: "int option"  \<comment> \<open>\<open>None\<close>: not called, the driver keeps its default\<close>

record scylla_manager =
  m_keyspace :: string
  m_table :: string
  m_app_server_name :: string
  m_scylladb_server_name :: string
  m_scylladb_port :: string

definition ScyllaDBManager :: "string \<Rightarrow> string \<Rightarrow> string \<Rightarrow> scylla_manager" where
  "ScyllaDBManager scylladb_server_name app_server_name port =
     \<lparr>m_keyspace = [], m_table = [], m_app_server_name = app_server_name,
      m_scylladb_server_name = scylladb_server_name, m_scylladb_port = port\<rparr>"

definition getAppServerName :: "scylla_manager \<Rightarrow> string" where
  "getAppServerName m = m_app_server_name m"

definition print_error :: "string \<Rightarrow> cass_call list" where
  \<comment> \<open>\<open>message\<close> is what the driver reports for the future\<close>
  "print_error message = [FutureErrorMessage, Cerr (''Error: '' @ message @ [CHR 0x0A])]"

section \<open>connect\<close>

definition set_port :: "string \<Rightarrow> uint16 \<Rightarrow> cluster \<Rightarrow> cluster" where
  \<comment> \<open>parse the whole port text and set the port if nothing follows the number\<close>
  "set_port port_text i cl =
     (let (v, rest) = strtol port_text; port = word_of_int v :: uint16
      in if rest = [] then cl\<lparr>cluster_port := Some (uint port + uint i)\<rparr> else cl)"

fun port_loop :: "string \<Rightarrow> string list \<Rightarrow> cluster \<Rightarrow> cluster" where
  \<comment> \<open>the loop over the list of ports; its counter \<open>i\<close> stays zero\<close>
  "port_loop port_text [] cl = cl"
| "port_loop port_text (p # ps) cl =
     port_loop port_text ps (if p \<noteq> [] then set_port port_text 0 cl else cl)"

definition connect ::
    "(cluster \<Rightarrow> string option) \<Rightarrow> scylla_manager \<Rightarrow> cluster \<Rightarrow> string \<Rightarrow> bool \<times> cass_call list \<times> cluster" where
  \<comment> \<open>\<open>session_connect\<close> is the driver's error, if any, in opening a session on a configured cluster\<close>
  "connect session_connect m cl hosts =
     (let cl1 = cl\<lparr>contact_points := c_str hosts\<rparr>;
          hostsVec = split hosts (CHR '','');
          portsVec = split (m_scylladb_port m) (CHR '','');
          cl2 = (if length portsVec \<noteq> length hostsVec then set_port (m_scylladb_port m) 0 cl1
                 else port_loop (m_scylladb_port m) portsVec cl1);
          success = (session_connect cl2 = None)
      in (success,
          [SessionConnect] @ (case session_connect cl2 of None \<Rightarrow> [] | Some e \<Rightarrow> print_error e) @ [FutureFree],
          cl2))"

section \<open>Statements without a result\<close>

definition execute_query :: "'w driver \<Rightarrow> string \<Rightarrow> 'w \<Rightarrow> bool \<times> cass_call list \<times> 'w" where
  "execute_query exec query w =
     (let (r, w') = exec (c_str query) w;
          success = (case r of CassOk _ \<Rightarrow> True | CassError _ \<Rightarrow> False)
      in (success,
          [StatementNew (c_str query), SessionExecute, StatementFree]
            @ (case r of CassOk _ \<Rightarrow> [] | CassError e \<Rightarrow> print_error e) @ [FutureFree],
          w'))"

definition keyspace_query :: "string \<Rightarrow> string \<Rightarrow> int \<Rightarrow> string" where
  "keyspace_query keyspace strategy replication_factor =
     ''CREATE KEYSPACE IF NOT EXISTS '' @ keyspace
       @ '' WITH replication = {'' @ [CHR 0x27] @ ''class'' @ [CHR 0x27] @ '': '' @ [CHR 0x27] @ strategy
       @ [CHR 0x27] @ '', '' @ [CHR 0x27] @ ''replication_factor'' @ [CHR 0x27] @ '': ''
       @ show_int replication_factor
       @ ''} AND TABLETS = {'' @ [CHR 0x27] @ ''enabled'' @ [CHR 0x27] @ '': false};''"

definition create_keyspace ::
    "'w driver \<Rightarrow> scylla_manager \<Rightarrow> string \<Rightarrow> string \<Rightarrow> int \<Rightarrow> 'w
       \<Rightarrow> scylla_manager \<times> bool \<times> cass_call list \<times> 'w" where
  "create_keyspace exec m keyspace strategy replication_factor w =
     (let m' = m\<lparr>m_keyspace := keyspace\<rparr>
      in (m', execute_query exec (keyspace_query (m_keyspace m') strategy replication_factor) w))"

definition table_query :: "scylla_manager \<Rightarrow> string" where
  "table_query m = ''CREATE TABLE IF NOT EXISTS '' @ m_keyspace m @ ''.'' @ m_table m
     @ '' (vin text PRIMARY KEY, host text);''"

definition create_table ::
    "'w driver \<Rightarrow> scylla_manager \<Rightarrow> string \<Rightarrow> 'w \<Rightarrow> scylla_manager \<times> bool \<times> cass_call list \<times> 'w" where
  "create_table exec m table w =
     (let m' = m\<lparr>m_table := table\<rparr> in (m', execute_query exec (table_query m') w))"

definition view_query :: "scylla_manager \<Rightarrow> string" where
  "view_query m = ''CREATE MATERIALIZED VIEW IF NOT EXISTS '' @ m_keyspace m @ ''.'' @ m_table m
     @ ''_by_host AS SELECT host, vin FROM '' @ m_keyspace m @ ''.'' @ m_table m
     @ '' WHERE host IS NOT NULL AND vin IS NOT NULL PRIMARY KEY (host, vin);''"

definition create_materialized_view ::
    "'w driver \<Rightarrow> scylla_manager \<Rightarrow> 'w \<Rightarrow> bool \<times> cass_call list \<times> 'w" where
  "create_materialized_view exec m w = execute_query exec (view_query m) w"

abbreviation QUOTE :: char where "QUOTE \<equiv> CHR 0x27"

definition insert_query :: "scylla_manager \<Rightarrow> string \<Rightarrow> string \<Rightarrow> string" where
  "insert_query m vin host = ''INSERT INTO '' @ m_keyspace m @ ''.'' @ m_table m
     @ '' (vin, host) VALUES ('' @ [QUOTE] @ vin @ [QUOTE] @ '', '' @ [QUOTE] @ host @ [QUOTE] @ '');''"

definition insert_data ::
    "'w driver \<Rightarrow> scylla_manager \<Rightarrow> string \<Rightarrow> string \<Rightarrow> 'w \<Rightarrow> bool \<times> cass_call list \<times> 'w" where
  "insert_data exec m vin host w = execute_query exec (insert_query m vin host) w"

definition delete_query :: "scylla_manager \<Rightarrow> string \<Rightarrow> string" where
  "delete_query m vin = ''DELETE FROM '' @ m_keyspace m @ ''.'' @ m_table m
     @ '' WHERE vin = '' @ [QUOTE] @ vin @ [QUOTE] @ '';''"

definition delete_data ::
    "'w driver \<Rightarrow> scylla_manager \<Rightarrow> string \<Rightarrow> 'w \<Rightarrow> bool \<times> cass_call list \<times> 'w" where
  "delete_data exec m vin w = execute_query exec (delete_query m vin) w"

section \<open>Statements with a result\<close>

definition select_query :: "scylla_manager \<Rightarrow> string \<Rightarrow> string" where
  "select_query m vin = ''SELECT host FROM '' @ m_keyspace m @ ''.'' @ m_table m
     @ '' WHERE vin = '' @ [QUOTE] @ vin @ [QUOTE] @ '';''"

definition query_table ::
    "'w driver \<Rightarrow> scylla_manager \<Rightarrow> string \<Rightarrow> 'w \<Rightarrow> string option result \<times> cass_call list \<times> 'w" where
  \<comment> \<open>a missing or null column leaves the string pointer unset\<close>
  "query_table exec m vin w =
     (let query = c_str (select_query m vin);
          pre = [StatementNew query, SessionExecute, StatementFree]
      in case exec query w of
           (CassOk rows, w') \<Rightarrow>
             (case rows of
                row # _ \<Rightarrow>
                  (case row ''host'' of
                     None \<Rightarrow> (Inl (UndefinedBehaviour ''null column value''),
                              pre @ [FutureGetResult, FutureFree], w')
                   | Some host \<Rightarrow> (Inr (Some host), pre @ [FutureGetResult, FutureFree], w'))
              | [] \<Rightarrow> (Inr None, pre @ [FutureGetResult, ResultFree, FutureFree], w'))
         | (CassError e, w') \<Rightarrow> (Inr None, pre @ print_error e @ [FutureFree], w'))"

definition by_host_query :: "scylla_manager \<Rightarrow> string \<Rightarrow> string" where
  "by_host_query m host = ''SELECT vin FROM '' @ m_keyspace m @ ''.'' @ m_table m
     @ ''_by_host WHERE host == '' @ [QUOTE] @ host"

fun collect_vins :: "row list \<Rightarrow> string list result" where
  "collect_vins [] = Inr []"
| "collect_vins (row # rows) =
     (case row ''vin'' of
        None \<Rightarrow> Inl (UndefinedBehaviour ''null column value'')
      | Some vin \<Rightarrow> and_then (collect_vins rows) (\<lambda>vins. Inr (vin # vins)))"

definition query_materialized_view ::
    "'w driver \<Rightarrow> scylla_manager \<Rightarrow> string \<Rightarrow> 'w \<Rightarrow> string list result \<times> cass_call list \<times> 'w" where
  "query_materialized_view exec m host w =
     (let query = c_str (by_host_query m host);
          pre = [StatementNew query, SessionExecute, StatementFree]
      in case exec query w of
           (CassOk rows, w') \<Rightarrow>
             (collect_vins rows,
              pre @ [FutureGetResult, IteratorFromResult, IteratorFree, ResultFree, FutureFree], w')
         | (CassError e, w') \<Rightarrow> (Inr [], pre @ print_error e @ [FutureFree], w'))"

section \<open>Ports\<close>

lemma set_port_idem: "set_port t i (set_port t i cl) = set_port t i cl"
  by (simp add: set_port_def split: prod.splits)

lemma port_loop_once:
  "port_loop t ps cl = (if list_all (\<lambda>p. p = []) ps then cl else set_port t 0 cl)"
  by (induction ps arbitrary: cl) (auto simp: set_port_idem)

lemma set_port_contact [simp]: "contact_points (set_port t i cl) = contact_points cl"
  by (simp add: set_port_def split: prod.splits)

lemma set_port_list: "CHR '','' \<in> set (c_str t) \<Longrightarrow> set_port t i cl = cl"
  using strtol_stops [of "CHR '',''" t]
  by (auto simp: set_port_def isdigit_def isspace_def code_def split: prod.splits)

lemma strtol_show_nat: "p < 2 ^ 63 \<Longrightarrow> strtol (show_nat p) = (int p, [])"
  using strtol_scan_show_int [of "[]" "int p"]
  by (simp add: strtol_def show_int_def clamp_long_def)

lemma set_port_number:
  "p < 2 ^ 63 \<Longrightarrow> set_port (show_nat p) 0 cl = cl\<lparr>cluster_port := Some (int p mod 2 ^ 16)\<rparr>"
  by (simp add: set_port_def strtol_show_nat unsigned_of_nat take_bit_eq_mod of_nat_mod)

definition configured :: "scylla_manager \<Rightarrow> cluster \<Rightarrow> string \<Rightarrow> cluster" where
  \<comment> \<open>the cluster a session is opened on\<close>
  "configured m cl hosts = snd (snd (connect (\<lambda>_. None) m cl hosts))"

lemma connect_configured:
  "connect sc m cl hosts =
     (sc (configured m cl hosts) = None,
      [SessionConnect] @ (case sc (configured m cl hosts) of None \<Rightarrow> [] | Some e \<Rightarrow> print_error e) @ [FutureFree],
      configured m cl hosts)"
  by (simp add: configured_def connect_def Let_def)

lemma configured_cases:
  "configured m cl hosts =
     (if length (split (m_scylladb_port m) (CHR '','')) \<noteq> length (split hosts (CHR '',''))
         \<or> \<not> list_all (\<lambda>p. p = []) (split (m_scylladb_port m) (CHR '',''))
      then set_port (m_scylladb_port m) 0 (cl\<lparr>contact_points := c_str hosts\<rparr>)
      else cl\<lparr>contact_points := c_str hosts\<rparr>)"
  by (simp add: configured_def connect_def Let_def port_loop_once)

text \<open>
  C35. What \<open>connect\<close> configures: the contact points are the given hosts and it reports the
  driver's verdict on that cluster; a port text that is one number sets the port to it modulo
  \<open>2^16\<close>, but a list of ports never sets any port, even one as long as the list of hosts,
  since every iteration parses the whole list instead of its own element.
\<close>

theorem connect_ports:
  "(fst (connect session_connect m cl hosts) \<longleftrightarrow> session_connect (configured m cl hosts) = None)
   \<and> contact_points (configured m cl hosts) = c_str hosts
   \<and> (\<forall>p < 2 ^ 63. m_scylladb_port m = show_nat p
        \<longrightarrow> cluster_port (configured m cl hosts) = Some (int p mod 2 ^ 16))
   \<and> (CHR '','' \<in> set (c_str (m_scylladb_port m))
        \<longrightarrow> cluster_port (configured m cl hosts) = cluster_port cl)"
proof (intro conjI allI impI)
  show "fst (connect session_connect m cl hosts) \<longleftrightarrow> session_connect (configured m cl hosts) = None"
    by (subst connect_configured) simp
  show "contact_points (configured m cl hosts) = c_str hosts" by (simp add: configured_cases)
next
  fix p :: nat
  assume p: "p < 2 ^ 63" "m_scylladb_port m = show_nat p"
  have "CHR '','' \<notin> set (show_nat p)"
    using show_nat_digits [of "CHR '',''" p] by (auto simp: isdigit_def code_def)
  then have "split (show_nat p) (CHR '','') = [show_nat p]"
    by (simp add: split_fields drop_last_empty_def pieces_free)
  with p show "cluster_port (configured m cl hosts) = Some (int p mod 2 ^ 16)"
    by (simp add: configured_cases set_port_number)
next
  assume "CHR '','' \<in> set (c_str (m_scylladb_port m))"
  then show "cluster_port (configured m cl hosts) = cluster_port cl"
    by (simp add: configured_cases set_port_list)
qed

lemma connect_ports_witness:
  "cluster_port (configured (ScyllaDBManager ''h1,h2'' ''gw'' ''9042,9043'')
     \<lparr>contact_points = [], cluster_port = None\<rparr> ''h1,h2'') = None"
  using connect_ports [of "\<lambda>_. None" "ScyllaDBManager ''h1,h2'' ''gw'' ''9042,9043''"
      "\<lparr>contact_points = [], cluster_port = None\<rparr>" "''h1,h2''"]
  by (simp add: ScyllaDBManager_def c_str_def)

section \<open>Driver handles\<close>

datatype cass_handle = Statement | Future | Result | Iterator

fun acquires :: "cass_call \<Rightarrow> cass_handle option" where
  "acquires (StatementNew _) = Some Statement"
| "acquires SessionExecute = Some Future"
| "acquires SessionConnect = Some Future"
| "acquires FutureGetResult = Some Result"
| "acquires IteratorFromResult = Some Iterator"
| "acquires _ = None"

fun releases :: "cass_call \<Rightarrow> cass_handle option" where
  "releases StatementFree = Some Statement"
| "releases FutureFree = Some Future"
| "releases ResultFree = Some Result"
| "releases IteratorFree = Some Iterator"
| "releases _ = None"

definition leaked :: "cass_call list \<Rightarrow> cass_handle \<Rightarrow> int" where
  "leaked calls h = int (length (filter (\<lambda>c. acquires c = Some h) calls))
                    - int (length (filter (\<lambda>c. releases c = Some h) calls))"

lemma leaked_simps [simp]:
  "leaked [] h = 0"
  "leaked (c # cs) h = (if acquires c = Some h then 1 else 0)
      - (if releases c = Some h then 1 else 0) + leaked cs h"
  "leaked (cs @ ds) h = leaked cs h + leaked ds h"
  "leaked (print_error e) h = 0"
  by (simp_all add: leaked_def print_error_def)

definition reported :: "cass_call list \<Rightarrow> string list" where
  \<comment> \<open>the texts written to \<open>std::cerr\<close>\<close>
  "reported calls = concat (map (\<lambda>c. case c of Cerr t \<Rightarrow> [t] | _ \<Rightarrow> []) calls)"

lemma reported_simps [simp]:
  "reported [] = []" "reported (c # cs) = (case c of Cerr t \<Rightarrow> [t] | _ \<Rightarrow> []) @ reported cs"
  "reported (cs @ ds) = reported cs @ reported ds"
  "reported (print_error e) = [''Error: '' @ e @ [CHR 0x0A]]"
  by (simp_all add: reported_def print_error_def)

definition error_lines :: "cass_result \<times> 'w \<Rightarrow> string list" where
  \<comment> \<open>specification: one line for an error, none for a result\<close>
  "error_lines r = (case fst r of CassOk _ \<Rightarrow> [] | CassError e \<Rightarrow> [''Error: '' @ e @ [CHR 0x0A]])"

definition found_row :: "'w driver \<Rightarrow> scylla_manager \<Rightarrow> string \<Rightarrow> 'w \<Rightarrow> bool" where
  "found_row exec m vin w =
     (case exec (c_str (select_query m vin)) w of (CassOk (_ # _), _) \<Rightarrow> True | _ \<Rightarrow> False)"

text \<open>
  C36. Every operation of the manager frees each driver handle it acquires, on the success
  and on the error path, but for one: \<open>query_table\<close> keeps the result object of every
  successful lookup. And it reports the driver's error, each once and nothing else: a lookup
  that failed and one that found nothing differ only in that line.
\<close>

theorem handles_freed:
  "leaked (fst (snd (execute_query exec q w))) h = 0
   \<and> leaked (fst (snd (connect session_connect m cl hosts))) h = 0
   \<and> leaked (fst (snd (query_materialized_view exec m host w))) h = 0
   \<and> leaked (fst (snd (query_table exec m vin w))) h
       = (if h = Result \<and> found_row exec m vin w then 1 else 0)
   \<and> reported (fst (snd (execute_query exec q w))) = error_lines (exec (c_str q) w)
   \<and> reported (fst (snd (connect session_connect m cl hosts)))
       = (case session_connect (configured m cl hosts) of None \<Rightarrow> [] | Some e \<Rightarrow> [''Error: '' @ e @ [CHR 0x0A]])
   \<and> reported (fst (snd (query_materialized_view exec m host w))) = error_lines (exec (c_str (by_host_query m host)) w)
   \<and> reported (fst (snd (query_table exec m vin w))) = error_lines (exec (c_str (select_query m vin)) w)"
proof (intro conjI)
  show "leaked (fst (snd (execute_query exec q w))) h = 0"
    "reported (fst (snd (execute_query exec q w))) = error_lines (exec (c_str q) w)"
    by (simp_all add: execute_query_def Let_def error_lines_def split: prod.splits cass_result.splits)
  show "leaked (fst (snd (connect session_connect m cl hosts))) h = 0"
    "reported (fst (snd (connect session_connect m cl hosts)))
      = (case session_connect (configured m cl hosts) of None \<Rightarrow> [] | Some e \<Rightarrow> [''Error: '' @ e @ [CHR 0x0A]])"
    by (subst connect_configured, simp split: option.split)+
  show "leaked (fst (snd (query_materialized_view exec m host w))) h = 0"
    "reported (fst (snd (query_materialized_view exec m host w))) = error_lines (exec (c_str (by_host_query m host)) w)"
    by (simp_all add: query_materialized_view_def Let_def error_lines_def split: prod.splits cass_result.splits)
  show "leaked (fst (snd (query_table exec m vin w))) h
      = (if h = Result \<and> found_row exec m vin w then 1 else 0)"
    "reported (fst (snd (query_table exec m vin w))) = error_lines (exec (c_str (select_query m vin)) w)"
    by (auto simp: query_table_def found_row_def Let_def error_lines_def
        split: prod.splits cass_result.splits list.splits option.splits)
qed

section \<open>Reading statements back\<close>

text \<open>
  A reader of CQL, written from the language's description: inside a string literal a doubled
  quote stands for one quote, any other quote ends the literal.
\<close>

fun strip_prefix :: "string \<Rightarrow> string \<Rightarrow> string option" where
  "strip_prefix [] s = Some s"
| "strip_prefix (p # ps) [] = None"
| "strip_prefix (p # ps) (c # cs) = (if p = c then strip_prefix ps cs else None)"

fun read_literal :: "string \<Rightarrow> (string \<times> string) option" where
  \<comment> \<open>the literal whose opening quote was just read, and what follows it\<close>
  "read_literal [] = None"
| "read_literal [c] = (if c = QUOTE then Some ([], []) else None)"
| "read_literal (c # d # cs) =
     (if c \<noteq> QUOTE then map_option (\<lambda>(t, r). (c # t, r)) (read_literal (d # cs))
      else if d = QUOTE then map_option (\<lambda>(t, r). (QUOTE # t, r)) (read_literal cs)
      else Some ([], d # cs))"

definition read_insert :: "string \<Rightarrow> string \<Rightarrow> string \<Rightarrow> (string \<times> string) option" where
  "read_insert ks tbl q =
     (case strip_prefix (''INSERT INTO '' @ ks @ ''.'' @ tbl @ '' (vin, host) VALUES ('' @ [QUOTE]) q of
        None \<Rightarrow> None
      | Some s1 \<Rightarrow> (case read_literal s1 of None \<Rightarrow> None | Some (vin, s2) \<Rightarrow>
          (case strip_prefix ('', '' @ [QUOTE]) s2 of None \<Rightarrow> None | Some s3 \<Rightarrow>
            (case read_literal s3 of None \<Rightarrow> None | Some (host, s4) \<Rightarrow>
              if s4 = '');'' then Some (vin, host) else None))))"

definition read_by_vin :: "string \<Rightarrow> string \<Rightarrow> string \<Rightarrow> string \<Rightarrow> string option" where
  \<comment> \<open>the key of a statement that starts with \<open>verb\<close> and selects one \<open>vin\<close>\<close>
  "read_by_vin verb ks tbl q =
     (case strip_prefix (verb @ '' FROM '' @ ks @ ''.'' @ tbl @ '' WHERE vin = '' @ [QUOTE]) q of
        None \<Rightarrow> None
      | Some s1 \<Rightarrow> (case read_literal s1 of None \<Rightarrow> None | Some (vin, s2) \<Rightarrow>
          if s2 = '';'' then Some vin else None))"

definition literal_safe :: "string \<Rightarrow> bool" where
  "literal_safe t \<longleftrightarrow> QUOTE \<notin> set t \<and> NUL \<notin> set t"

lemma strip_prefix_append [simp]: "strip_prefix p (p @ s) = Some s"
  by (induction p) auto

lemma strip_prefix_Some: "strip_prefix p q = Some s \<longleftrightarrow> q = p @ s"
  by (induction p q rule: strip_prefix.induct) auto

lemma read_literal_free:
  "QUOTE \<notin> set t \<Longrightarrow> c \<noteq> QUOTE \<Longrightarrow> read_literal (t @ QUOTE # c # s) = Some (t, c # s)"
proof (induction t)
  case (Cons x t)
  then show ?case by (cases "t @ QUOTE # c # s") auto
qed simp

definition names_ok :: "scylla_manager \<Rightarrow> bool" where
  "names_ok m \<longleftrightarrow> NUL \<notin> set (m_keyspace m) \<and> NUL \<notin> set (m_table m)"

lemma statement_texts_read:
  assumes "literal_safe vin" "literal_safe host" "names_ok m"
  shows "read_insert (m_keyspace m) (m_table m) (c_str (insert_query m vin host)) = Some (vin, host)
    \<and> read_by_vin ''DELETE'' (m_keyspace m) (m_table m) (c_str (delete_query m vin)) = Some vin
    \<and> read_by_vin ''SELECT host'' (m_keyspace m) (m_table m) (c_str (select_query m vin)) = Some vin"
proof -
  let ?ks = "m_keyspace m" and ?tbl = "m_table m"
  have "c_str (insert_query m vin host) = (''INSERT INTO '' @ ?ks @ ''.'' @ ?tbl
      @ '' (vin, host) VALUES ('' @ [QUOTE]) @ vin @ QUOTE # CHR '','' # '' '' @ [QUOTE] @ host
      @ QUOTE # CHR '')'' # '';''"
    using assms by (subst c_str_id) (auto simp: insert_query_def literal_safe_def names_ok_def)
  moreover have "c_str (delete_query m vin) = (''DELETE'' @ '' FROM '' @ ?ks @ ''.'' @ ?tbl
      @ '' WHERE vin = '' @ [QUOTE]) @ vin @ QUOTE # CHR '';'' # []"
    using assms by (subst c_str_id) (auto simp: delete_query_def literal_safe_def names_ok_def)
  moreover have "c_str (select_query m vin) = (''SELECT host'' @ '' FROM '' @ ?ks @ ''.'' @ ?tbl
      @ '' WHERE vin = '' @ [QUOTE]) @ vin @ QUOTE # CHR '';'' # []"
    using assms by (subst c_str_id) (auto simp: select_query_def literal_safe_def names_ok_def)
  moreover have "read_literal (vin @ QUOTE # CHR '','' # '' '' @ [QUOTE] @ host @ QUOTE # CHR '')'' # '';'')
      = Some (vin, CHR '','' # '' '' @ [QUOTE] @ host @ QUOTE # CHR '')'' # '';'')"
    "read_literal (host @ QUOTE # CHR '')'' # '';'') = Some (host, CHR '')'' # '';'')"
    "read_literal (vin @ QUOTE # CHR '';'' # []) = Some (vin, CHR '';'' # [])"
    using assms by (auto intro!: read_literal_free simp: literal_safe_def)
  ultimately show ?thesis
    by (simp only: read_insert_def read_by_vin_def strip_prefix_append option.case prod.case) simp
qed

text \<open>
  C19. The statements say what was meant: for a vehicle id and a host without quotes (and NULs),
  a CQL reader finds in the text of \<open>insert_data\<close> exactly that pair, for the configured
  keyspace and table, and in the texts of \<open>delete_data\<close> and \<open>query_table\<close> exactly that id.
\<close>

theorem statements_read_back:
  assumes "literal_safe vin" "literal_safe host" "names_ok m"
  shows "read_insert (m_keyspace m) (m_table m) (c_str (insert_query m vin host)) = Some (vin, host)
    \<and> read_by_vin ''DELETE'' (m_keyspace m) (m_table m) (c_str (delete_query m vin)) = Some vin
    \<and> read_by_vin ''SELECT host'' (m_keyspace m) (m_table m) (c_str (select_query m vin)) = Some vin"
  using statement_texts_read [OF assms] .

lemma statements_read_back_witness:
  "read_insert ''vin'' ''vehicles'' (c_str (insert_query
      ((ScyllaDBManager ''db'' ''gw1'' ''9042'')\<lparr>m_keyspace := ''vin'', m_table := ''vehicles''\<rparr>)
      ''VIN1'' ''gw1'')) = Some (''VIN1'', ''gw1'')"
  using statements_read_back [of "''VIN1''" "''gw1''"
      "(ScyllaDBManager ''db'' ''gw1'' ''9042'')\<lparr>m_keyspace := ''vin'', m_table := ''vehicles''\<rparr>"]
  by (simp add: literal_safe_def names_ok_def)

text \<open>
  C37. Values are pasted into the statement without escaping, so a quote in a client id moves
  the boundary between id and host: two different pairs give the same statement, whatever the
  parts are, and for parts without quotes no CQL reader finds any pair in it.
\<close>

theorem insert_query_ambiguous:
  assumes "literal_safe v" "literal_safe x" "literal_safe h" "names_ok m"
  shows "insert_query m (v @ [QUOTE] @ '', '' @ [QUOTE] @ x) h
           = insert_query m v (x @ [QUOTE] @ '', '' @ [QUOTE] @ h)
    \<and> read_insert (m_keyspace m) (m_table m)
        (c_str (insert_query m (v @ [QUOTE] @ '', '' @ [QUOTE] @ x) h)) = None"
proof
  let ?q = "insert_query m (v @ [QUOTE] @ '', '' @ [QUOTE] @ x) h"
  show "?q = insert_query m v (x @ [QUOTE] @ '', '' @ [QUOTE] @ h)" by (simp add: insert_query_def)
  let ?tail = "'' '' @ [QUOTE] @ h @ [QUOTE] @ '');''"
  let ?mid = "'' '' @ [QUOTE] @ x @ QUOTE # CHR '','' # ?tail"
  have "c_str ?q = (''INSERT INTO '' @ m_keyspace m @ ''.'' @ m_table m
      @ '' (vin, host) VALUES ('' @ [QUOTE]) @ v @ QUOTE # CHR '','' # ?mid"
    using assms by (subst c_str_id) (auto simp: insert_query_def literal_safe_def names_ok_def)
  moreover have "read_literal (v @ QUOTE # CHR '','' # ?mid) = Some (v, CHR '','' # ?mid)"
    "read_literal (x @ QUOTE # CHR '','' # ?tail) = Some (x, CHR '','' # ?tail)"
    using assms by (auto intro!: read_literal_free simp: literal_safe_def)
  ultimately show "read_insert (m_keyspace m) (m_table m) (c_str ?q) = None"
    by (simp only: read_insert_def strip_prefix_append option.case prod.case) simp
qed

lemma insert_query_ambiguous_witness:
  "insert_query (ScyllaDBManager ''db'' ''gw1'' ''9042'') (''A'' @ [QUOTE] @ '', '' @ [QUOTE] @ ''B'') ''C''
     = insert_query (ScyllaDBManager ''db'' ''gw1'' ''9042'') ''A'' (''B'' @ [QUOTE] @ '', '' @ [QUOTE] @ ''C'')"
  using insert_query_ambiguous [of "''A''" "''B''" "''C''" "ScyllaDBManager ''db'' ''gw1'' ''9042''"]
  by (simp add: literal_safe_def names_ok_def ScyllaDBManager_def)

text \<open>
  The statement of \<open>query_materialized_view\<close> is never well formed: it opens a string
  literal and ends inside it, for every host without quotes.
\<close>

theorem by_host_query_unterminated:
  assumes "literal_safe host" "names_ok m"
  shows "\<exists>s. strip_prefix (''SELECT vin FROM '' @ m_keyspace m @ ''.'' @ m_table m
      @ ''_by_host WHERE host == '' @ [QUOTE]) (c_str (by_host_query m host)) = Some s
      \<and> read_literal s = None"
proof -
  have "read_literal t = None" if "QUOTE \<notin> set t" for t
    using that by (induction t rule: read_literal.induct) auto
  moreover have "c_str (by_host_query m host) = (''SELECT vin FROM '' @ m_keyspace m @ ''.''
      @ m_table m @ ''_by_host WHERE host == '' @ [QUOTE]) @ host"
    using assms by (subst c_str_id) (auto simp: by_host_query_def literal_safe_def names_ok_def)
  ultimately show ?thesis
    using assms(1) by (simp only: strip_prefix_append literal_safe_def) simp
qed

lemma by_host_query_unterminated_witness:
  "\<exists>s. strip_prefix (''SELECT vin FROM .'' @ ''_by_host WHERE host == '' @ [QUOTE])
      (c_str (by_host_query (ScyllaDBManager ''db'' ''gw1'' ''9042'') ''gw1'')) = Some s
      \<and> read_literal s = None"
  using by_host_query_unterminated [of "''gw1''" "ScyllaDBManager ''db'' ''gw1'' ''9042''"]
  by (simp add: literal_safe_def names_ok_def ScyllaDBManager_def)

end
