(* ===== verification/Presence_Store.thy ===== *)
theory Presence_Store
  imports Scylla
begin

text \<open>
  The contract between the database manager and its client, the registry of connected
  vehicles. \<open>presence_store\<close> is what the registry relies on; \<open>cql_driver\<close> is the
  documented behaviour of the Cassandra driver that the manager relies on (an accepted
  \<open>INSERT\<close> writes its row, an accepted \<open>DELETE\<close> removes it, an accepted \<open>SELECT\<close> returns
  it; nothing is said about a statement that was not accepted). The second gives the first
  for the manager's operations, and a reference driver that reads the statements shows that
  the contract can be met.
\<close>

section \<open>Contracts\<close>

locale presence_store =
  fixes insert_row :: "string \<Rightarrow> string \<Rightarrow> 'w \<Rightarrow> bool \<times> 'c \<times> 'w"
    and delete_row :: "string \<Rightarrow> 'w \<Rightarrow> bool \<times> 'c \<times> 'w"
    and find_row :: "string \<Rightarrow> 'w \<Rightarrow> string option result \<times> 'c \<times> 'w"
    and rows :: "'w \<Rightarrow> string \<Rightarrow> string option"
    and storable :: "string \<Rightarrow> bool"
  assumes insert_row: "storable k \<Longrightarrow> storable h \<Longrightarrow> insert_row k h w = (True, c, w') \<Longrightarrow>
      rows w' = (rows w)(k \<mapsto> h)"
    and delete_row: "storable k \<Longrightarrow> delete_row k w = (True, c, w') \<Longrightarrow> rows w' = (rows w)(k := None)"
    and find_row: "storable k \<Longrightarrow> find_row k w = (Inr (Some h), c, w') \<Longrightarrow> rows w k = Some h"
begin

text \<open>What was stored last is what a later lookup finds, if it finds anything.\<close>

lemma find_inserted:
  assumes "storable k" "storable h" "insert_row k h w = (True, c, w1)"
    and "find_row k w1 = (Inr (Some h'), c', w2)"
  shows "h' = h"
  using insert_row [OF assms(1-3)] find_row [OF assms(1,4)] by simp

lemma find_deleted:
  assumes "storable k" "delete_row k w = (True, c, w1)"
  shows "find_row k w1 \<noteq> (Inr (Some h), c', w2)"
proof
  assume "find_row k w1 = (Inr (Some h), c', w2)"
  then show False using delete_row [OF assms] find_row [OF assms(1)] by fastforce
qed

lemma insert_other:
  "storable k \<Longrightarrow> storable h \<Longrightarrow> insert_row k h w = (True, c, w') \<Longrightarrow> j \<noteq> k \<Longrightarrow> rows w' j = rows w j"
  by (simp add: insert_row)

end

locale cql_driver =
  fixes exec :: "'w driver"
    and rows :: "'w \<Rightarrow> string \<Rightarrow> string option"
    and m :: scylla_manager
  assumes names: "names_ok m"
    and exec_insert: "read_insert (m_keyspace m) (m_table m) q = Some (v, h) \<Longrightarrow>
      exec q w = (CassOk rs, w') \<Longrightarrow> rows w' = (rows w)(v \<mapsto> h)"
    and exec_delete: "read_by_vin ''DELETE'' (m_keyspace m) (m_table m) q = Some v \<Longrightarrow>
      exec q w = (CassOk rs, w') \<Longrightarrow> rows w' = (rows w)(v := None)"
    and exec_select: "read_by_vin ''SELECT host'' (m_keyspace m) (m_table m) q = Some v \<Longrightarrow>
      exec q w = (CassOk rs, w') \<Longrightarrow>
      rs = (case rows w v of None \<Rightarrow> [] | Some h \<Rightarrow> [[''host'' \<mapsto> h]])"

section \<open>The manager meets the contract\<close>

lemma execute_query_True:
  "execute_query exec q w = (True, c, w') \<Longrightarrow> \<exists>rs. exec (c_str q) w = (CassOk rs, w')"
  by (auto simp: execute_query_def Let_def split: prod.splits cass_result.splits)

lemma query_table_Some:
  "query_table exec m v w = (Inr (Some h), c, w') \<Longrightarrow>
     \<exists>r rs. exec (c_str (select_query m v)) w = (CassOk (r # rs), w') \<and> r ''host'' = Some h"
  by (auto simp: query_table_def Let_def split: prod.splits cass_result.splits list.splits option.splits)

lemma cql_driver_store:
  assumes driver: "cql_driver exec rows m"
  shows "presence_store (insert_data exec m) (delete_data exec m) (query_table exec m) rows literal_safe"
proof
  note names = cql_driver.names [OF driver]
  show "rows w' = (rows w)(k \<mapsto> h)"
    if "literal_safe k" "literal_safe h" "insert_data exec m k h w = (True, c, w')" for k h w c w'
  proof -
    have "\<exists>rs. exec (c_str (insert_query m k h)) w = (CassOk rs, w')"
      using that(3) execute_query_True by (simp add: insert_data_def)
    moreover have "read_insert (m_keyspace m) (m_table m) (c_str (insert_query m k h)) = Some (k, h)"
      using statement_texts_read that(1,2) names by blast
    ultimately show ?thesis using cql_driver.exec_insert [OF driver] by blast
  qed
  show "rows w' = (rows w)(k := None)"
    if "literal_safe k" "delete_data exec m k w = (True, c, w')" for k w c w'
  proof -
    have "\<exists>rs. exec (c_str (delete_query m k)) w = (CassOk rs, w')"
      using that(2) execute_query_True by (simp add: delete_data_def)
    moreover have "read_by_vin ''DELETE'' (m_keyspace m) (m_table m) (c_str (delete_query m k)) = Some k"
      using statement_texts_read that(1) names by blast
    ultimately show ?thesis using cql_driver.exec_delete [OF driver] by blast
  qed
  show "rows w k = Some h"
    if k: "literal_safe k" and q: "query_table exec m k w = (Inr (Some h), c, w')" for k h w c w'
  proof -
    obtain r rs where r: "exec (c_str (select_query m k)) w = (CassOk (r # rs), w')" "r ''host'' = Some h"
      using query_table_Some [OF q] by auto
    have "read_by_vin ''SELECT host'' (m_keyspace m) (m_table m) (c_str (select_query m k)) = Some k"
      using statement_texts_read k names by blast
    then have "r # rs = (case rows w k of None \<Rightarrow> [] | Some h \<Rightarrow> [[''host'' \<mapsto> h]])"
      using cql_driver.exec_select [OF driver] r(1) by blast
    then show ?thesis using r(2) by (auto split: option.splits)
  qed
qed

sublocale cql_driver \<subseteq> presence_store "insert_data exec m" "delete_data exec m" "query_table exec m"
  rows literal_safe
  by (rule cql_driver_store [OF cql_driver_axioms])

section \<open>A reference driver\<close>

definition cql_exec :: "string \<Rightarrow> string \<Rightarrow> (string \<Rightarrow> string option) driver" where
  "cql_exec ks tbl q w =
     (case read_insert ks tbl q of
        Some (v, h) \<Rightarrow> (CassOk [], w(v \<mapsto> h))
      | None \<Rightarrow>
     (case read_by_vin ''DELETE'' ks tbl q of
        Some v \<Rightarrow> (CassOk [], w(v := None))
      | None \<Rightarrow>
     (case read_by_vin ''SELECT host'' ks tbl q of
        Some v \<Rightarrow> (CassOk (case w v of None \<Rightarrow> [] | Some h \<Rightarrow> [[''host'' \<mapsto> h]]), w)
      | None \<Rightarrow> (CassError ''syntax error'', w))))"

definition default_manager :: "string \<Rightarrow> scylla_manager" where
  \<comment> \<open>the manager of a server after a start with the default configuration\<close>
  "default_manager srv =
     (ScyllaDBManager ''127.0.0.1'' srv ''9042'')\<lparr>m_keyspace := ''vin'', m_table := ''vehicles''\<rparr>"

lemma default_manager_simps [simp]:
  "m_keyspace (default_manager srv) = ''vin''" "m_table (default_manager srv) = ''vehicles''"
  "m_app_server_name (default_manager srv) = srv"
  by (simp_all add: default_manager_def ScyllaDBManager_def)

lemma read_insert_hd: "read_insert ks tbl q = Some vh \<Longrightarrow> hd q = CHR ''I''"
  by (auto simp: read_insert_def strip_prefix_Some split: option.splits)

lemma read_by_vin_hd: "read_by_vin (c # cs) ks tbl q = Some v \<Longrightarrow> hd q = c"
  by (auto simp: read_by_vin_def strip_prefix_Some simp del: strip_prefix.simps split: option.splits)

lemma read_exclusive:
  "read_by_vin ''DELETE'' ks tbl q = Some v \<Longrightarrow> read_insert ks tbl q = None"
  "read_by_vin ''SELECT host'' ks tbl q = Some v \<Longrightarrow>
     read_insert ks tbl q = None \<and> read_by_vin ''DELETE'' ks tbl q = None"
  using read_insert_hd [of ks tbl q] read_by_vin_hd [of "CHR ''D''" "''ELETE''" ks tbl q]
    read_by_vin_hd [of "CHR ''S''" "''ELECT host''" ks tbl q]
  by (cases "read_insert ks tbl q"; cases "read_by_vin ''DELETE'' ks tbl q"; force)+

interpretation reference: cql_driver "cql_exec ''vin'' ''vehicles''" "\<lambda>w. w" "default_manager srv"
  for srv
proof unfold_locales
  show "names_ok (default_manager srv)" by (simp add: names_ok_def)
qed (auto simp: cql_exec_def read_exclusive)

lemma reference_insert:
  assumes "literal_safe v" "literal_safe h"
  shows "\<exists>c. insert_data (cql_exec ''vin'' ''vehicles'') (default_manager srv) v h w = (True, c, w(v \<mapsto> h))"
  using statement_texts_read [OF assms reference.names]
  by (simp add: insert_data_def execute_query_def cql_exec_def)

lemma reference_lookup:
  assumes "literal_safe v"
  shows "\<exists>c. query_table (cql_exec ''vin'' ''vehicles'') (default_manager srv) v w = (Inr (w v), c, w)"
  using statement_texts_read [OF assms assms reference.names]
  by (auto simp: query_table_def cql_exec_def read_exclusive split: option.splits)

section \<open>Properties\<close>

text \<open>
  A host stored for a vehicle is the host found for it: on any driver that behaves as
  documented, for texts without quotes, after an insert that reported success a lookup that
  finds a row returns the stored host, and after a delete that reported success no lookup
  finds a row.
\<close>

theorem stored_host_is_found:
  assumes "cql_driver exec rows m" "literal_safe vin" "literal_safe host"
  shows "(insert_data exec m vin host w = (True, c, w1)
            \<and> query_table exec m vin w1 = (Inr (Some host'), c', w2) \<longrightarrow> host' = host)
       \<and> (delete_data exec m vin w = (True, c, w1)
            \<longrightarrow> query_table exec m vin w1 \<noteq> (Inr (Some host'), c', w2))"
  using presence_store.find_inserted [OF cql_driver_store [OF assms(1)] assms(2,3)]
    presence_store.find_deleted [OF cql_driver_store [OF assms(1)] assms(2)] by blast

lemma stored_host_is_found_witness:
  "\<exists>c w1 h' c' w2. insert_data (cql_exec ''vin'' ''vehicles'') (default_manager ''gw1'') ''V1'' ''gw1''
         Map.empty = (True, c, w1)
     \<and> query_table (cql_exec ''vin'' ''vehicles'') (default_manager ''gw1'') ''V1'' w1 = (Inr (Some h'), c', w2)
     \<and> h' = ''gw1''"
proof -
  have safe: "literal_safe ''V1''" "literal_safe ''gw1''" by (simp_all add: literal_safe_def)
  obtain c where i: "insert_data (cql_exec ''vin'' ''vehicles'') (default_manager ''gw1'') ''V1'' ''gw1''
      Map.empty = (True, c, [''V1'' \<mapsto> ''gw1''])"
    using reference_insert [OF safe] by blast
  obtain c' where q: "query_table (cql_exec ''vin'' ''vehicles'') (default_manager ''gw1'') ''V1''
      [''V1'' \<mapsto> ''gw1''] = (Inr (Some ''gw1''), c', [''V1'' \<mapsto> ''gw1''])"
    using reference_lookup [OF safe(1), of "''gw1''" "[''V1'' \<mapsto> ''gw1'']"] by auto
  show ?thesis
    using stored_host_is_found [OF reference.cql_driver_axioms safe] i q by blast
qed

end
