(* ===== verification/Registry.thy ===== *)
theory Registry
  imports Presence_Store
begin

text \<open>
  \<open>src/src/websocket/WebSocketComponents.h\<close>: the registry \<open>WebSocketComponent\<close>, which maps
  client ids to sockets and mirrors every change in the presence table. Here each operation
  is one atomic step; the theory \<open>Registry_Steps\<close> takes the operations apart at the spin lock.
  The abstract specification is a directory of vehicles that are online at a socket or
  offline; the contract that the listener relies on is the locale \<open>client_directory\<close>.
\<close>

section \<open>The registry and its operations\<close>

record ('s, 'w) registry =
  clients :: "string \<Rightarrow> 's option"
  db :: 'w

datatype socket_call =
    SendOneFrameText string
  | SendOneFrameBinary string
  | SendPong string
  | SendClose uint16 string

definition addClient ::
    "'w driver \<Rightarrow> scylla_manager \<Rightarrow> string \<Rightarrow> 's \<Rightarrow> ('s, 'w) registry \<Rightarrow> ('s, 'w) registry" where
  "addClient exec dbManager clientId socket r =
     (let r' = r\<lparr>clients := (clients r)(clientId \<mapsto> socket)\<rparr>;
          (ok, calls, w') = insert_data exec dbManager clientId (getAppServerName dbManager) (db r')
      in r'\<lparr>db := w'\<rparr>)"

definition setClientNotAvailable ::
    "'w driver \<Rightarrow> scylla_manager \<Rightarrow> string \<Rightarrow> ('s, 'w) registry \<Rightarrow> ('s, 'w) registry" where
  "setClientNotAvailable exec dbManager clientId r =
     (let r' = r\<lparr>clients := (clients r)(clientId := None)\<rparr>;
          (ok, calls, w') = insert_data exec dbManager clientId ''NA'' (db r')
      in r'\<lparr>db := w'\<rparr>)"

definition removeClient ::
    "'w driver \<Rightarrow> scylla_manager \<Rightarrow> string \<Rightarrow> ('s, 'w) registry \<Rightarrow> ('s, 'w) registry" where
  "removeClient exec dbManager clientId r =
     (let r' = r\<lparr>clients := (clients r)(clientId := None)\<rparr>;
          (ok, calls, w') = delete_data exec dbManager clientId (db r')
      in r'\<lparr>db := w'\<rparr>)"

text \<open>
  The two send operations call the socket of the client, if there is one. The coroutine
  starter that the call returns is dropped.
\<close>

definition sendTextMessageToClient ::
    "('s, 'w) registry \<Rightarrow> string \<Rightarrow> string \<Rightarrow> ('s \<times> socket_call) list" where
  "sendTextMessageToClient r clientId message =
     (case clients r clientId of None \<Rightarrow> [] | Some s \<Rightarrow> [(s, SendOneFrameText message)])"

definition sendBinaryMessageToClient ::
    "('s, 'w) registry \<Rightarrow> string \<Rightarrow> string \<Rightarrow> ('s \<times> socket_call) list" where
  "sendBinaryMessageToClient r clientId message =
     (case clients r clientId of None \<Rightarrow> [] | Some s \<Rightarrow> [(s, SendOneFrameBinary message)])"

lemma clients_ops [simp]:
  "clients (addClient exec m k s r) = (clients r)(k \<mapsto> s)"
  "clients (setClientNotAvailable exec m k r) = (clients r)(k := None)"
  "clients (removeClient exec m k r) = (clients r)(k := None)"
  by (simp_all add: addClient_def setClientNotAvailable_def removeClient_def Let_def split: prod.splits)

section \<open>The contract of the listener\<close>

datatype 's conn_event = Opened string 's | Closed string

fun event_key :: "'s conn_event \<Rightarrow> string" where
  "event_key (Opened k s) = k"
| "event_key (Closed k) = k"

locale client_directory =
  fixes add :: "string \<Rightarrow> 's \<Rightarrow> 'r \<Rightarrow> 'r"
    and unavailable :: "string \<Rightarrow> 'r \<Rightarrow> 'r"
    and find_client :: "'r \<Rightarrow> string \<Rightarrow> 's option"
    and run :: "'s conn_event list \<Rightarrow> 'r \<Rightarrow> 'r"
  assumes find_add: "find_client (add k s r) = (find_client r)(k \<mapsto> s)"
    and find_unavailable: "find_client (unavailable k r) = (find_client r)(k := None)"
    and run_Nil: "run [] r = r"
    and run_Opened: "run (Opened k s # es) r = run es (add k s r)"
    and run_Closed: "run (Closed k # es) r = run es (unavailable k r)"
begin

lemma run_append: "run (es @ fs) r = run fs (run es r)"
proof (induction es arbitrary: r)
  case (Cons e es)
  then show ?case by (cases e) (simp_all add: run_Opened run_Closed)
qed (simp add: run_Nil)

lemma run_other: "\<forall>e \<in> set es. event_key e \<noteq> k \<Longrightarrow> find_client (run es r) k = find_client r k"
proof (induction es arbitrary: r)
  case (Cons e es)
  then show ?case
    by (cases e) (auto simp: run_Opened run_Closed find_add find_unavailable)
qed (simp add: run_Nil)

text \<open>A client is found exactly when its last event is the opening of that socket.\<close>

lemma run_find:
  assumes "find_client r k = None"
  shows "find_client (run es r) k = Some s \<longleftrightarrow>
    (\<exists>pre post. es = pre @ Opened k s # post \<and> (\<forall>e \<in> set post. event_key e \<noteq> k))"
proof
  assume found: "find_client (run es r) k = Some s"
  have "\<exists>e \<in> set es. event_key e = k"
  proof (rule ccontr)
    assume "\<not> (\<exists>e \<in> set es. event_key e = k)"
    then have "find_client (run es r) k = None" using run_other [of es k r] assms by auto
    with found show False by simp
  qed
  then obtain pre e post where es: "es = pre @ e # post" "event_key e = k"
    "\<forall>x \<in> set post. event_key x \<noteq> k"
    using split_list_last_prop [of es "\<lambda>e. event_key e = k"] by auto
  then have "find_client (run [e] (run pre r)) k = Some s"
    using found run_other [of post k] run_append [of pre "e # post"] run_append [of "[e]" post] by simp
  with es(2) have "e = Opened k s"
    by (cases e) (auto simp: run_Opened run_Closed run_Nil find_add find_unavailable)
  with es show "\<exists>pre post. es = pre @ Opened k s # post \<and> (\<forall>e \<in> set post. event_key e \<noteq> k)"
    by blast
next
  assume "\<exists>pre post. es = pre @ Opened k s # post \<and> (\<forall>e \<in> set post. event_key e \<noteq> k)"
  then obtain pre post where es: "es = pre @ Opened k s # post" "\<forall>e \<in> set post. event_key e \<noteq> k"
    by blast
  then show "find_client (run es r) k = Some s"
    using run_other [of post k] run_append by (simp add: run_Opened find_add)
qed

end

fun run_events ::
    "'w driver \<Rightarrow> scylla_manager \<Rightarrow> 's conn_event list \<Rightarrow> ('s, 'w) registry \<Rightarrow> ('s, 'w) registry" where
  "run_events exec m [] r = r"
| "run_events exec m (Opened k s # es) r = run_events exec m es (addClient exec m k s r)"
| "run_events exec m (Closed k # es) r = run_events exec m es (setClientNotAvailable exec m k r)"

interpretation directory: client_directory "addClient exec m" "setClientNotAvailable exec m" clients
  "run_events exec m" for exec m
  by unfold_locales simp_all

section \<open>The abstract directory\<close>

datatype 's presence = Online 's | Offline

type_synonym 's directory = "string \<Rightarrow> 's presence option"

fun online_socket :: "'s presence option \<Rightarrow> 's option" where
  "online_socket (Some (Online s)) = Some s"
| "online_socket _ = None"

fun stored_host :: "string \<Rightarrow> 's presence \<Rightarrow> string" where
  "stored_host srv (Online s) = srv"
| "stored_host srv Offline = ''NA''"

definition represents ::
    "('w \<Rightarrow> string \<Rightarrow> string option) \<Rightarrow> string \<Rightarrow> ('s, 'w) registry \<Rightarrow> 's directory \<Rightarrow> bool" where
  \<comment> \<open>the map holds the online sockets, the table the host of every vehicle ever seen\<close>
  "represents rows srv r d \<longleftrightarrow>
     clients r = (\<lambda>k. online_socket (d k)) \<and> rows (db r) = (\<lambda>k. map_option (stored_host srv) (d k))"

fun spec_event :: "'s conn_event \<Rightarrow> 's directory \<Rightarrow> 's directory" where
  "spec_event (Opened k s) d = d(k \<mapsto> Online s)"
| "spec_event (Closed k) d = d(k \<mapsto> Offline)"

definition reliable :: "'w driver \<Rightarrow> scylla_manager \<Rightarrow> bool" where
  \<comment> \<open>every well-formed insert or delete is accepted\<close>
  "reliable exec m \<longleftrightarrow>
     (\<forall>q w. read_insert (m_keyspace m) (m_table m) q \<noteq> None
          \<or> read_by_vin ''DELETE'' (m_keyspace m) (m_table m) q \<noteq> None
          \<longrightarrow> (\<exists>rs w'. exec q w = (CassOk rs, w')))"

lemma insert_accepted:
  assumes "cql_driver exec rows m" "reliable exec m" "literal_safe k" "literal_safe h"
  shows "\<exists>c w'. insert_data exec m k h w = (True, c, w') \<and> rows w' = (rows w)(k \<mapsto> h)"
proof -
  have r: "read_insert (m_keyspace m) (m_table m) (c_str (insert_query m k h)) = Some (k, h)"
    using statement_texts_read assms(3,4) cql_driver.names [OF assms(1)] by blast
  then obtain rs w' where e: "exec (c_str (insert_query m k h)) w = (CassOk rs, w')"
    using assms(2) unfolding reliable_def by blast
  then show ?thesis
    using cql_driver.exec_insert [OF assms(1) r e] by (simp add: insert_data_def execute_query_def)
qed

lemma delete_accepted:
  assumes "cql_driver exec rows m" "reliable exec m" "literal_safe k"
  shows "\<exists>c w'. delete_data exec m k w = (True, c, w') \<and> rows w' = (rows w)(k := None)"
proof -
  have r: "read_by_vin ''DELETE'' (m_keyspace m) (m_table m) (c_str (delete_query m k)) = Some k"
    using statement_texts_read assms(3) cql_driver.names [OF assms(1)] by blast
  then obtain rs w' where e: "exec (c_str (delete_query m k)) w = (CassOk rs, w')"
    using assms(2) unfolding reliable_def by blast
  then show ?thesis
    using cql_driver.exec_delete [OF assms(1) r e] by (simp add: delete_data_def execute_query_def)
qed

lemma NA_safe: "literal_safe ''NA''"
  by (simp add: literal_safe_def)

lemma addClient_represents:
  assumes "cql_driver exec rows m" "reliable exec m" "literal_safe k"
    "literal_safe (getAppServerName m)" "represents rows (getAppServerName m) r d"
  shows "represents rows (getAppServerName m) (addClient exec m k s r) (d(k \<mapsto> Online s))"
  using insert_accepted [OF assms(1-4), of "db r"] assms(5)
  by (auto simp: represents_def addClient_def fun_eq_iff)

lemma setClientNotAvailable_represents:
  assumes "cql_driver exec rows m" "reliable exec m" "literal_safe k"
    "represents rows (getAppServerName m) r d"
  shows "represents rows (getAppServerName m) (setClientNotAvailable exec m k r) (d(k \<mapsto> Offline))"
  using insert_accepted [OF assms(1-3) NA_safe, of "db r"] assms(4)
  by (auto simp: represents_def setClientNotAvailable_def fun_eq_iff)

lemma removeClient_represents:
  assumes "cql_driver exec rows m" "reliable exec m" "literal_safe k"
    "represents rows (getAppServerName m) r d"
  shows "represents rows (getAppServerName m) (removeClient exec m k r) (d(k := None))"
  using delete_accepted [OF assms(1-3), of "db r"] assms(4)
  by (auto simp: represents_def removeClient_def fun_eq_iff)

lemma run_events_represents:
  assumes "cql_driver exec rows m" "reliable exec m" "literal_safe (getAppServerName m)"
  shows "\<forall>e \<in> set es. literal_safe (event_key e) \<Longrightarrow> represents rows (getAppServerName m) r d \<Longrightarrow>
    represents rows (getAppServerName m) (run_events exec m es r) (fold spec_event es d)"
proof (induction es arbitrary: r d)
  case (Cons e es)
  have "represents rows (getAppServerName m) (run_events exec m [e] r) (spec_event e d)"
    using Cons.prems assms by (cases e) (simp_all add: addClient_represents setClientNotAvailable_represents)
  then have "represents rows (getAppServerName m) (run_events exec m es (run_events exec m [e] r))
      (fold spec_event es (spec_event e d))"
    using Cons by simp
  then show ?case by (cases e) simp_all
qed simp

section \<open>Properties\<close>

text \<open>
  C10. The registry implements the directory of vehicles: on a driver that behaves as
  documented and accepts every statement, after any sequence of openings and closings of
  clients with quote-free ids, the map holds exactly the online sockets and the table holds
  this server's name for every online vehicle, \<open>NA\<close> for every vehicle that has closed, and no
  row for any other; \<open>removeClient\<close> takes a vehicle out of both.
\<close>

theorem registry_refines_directory:
  assumes "cql_driver exec rows m" "reliable exec m" "literal_safe (getAppServerName m)"
    and "list_all (\<lambda>e. literal_safe (event_key e)) es" "literal_safe k"
    and "represents rows (getAppServerName m) r d"
  shows "represents rows (getAppServerName m) (run_events exec m es r) (fold spec_event es d)
    \<and> represents rows (getAppServerName m) (removeClient exec m k (run_events exec m es r))
        ((fold spec_event es d)(k := None))"
  using run_events_represents [OF assms(1-3) _ assms(6), of es] assms
    removeClient_represents [OF assms(1,2,5)] by (simp add: list_all_iff)

lemma reference_reliable: "reliable (cql_exec ''vin'' ''vehicles'') (default_manager srv)"
  by (auto simp: reliable_def cql_exec_def split: option.splits)

lemma registry_refines_directory_witness:
  "represents (\<lambda>w. w) ''gw1''
     (run_events (cql_exec ''vin'' ''vehicles'') (default_manager ''gw1'')
        [Opened ''V1'' (1::nat), Opened ''V2'' 2, Closed ''V1''] \<lparr>clients = Map.empty, db = Map.empty\<rparr>)
     (fold spec_event [Opened ''V1'' 1, Opened ''V2'' 2, Closed ''V1''] Map.empty)"
proof -
  have name: "getAppServerName (default_manager ''gw1'') = ''gw1''" by (simp add: getAppServerName_def)
  show ?thesis
    using registry_refines_directory [OF reference.cql_driver_axioms reference_reliable, of "''gw1''"
        "[Opened ''V1'' (1::nat), Opened ''V2'' 2, Closed ''V1'']" "''V1''"
        "\<lparr>clients = Map.empty, db = Map.empty\<rparr>" Map.empty]
    by (simp add: name literal_safe_def represents_def fun_eq_iff)
qed

text \<open>
  Which socket a client id leads to depends only on the order of openings and closings,
  never on the database: on every driver, after any run from a registry that does not know
  the client, it leads to a socket exactly if the client's last event is the opening of that
  socket, and a text message to the client is handed to that socket and to no other.
\<close>

theorem registered_is_last_opened:
  assumes "clients r k = None"
  shows "(clients (run_events exec m es r) k = Some s \<longleftrightarrow>
      (\<exists>pre post. es = pre @ Opened k s # post \<and> (\<forall>e \<in> set post. event_key e \<noteq> k)))
    \<and> (sendTextMessageToClient (run_events exec m es r) k msg = [(s, SendOneFrameText msg)] \<longleftrightarrow>
      (\<exists>pre post. es = pre @ Opened k s # post \<and> (\<forall>e \<in> set post. event_key e \<noteq> k)))"
  using directory.run_find [OF assms, of exec m es s]
  by (auto simp: sendTextMessageToClient_def split: option.splits)

lemma registered_is_last_opened_witness:
  "clients (run_events (cql_exec ''vin'' ''vehicles'') (default_manager ''gw1'')
     [Opened ''V1'' (1::nat), Opened ''V1'' 2] \<lparr>clients = Map.empty, db = Map.empty\<rparr>) ''V1'' = Some 2"
proof -
  have "[Opened ''V1'' (1::nat), Opened ''V1'' 2] = [Opened ''V1'' 1] @ Opened ''V1'' 2 # []" by simp
  then show ?thesis
    using registered_is_last_opened [of "\<lparr>clients = Map.empty, db = Map.empty\<rparr>" "''V1''"
        "cql_exec ''vin'' ''vehicles''" "default_manager ''gw1''" "[Opened ''V1'' (1::nat), Opened ''V1'' 2]" 2]
    by fastforce
qed

end
