(* ===== verification/Http_Parser.thy ===== *)
theory Http_Parser
  imports Cxx_Stream
begin

text \<open>
  \<open>src/src/utilis/HttpParser.h\<close>: \<open>createRequestFromBuffer\<close>, which takes apart the HTTP
  request that a WebSocket client sends as one message, and \<open>buildResponseStringBuffer\<close>,
  which writes the backend's answer as text. The parser is modelled as it runs on its
  \<open>std::istringstream\<close>, with the \<open>size_t\<close> arithmetic of its \<open>substr\<close> calls; \<open>mycount\<close> is a
  natural number, since an \<open>int\<close> overflows only after \<open>2^31\<close> header lines. The allocation of
  the body is taken to succeed.
\<close>

section \<open>The parser as written\<close>

type_synonym headers = "(string \<times> string) list"
  \<comment> \<open>the \<open>unordered_map\<close>: its entries in order of insertion, keys distinct\<close>

type_synonym request_parts = "string \<times> string \<times> string \<times> headers \<times> string"

definition try_emplace :: "headers \<Rightarrow> string \<Rightarrow> string \<Rightarrow> headers \<times> bool" where
  "try_emplace hs k v = (if map_of hs k = None then (hs @ [(k, v)], True) else (hs, False))"

definition header_of_line :: "string \<Rightarrow> size_t \<Rightarrow> (string \<times> string) result" where
  "header_of_line headerLine delimiterPos =
     and_then (substr headerLine 0 delimiterPos) (\<lambda>headerName.
     and_then (substr headerLine (delimiterPos + 2) (str_size headerLine - (delimiterPos + 2) - 1))
       (\<lambda>headerValue. Inr (headerName, headerValue)))"

function header_loop :: "istream \<Rightarrow> string \<Rightarrow> nat \<Rightarrow> headers \<Rightarrow> (istream \<times> headers) result" where
  "header_loop stream headerLine mycount headers =
     (case getline LF stream headerLine of (stream', line) \<Rightarrow>
        if failbit stream' \<or> line = [] then Inr (stream', headers)
        else
          (let mycount' = mycount + 1; delimiterPos = str_find '': '' line
           in if delimiterPos = npos \<and> 1 < mycount' then Inr (stream', headers)
              else and_then (header_of_line line delimiterPos) (\<lambda>(headerName, headerValue).
                header_loop stream' line mycount'
                  (fst (try_emplace headers headerName headerValue)))))"
  by pat_completeness auto
termination
  by (relation "measure (\<lambda>(s, l, n, hs). size s)") (auto dest: getline_shrinks [OF sym])

declare header_loop.simps [simp del]

definition request_head :: "string \<Rightarrow> (string \<times> string \<times> string \<times> istream \<times> headers) result" where
  \<comment> \<open>from the construction of the stream to the end of the header loop\<close>
  "request_head buffer =
     (let (stream1, method) = extract_word (istringstream buffer) [];
          (stream2, url) = extract_word stream1 [];
          (stream3, version) = extract_word stream2 [];
          (stream4, headerLine) = getline LF stream3 []
      in and_then (header_loop stream4 headerLine 0 [])
           (\<lambda>(stream, headers). Inr (method, url, version, stream, headers)))"

definition read_body :: "istream \<Rightarrow> headers \<Rightarrow> string result" where
  "read_body stream headers =
     (case map_of headers ''Content-Length'' of
        None \<Rightarrow> Inr []
      | Some text \<Rightarrow>
          and_then (stoi text) (\<lambda>contentLength.
          and_then (insert_fill [] 0 (word_of_int contentLength) (CHR ''0'')) (\<lambda>body.
            let (stream', got) = read_chars stream (nat contentLength)
            in Inr (got @ drop (length got) body))))"

definition createRequestFromBuffer :: "string \<Rightarrow> request_parts result" where
  "createRequestFromBuffer buffer =
     and_then (request_head buffer) (\<lambda>(method, url, version, stream, headers).
     and_then (read_body stream headers) (\<lambda>body.
       Inr (method, url, version, headers, body)))"

section \<open>One header line\<close>

definition header_split :: "string \<Rightarrow> string \<times> string" where
  \<comment> \<open>what the code makes of a line: the part before the first \<open>": "\<close>, and the part after it
     without its last character, which is meant to be the carriage return\<close>
  "header_split line =
     (case find_from '': '' line of
        None \<Rightarrow> (line, butlast (tl line))
      | Some i \<Rightarrow> (take i line, butlast (drop (i + 2) line)))"

lemma substr_to_last:
  assumes "p \<le> length s" "length s \<le> max_size"
  shows "substr s (of_nat p) (str_size s - of_nat p - 1) = Inr (butlast (drop p s))"
proof -
  have p: "unat (of_nat p :: size_t) = p" using assms by (simp add: unat_of_nat max_size_def)
  show ?thesis
  proof (cases "p = length s")
    case True
    then show ?thesis using p by (simp add: substr_def str_size_def)
  next
    case False
    with assms have "str_size s - of_nat p - 1 = (of_nat (length s - p - 1) :: size_t)"
      by (simp add: str_size_def of_nat_diff)
    moreover have "unat (of_nat (length s - p - 1) :: size_t) = length s - p - 1"
      using assms by (simp add: unat_of_nat max_size_def)
    ultimately show ?thesis using p assms(1) by (simp add: substr_def butlast_conv_take)
  qed
qed

lemma header_of_line_split:
  assumes "line \<noteq> []" "length line \<le> max_size"
  shows "header_of_line line (str_find '': '' line) = Inr (header_split line)"
proof (cases "find_from '': '' line")
  case None
  have "substr line (of_nat 1) (str_size line - of_nat 1 - 1) = Inr (butlast (drop 1 line))"
    using assms by (intro substr_to_last) (cases line, auto)
  with None show ?thesis
    using assms(2) by (simp add: header_of_line_def str_find_def substr_all header_split_def drop_Suc)
next
  case (Some i)
  then have i: "i + 2 \<le> length line" using find_from_Some by fastforce
  then have "unat (of_nat i :: size_t) = i" using assms(2) by (simp add: unat_of_nat max_size_def)
  moreover have "substr line (of_nat i + 2) (str_size line - (of_nat i + 2) - 1)
      = Inr (butlast (drop (i + 2) line))"
    using substr_to_last [OF i assms(2)] by (simp add: add.commute)
  ultimately show ?thesis
    using Some by (simp add: header_of_line_def str_find_def substr_def [of line 0] header_split_def)
qed

section \<open>The header loop\<close>

text \<open>With the line arithmetic evaluated, the loop has one equation and no error branch.\<close>

lemma header_loop_step:
  assumes "size stream \<le> max_size"
  shows "header_loop stream old n hs =
     (case getline LF stream old of (stream', line) \<Rightarrow>
        if failbit stream' \<or> line = [] \<or> (find_from '': '' line = None \<and> 1 \<le> n)
        then Inr (stream', hs)
        else header_loop stream' line (n + 1)
               (fst (try_emplace hs (fst (header_split line)) (snd (header_split line)))))"
proof -
  obtain stream' line where g: "getline LF stream old = (stream', line)" by fastforce
  show ?thesis
  proof (cases "failbit stream' \<or> line = []")
    case True
    then show ?thesis by (auto simp: header_loop.simps [of stream old] g)
  next
    case False
    then have "good stream" using g getline_ok_good by blast
    then have "length line \<le> max_size" using g assms getline_token_length le_trans by blast
    then show ?thesis
      using False by (simp add: header_loop.simps [of stream old] g Let_def str_find_npos
          header_of_line_split split_beta)
  qed
qed

section \<open>Streams in normal form\<close>

lemma getline_istringstream:
  "d \<notin> set u \<Longrightarrow> getline d (istringstream (u @ d # v)) old = (istringstream v, u)"
  by (simp add: getline_delim [where u = u and v = v]) (simp add: istringstream_def)

lemma extract_word_istringstream:
  assumes "list_all isspace ws" "w \<noteq> []" "list_all (\<lambda>c. \<not> isspace c) w" "isspace c"
  shows "extract_word (istringstream (ws @ w @ c # rest)) old = (istringstream (c # rest), w)"
proof -
  obtain x xs where w: "w = x # xs" using assms(2) by (cases w) auto
  have "dropWhile isspace (ws @ w @ c # rest) = w @ c # rest"
    using assms(1,3) w by (simp add: list_all_iff dropWhile_append2)
  moreover have "takeWhile (\<lambda>c. \<not> isspace c) (w @ c # rest) = w"
    "dropWhile (\<lambda>c. \<not> isspace c) (w @ c # rest) = c # rest"
    using assms(3,4) by (simp_all add: list_all_iff takeWhile_append2 dropWhile_append2)
  ultimately show ?thesis using assms(2) by (simp add: extract_word_def) (simp add: istringstream_def)
qed

lemma extract_word_size: "extract_word s old = (s', w) \<Longrightarrow> size s' \<le> size s"
  by (auto simp: extract_word_def Let_def size_istream_ext_def split: if_splits)
    (meson length_dropWhile_le order_trans)

lemma getline_size: "getline d s old = (s', w) \<Longrightarrow> size s' \<le> size s"
  by (auto simp: getline_def Let_def size_istream_ext_def split: if_splits list.splits
      dest: dropWhile_Cons_length)

section \<open>The loop on a well-formed head\<close>

definition emplace :: "headers \<Rightarrow> string \<times> string \<Rightarrow> headers" where
  "emplace hs kv = fst (try_emplace hs (fst kv) (snd kv))"

lemma map_of_emplace:
  "map_of (foldl emplace acc hs) k
     = (case map_of acc k of None \<Rightarrow> map_of hs k | Some v \<Rightarrow> Some v)"
proof (induction hs arbitrary: acc)
  case (Cons h hs)
  then show ?case
    by (cases h) (auto simp: emplace_def try_emplace_def map_add_def split: option.splits)
qed (simp split: option.splits)

lemma distinct_emplace:
  "distinct (map fst acc) \<Longrightarrow> distinct (map fst (foldl emplace acc hs))"
proof (induction hs arbitrary: acc)
  case (Cons h hs)
  then show ?case
    by (cases h) (auto simp: emplace_def try_emplace_def map_of_eq_None_iff image_iff)
qed simp

lemma header_loop_total:
  "size s \<le> max_size \<Longrightarrow> distinct (map fst hs) \<Longrightarrow>
     \<exists>s' hs'. header_loop s old n hs = Inr (s', hs') \<and> distinct (map fst hs')"
proof (induction "size s" arbitrary: s old n hs rule: less_induct)
  case less
  obtain s1 line where g: "getline LF s old = (s1, line)" by fastforce
  let ?hs = "emplace hs (header_split line)"
  have d: "distinct (map fst ?hs)" using distinct_emplace [of hs "[header_split line]"] less.prems by simp
  show ?case
  proof (cases "failbit s1 \<or> line = [] \<or> (find_from '': '' line = None \<and> 1 \<le> n)")
    case True
    with g less.prems show ?thesis by (simp add: header_loop_step)
  next
    case False
    then have "size s1 < size s" using g getline_shrinks by blast
    then obtain s' hs' where rec: "header_loop s1 line (n + 1) ?hs = Inr (s', hs')"
      "distinct (map fst hs')" using less.hyps [of s1 ?hs line "n + 1"] less.prems(1) d by auto
    have "header_loop s old n hs = header_loop s1 line (n + 1) ?hs"
      using False g less.prems(1) by (auto simp: header_loop_step emplace_def)
    with rec show ?thesis by simp
  qed
qed

lemma header_loop_lines:
  assumes "\<forall>l \<in> set ls. LF \<notin> set l \<and> find_from '': '' l \<noteq> None"
    "length (concat (map (\<lambda>l. l @ [LF]) ls) @ rest) \<le> max_size"
  shows "\<exists>old'. header_loop (istringstream (concat (map (\<lambda>l. l @ [LF]) ls) @ rest)) old n hs
       = header_loop (istringstream rest) old' (n + length ls) (foldl emplace hs (map header_split ls))"
  using assms
proof (induction ls arbitrary: old n hs)
  case Nil
  then show ?case by auto
next
  case (Cons l ls)
  let ?t = "concat (map (\<lambda>l. l @ [LF]) ls) @ rest"
  have "l \<noteq> []" "LF \<notin> set l" using Cons.prems(1) by auto
  moreover have "\<not> failbit (istringstream ?t)" by (simp add: istringstream_def)
  moreover have "size (istringstream (l @ LF # ?t)) \<le> max_size" using Cons.prems(2) by simp
  ultimately have "header_loop (istringstream (l @ LF # ?t)) old n hs
      = header_loop (istringstream ?t) l (n + 1) (emplace hs (header_split l))"
    using Cons.prems(1) by (auto simp: header_loop_step getline_istringstream emplace_def)
  moreover obtain old' where "header_loop (istringstream ?t) l (n + 1) (emplace hs (header_split l))
      = header_loop (istringstream rest) old' (n + 1 + length ls)
          (foldl emplace (emplace hs (header_split l)) (map header_split ls))"
    using Cons.IH Cons.prems by fastforce
  ultimately show ?case by auto
qed

text \<open>A line without \<open>": "\<close> ends the header after the first line; an empty line always does.\<close>

lemma header_loop_end:
  assumes "eol = [LF] \<or> (eol = CRLF \<and> 1 \<le> n)" "length (eol @ rest) \<le> max_size"
  shows "header_loop (istringstream (eol @ rest)) old n hs = Inr (istringstream rest, hs)"
proof -
  have "find_from '': '' [CR] = None" by simp
  moreover have "getline LF (istringstream (eol @ rest)) old = (istringstream rest, butlast eol)"
    using assms(1) getline_istringstream [of LF "butlast eol" rest old] by auto
  ultimately show ?thesis using assms by (auto simp: header_loop_step)
qed

section \<open>The text of a request\<close>

definition is_token :: "string \<Rightarrow> bool" where
  "is_token w \<longleftrightarrow> w \<noteq> [] \<and> list_all (\<lambda>c. \<not> isspace c) w"

definition is_header :: "string \<times> string \<Rightarrow> bool" where
  \<comment> \<open>a header that fits on one line: no colon in the name, no line feed in either part\<close>
  "is_header h \<longleftrightarrow> CHR '':'' \<notin> set (fst h) \<and> LF \<notin> set (fst h) \<and> LF \<notin> set (snd h)"

definition header_line :: "string \<Rightarrow> string \<times> string \<Rightarrow> string" where
  "header_line eol h = fst h @ '': '' @ snd h @ eol"

definition format_request ::
    "string \<Rightarrow> string \<Rightarrow> string \<Rightarrow> string \<Rightarrow> headers \<Rightarrow> string \<Rightarrow> string" where
  \<comment> \<open>the text of a request whose lines end with \<open>eol\<close>\<close>
  "format_request eol method url version hs body =
     method @ [SP] @ url @ [SP] @ version @ eol @ concat (map (header_line eol) hs) @ eol @ body"

lemma header_split_line:
  assumes "is_header h"
  shows "header_split (fst h @ '': '' @ snd h @ [CR]) = h"
    and "header_split (fst h @ '': '' @ snd h) = (fst h, butlast (snd h))"
  using assms find_from_here [of "CHR '':''" "fst h" "'' ''" "snd h @ [CR]"]
    find_from_here [of "CHR '':''" "fst h" "'' ''" "snd h"]
  by (simp_all add: header_split_def is_header_def butlast_append)

lemma find_from_header_line:
  "is_header h \<Longrightarrow> find_from '': '' (fst h @ '': '' @ snd h @ x) \<noteq> None"
  using find_from_here [of "CHR '':''" "fst h" "'' ''" "snd h @ x"] by (simp add: is_header_def)

definition seen_header :: "string \<Rightarrow> string \<times> string \<Rightarrow> string \<times> string" where
  \<comment> \<open>what the parser stores for a header on a line ended by \<open>eol\<close>\<close>
  "seen_header eol h = (if eol = CRLF then h else (fst h, butlast (snd h)))"

lemma request_head_format:
  assumes "eol = CRLF \<and> hs \<noteq> [] \<or> eol = [LF]"
    "is_token method" "is_token url" "is_token version" "list_all is_header hs"
    "length (format_request eol method url version hs body) \<le> max_size"
  shows "request_head (format_request eol method url version hs body)
    = Inr (method, url, version, istringstream body, foldl emplace [] (map (seen_header eol) hs))"
proof -
  define ls where "ls = map (\<lambda>h. fst h @ '': '' @ snd h @ butlast eol) hs"
  have "map (header_line eol) hs = map (\<lambda>l. l @ [LF]) ls"
    using assms(1) by (auto simp: ls_def header_line_def)
  then have lines: "concat (map (header_line eol) hs) = concat (map (\<lambda>l. l @ [LF]) ls)"
    by simp
  obtain c cs where eol: "eol = c # cs" "isspace c" using assms(1) by (auto simp: isspace_def)
  let ?rest = "concat (map (\<lambda>l. l @ [LF]) ls) @ eol @ body"
  have "isspace SP" by (simp add: isspace_def)
  then have tokens:
    "extract_word (istringstream (method @ SP # url @ SP # version @ c # cs @ ?rest)) []
      = (istringstream (SP # url @ SP # version @ c # cs @ ?rest), method)"
    "extract_word (istringstream (SP # url @ SP # version @ c # cs @ ?rest)) []
      = (istringstream (SP # version @ c # cs @ ?rest), url)"
    "extract_word (istringstream (SP # version @ c # cs @ ?rest)) []
      = (istringstream (c # cs @ ?rest), version)"
    using assms(2-4) eol(2) extract_word_istringstream [of "[]" "method" SP]
      extract_word_istringstream [of "[SP]" url SP] extract_word_istringstream [of "[SP]" version c]
    by (simp_all add: is_token_def)
  have line: "getline LF (istringstream (eol @ ?rest)) [] = (istringstream ?rest, butlast eol)"
    using assms(1) getline_istringstream [of LF "butlast eol" ?rest] by auto
  have bound: "length ?rest \<le> max_size"
    using assms(6) by (simp add: format_request_def lines)
  have "\<forall>l \<in> set ls. LF \<notin> set l \<and> find_from '': '' l \<noteq> None"
    using assms(1,5) find_from_header_line by (auto simp: ls_def list_all_iff is_header_def)
  then obtain old' where "header_loop (istringstream ?rest) (butlast eol) 0 []
      = header_loop (istringstream (eol @ body)) old' (length ls) (foldl emplace [] (map header_split ls))"
    using header_loop_lines [of ls "eol @ body" "butlast eol" 0 "[]"] bound by auto
  also have "\<dots> = Inr (istringstream body, foldl emplace [] (map header_split ls))"
    using assms(1) bound by (intro header_loop_end) (auto simp: ls_def Suc_le_eq)
  also have "map header_split ls = map (seen_header eol) hs"
    using assms(1,5) header_split_line unfolding ls_def
    by (auto simp: seen_header_def list_all_iff)
  finally show ?thesis
    using tokens line by (simp add: request_head_def format_request_def lines [unfolded eol(1)] eol)
qed

section \<open>The body\<close>

definition zero_padded :: "nat \<Rightarrow> string \<Rightarrow> string" where
  \<comment> \<open>the first \<open>n\<close> characters, a shorter text filled up with the digit zero\<close>
  "zero_padded n xs = take n xs @ replicate (n - length xs) (CHR ''0'')"

lemma length_zero_padded [simp]: "length (zero_padded n xs) = n"
  by (simp add: zero_padded_def)

lemma zero_padded_all [simp]: "zero_padded (length xs) xs = xs"
  by (simp add: zero_padded_def)

lemma insert_body:
  assumes "int_min \<le> i" "i \<le> int_max"
  shows "insert_fill [] 0 (word_of_int i) c
    = (if i < 0 then Inl LengthError else Inr (replicate (nat i) c))"
proof -
  have "uint (word_of_int i :: size_t) = (if i < 0 then 2 ^ 64 + i else i)"
    using assms mod_add_self2 [of i "2 ^ 64"]
      mod_pos_pos_trivial [of "i + 2 ^ 64" "2 ^ 64"] mod_pos_pos_trivial [of i "2 ^ 64"]
    by (auto simp: uint_word_of_int int_min_def int_max_def)
  then have "unat (word_of_int i :: size_t) = nat (if i < 0 then 2 ^ 64 + i else i)"
    by (simp add: unat_eq_nat_uint)
  then show ?thesis using assms by (auto simp: insert_fill_def max_size_def int_min_def int_max_def)
qed

lemma read_body_cases:
  "read_body s hs =
     (case map_of hs ''Content-Length'' of
        None \<Rightarrow> Inr []
      | Some t \<Rightarrow>
          (case stoi t of
             Inl e \<Rightarrow> Inl e
           | Inr n \<Rightarrow> if n < 0 then Inl LengthError
                      else Inr (zero_padded (nat n) (if good s then rdbuf s else []))))"
proof (cases "map_of hs ''Content-Length''")
  case (Some t)
  show ?thesis
  proof (cases "stoi t")
    case (Inr n)
    then have "int_min \<le> n" "n \<le> int_max" using stoi_range by auto
    then show ?thesis using Some Inr
      by (auto simp: read_body_def insert_body read_chars_def zero_padded_def)
  qed (simp add: read_body_def Some)
qed (simp add: read_body_def)

lemma read_body_length:
  "read_body s hs = Inr body \<Longrightarrow> map_of hs ''Content-Length'' = Some t
     \<Longrightarrow> stoi t = Inr (int (length body))"
  by (auto simp: read_body_cases split: sum.splits if_splits)

lemma request_head_total:
  assumes "length buffer \<le> max_size"
  shows "\<exists>m u v s hs. request_head buffer = Inr (m, u, v, s, hs) \<and> distinct (map fst hs)"
proof -
  obtain s1 m where s1: "extract_word (istringstream buffer) [] = (s1, m)" by fastforce
  obtain s2 u where s2: "extract_word s1 [] = (s2, u)" by fastforce
  obtain s3 v where s3: "extract_word s2 [] = (s3, v)" by fastforce
  obtain s4 l where s4: "getline LF s3 [] = (s4, l)" by fastforce
  have "size s4 \<le> max_size"
    using extract_word_size [OF s1] extract_word_size [OF s2] extract_word_size [OF s3]
      getline_size [OF s4] assms by simp
  then show ?thesis using header_loop_total [of s4 "[]" l 0] s1 s2 s3 s4
    by (fastforce simp: request_head_def)
qed

section \<open>Properties of createRequestFromBuffer\<close>

text \<open>
  C1. A well-formed request is read back exactly: on the text of a request with CRLF line ends,
  at least one header and a correct \<open>Content-Length\<close> (or no body), the parser returns method,
  target, version and body as they were, and a header map that maps every name to the first
  value given for it.
\<close>

theorem request_roundtrip:
  assumes "is_token method" "is_token url" "is_token version"
    and "hs \<noteq> []" "list_all is_header hs"
    and "case map_of hs ''Content-Length'' of None \<Rightarrow> body = []
         | Some t \<Rightarrow> stoi t = Inr (int (length body))"
    and "length (format_request CRLF method url version hs body) \<le> max_size"
  shows "\<exists>hs'. createRequestFromBuffer (format_request CRLF method url version hs body)
           = Inr (method, url, version, hs', body)
         \<and> map_of hs' = map_of hs \<and> distinct (map fst hs')"
proof -
  let ?hs = "foldl emplace [] (map (seen_header CRLF) hs)"
  have seen: "map (seen_header CRLF) hs = hs" by (simp add: seen_header_def map_idI)
  have maps: "map_of ?hs = map_of hs" by (rule ext) (simp add: map_of_emplace seen)
  have "read_body (istringstream body) ?hs = Inr body"
    using assms(6) by (auto simp: read_body_cases maps split: option.splits)
  then have "createRequestFromBuffer (format_request CRLF method url version hs body)
      = Inr (method, url, version, ?hs, body)"
    using assms by (simp add: createRequestFromBuffer_def request_head_format)
  with maps distinct_emplace [of "[]"] show ?thesis by fastforce
qed

lemma request_roundtrip_witness:
  "\<exists>hs'. createRequestFromBuffer (format_request CRLF ''POST'' ''/v1'' ''HTTP/1.1''
       [(''Host'', ''a''), (''Content-Length'', ''2'')] ''hi'') = Inr (''POST'', ''/v1'', ''HTTP/1.1'', hs', ''hi'')
     \<and> map_of hs' = map_of [(''Host'', ''a''), (''Content-Length'', ''2'')] \<and> distinct (map fst hs')"
proof (rule request_roundtrip)
  show "is_token ''POST''" "is_token ''/v1''" "is_token ''HTTP/1.1''"
    by (simp_all add: is_token_def isspace_def)
  show "list_all is_header [(''Host'', ''a''), (''Content-Length'', ''2'')]" by (simp add: is_header_def)
  have "stoi ''2'' = Inr 2" by code_simp
  then show "case map_of [(''Host'', ''a''), (''Content-Length'', ''2'')] ''Content-Length'' of
      None \<Rightarrow> ''hi'' = [] | Some t \<Rightarrow> stoi t = Inr (int (length ''hi''))" by simp
qed (simp_all add: format_request_def header_line_def max_size_def)

text \<open>
  C20. The parser is total and its failures are exactly those of the \<open>Content-Length\<close> text:
  on any buffer the head is read without an exception (no \<open>substr\<close> is ever out of range) and
  its header names are distinct; then the result is an error exactly where \<open>std::stoi\<close>
  rejects the length or the length is negative, and otherwise a body of exactly that length,
  what is missing from the buffer filled with the digit zero.
\<close>

theorem request_outcome:
  assumes "length buffer \<le> max_size"
  shows "\<exists>m u v s hs. request_head buffer = Inr (m, u, v, s, hs) \<and> distinct (map fst hs)
    \<and> createRequestFromBuffer buffer =
        (case map_of hs ''Content-Length'' of
           None \<Rightarrow> Inr (m, u, v, hs, [])
         | Some t \<Rightarrow>
             (case stoi t of
                Inl e \<Rightarrow> Inl e
              | Inr n \<Rightarrow> if n < 0 then Inl LengthError
                         else Inr (m, u, v, hs, zero_padded (nat n) (if good s then rdbuf s else []))))"
proof -
  obtain m u v s hs where h: "request_head buffer = Inr (m, u, v, s, hs)" "distinct (map fst hs)"
    using request_head_total assms by blast
  then have "createRequestFromBuffer buffer
      = and_then (read_body s hs) (\<lambda>body. Inr (m, u, v, hs, body))"
    by (simp add: createRequestFromBuffer_def)
  with h show ?thesis by (auto simp: read_body_cases split: option.splits sum.splits)
qed

lemma request_outcome_witness:
  "\<exists>m u v s hs. request_head ''GET'' = Inr (m, u, v, s, hs) \<and> distinct (map fst hs)"
  using request_outcome [of "''GET''"] by (auto simp: max_size_def)

text \<open>
  C38. Lines that end with a bare line feed are accepted, but every header value loses its last
  character, because the parser drops the last character of each line as if it were the
  carriage return: a length of \<open>12\<close> is read as \<open>1\<close>.
\<close>

theorem request_bare_LF:
  assumes "is_token method" "is_token url" "is_token version" "list_all is_header hs"
    and "length (format_request [LF] method url version hs body) \<le> max_size"
  shows "\<exists>hs'. request_head (format_request [LF] method url version hs body)
           = Inr (method, url, version, istringstream body, hs')
         \<and> map_of hs' = map_option butlast \<circ> map_of hs"
proof -
  let ?hs = "foldl emplace [] (map (seen_header [LF]) hs)"
  have "map_of (map (seen_header [LF]) hs) k = map_option butlast (map_of hs k)" for k
    by (induction hs) (auto simp: seen_header_def)
  then have "map_of ?hs = map_option butlast \<circ> map_of hs"
    by (intro ext) (simp add: map_of_emplace)
  then show ?thesis using assms by (auto simp: request_head_format)
qed

lemma request_bare_LF_witness:
  "\<exists>hs'. request_head (format_request [LF] ''POST'' ''/'' ''HTTP/1.1'' [(''Content-Length'', ''12'')] [])
       = Inr (''POST'', ''/'', ''HTTP/1.1'', istringstream [], hs')
     \<and> map_of hs' = map_option butlast \<circ> map_of [(''Content-Length'', ''12'')]"
proof (rule request_bare_LF)
  show "is_token ''POST''" "is_token ''/''" "is_token ''HTTP/1.1''"
    by (simp_all add: is_token_def isspace_def)
qed (simp_all add: is_header_def format_request_def header_line_def max_size_def)

text \<open>
  A request without any header is not read as one: its empty line counts as the first
  header line, which needs no delimiter, so the map holds a header named by a carriage return.
\<close>

theorem request_without_headers:
  assumes "is_token method" "is_token url" "is_token version"
    and "length (format_request CRLF method url version [] []) \<le> max_size"
  shows "createRequestFromBuffer (format_request CRLF method url version [] [])
    = Inr (method, url, version, [([CR], [])], [])"
proof -
  have sp: "isspace SP" "isspace CR" by (simp_all add: isspace_def)
  have tokens:
    "extract_word (istringstream (method @ SP # url @ SP # version @ CR # LF # CRLF)) []
      = (istringstream (SP # url @ SP # version @ CR # LF # CRLF), method)"
    "extract_word (istringstream (SP # url @ SP # version @ CR # LF # CRLF)) []
      = (istringstream (SP # version @ CR # LF # CRLF), url)"
    "extract_word (istringstream (SP # version @ CR # LF # CRLF)) []
      = (istringstream (CR # LF # CRLF), version)"
    using assms(1-3) sp extract_word_istringstream [of "[]" "method" SP]
      extract_word_istringstream [of "[SP]" url SP] extract_word_istringstream [of "[SP]" version CR]
    by (simp_all add: is_token_def)
  have "getline LF (istringstream CRLF) [CR] = (istringstream [], [CR])"
    using getline_istringstream [of LF "[CR]" "[]"] by simp
  moreover have "getline LF (istringstream []) [CR] = (\<lparr>rdbuf = [], eofbit = True, failbit = True\<rparr>, [])"
    by (simp add: getline_last)
  moreover have "find_from '': '' [CR] = None" "size (istringstream CRLF) \<le> max_size"
    "size (istringstream []) \<le> max_size"
    by (simp_all add: max_size_def)
  ultimately have "header_loop (istringstream CRLF) [CR] 0 []
      = Inr (\<lparr>rdbuf = [], eofbit = True, failbit = True\<rparr>, [([CR], [])])"
    by (simp add: header_loop_step header_split_def try_emplace_def istringstream_def)
  then show ?thesis
    using tokens getline_istringstream [of LF "[CR]" CRLF "[]"]
    by (simp add: createRequestFromBuffer_def request_head_def format_request_def read_body_def)
qed

lemma request_without_headers_witness:
  "createRequestFromBuffer (format_request CRLF ''GET'' ''/'' ''HTTP/1.1'' [] [])
     = Inr (''GET'', ''/'', ''HTTP/1.1'', [([CR], [])], [])"
proof (rule request_without_headers)
  show "is_token ''GET''" "is_token ''/''" "is_token ''HTTP/1.1''"
    by (simp_all add: is_token_def isspace_def)
qed (simp add: format_request_def max_size_def)

section \<open>buildResponseStringBuffer\<close>

record http_response =
  \<comment> \<open>what the code reads of \<open>boost::beast::http::response<string_body>\<close>\<close>
  res_version :: nat
  res_result_int :: nat
  res_reason :: string
  res_fields :: "(string \<times> string) list"
  res_body :: string

definition version_string :: "nat \<Rightarrow> string" where
  "version_string v =
     (if v = 10 then ''HTTP/1.0''
      else if v = 11 then ''HTTP/1.1''
      else ''HTTP/'' @ show_nat (v div 10) @ ''.'' @ show_nat (v mod 10))"

definition buildResponseStringBuffer :: "http_response \<Rightarrow> string" where
  "buildResponseStringBuffer res =
     version_string (res_version res) @ '' '' @ show_nat (res_result_int res) @ '' ''
       @ res_reason res @ CRLF
     @ concat (map (\<lambda>(name, value). name @ '': '' @ value @ CRLF) (res_fields res))
     @ CRLF @ res_body res"

text \<open>A reader of HTTP responses, written from the message format and not from the code.\<close>

definition cut_at :: "string \<Rightarrow> string \<Rightarrow> (string \<times> string) option" where
  "cut_at p s = (case find_from p s of
      None \<Rightarrow> None
    | Some i \<Rightarrow> Some (take i s, drop (i + length p) s))"

fun read_fields :: "nat \<Rightarrow> string \<Rightarrow> ((string \<times> string) list \<times> string) option" where
  "read_fields 0 s = None"
| "read_fields (Suc n) s =
     (case cut_at CRLF s of
        None \<Rightarrow> None
      | Some (line, rest) \<Rightarrow>
          if line = [] then Some ([], rest)
          else (case cut_at '': '' line of
                  None \<Rightarrow> None
                | Some nv \<Rightarrow> map_option (\<lambda>(fs, b). (nv # fs, b)) (read_fields n rest)))"

definition read_response :: "string \<Rightarrow> (string \<times> nat \<times> string \<times> (string \<times> string) list \<times> string) option" where
  "read_response s =
     (case cut_at '' '' s of None \<Rightarrow> None | Some (version, s1) \<Rightarrow>
     (case cut_at '' '' s1 of None \<Rightarrow> None | Some (status, s2) \<Rightarrow>
     (case cut_at CRLF s2 of None \<Rightarrow> None | Some (reason, s3) \<Rightarrow>
       map_option (\<lambda>(fs, b). (version, digits_val status, reason, fs, b))
         (read_fields (Suc (length s3)) s3))))"

lemma cut_at_here: "d \<notin> set xs \<Longrightarrow> cut_at (d # ds) (xs @ d # ds @ ys) = Some (xs, ys)"
  using find_from_here [of d xs ds ys] by (simp add: cut_at_def)

lemma version_string_general:
  "version_string v = ''HTTP/'' @ show_nat (v div 10) @ ''.'' @ show_nat (v mod 10)"
proof -
  have "show_nat 1 = ''1''" "show_nat 0 = ''0''" by code_simp+
  then show ?thesis by (simp add: version_string_def)
qed

lemma SP_version_string: "SP \<notin> set (version_string v)" and SP_show_nat: "SP \<notin> set (show_nat n)"
  using show_nat_digits [of SP] by (auto simp: version_string_general isdigit_def code_def)

definition is_field :: "string \<times> string \<Rightarrow> bool" where
  "is_field f \<longleftrightarrow> CHR '':'' \<notin> set (fst f) \<and> CR \<notin> set (fst f) \<and> CR \<notin> set (snd f)"

lemma read_fields_written:
  assumes "list_all is_field fs" "length fs < n"
  shows "read_fields n (concat (map (\<lambda>(name, value). name @ '': '' @ value @ CRLF) fs) @ CRLF @ body)
           = Some (fs, body)"
  using assms
proof (induction fs arbitrary: n)
  case Nil
  then show ?case using cut_at_here [of CR "[]" "[LF]" body] by (cases n) auto
next
  case (Cons f fs)
  obtain name val where f: "f = (name, val)" by fastforce
  obtain m where m: "n = Suc m" "length fs < m" using Cons.prems(2) by (cases n) auto
  let ?rest = "concat (map (\<lambda>(name, value). name @ '': '' @ value @ CRLF) fs) @ CRLF @ body"
  have "cut_at CRLF ((name @ '': '' @ val) @ CR # [LF] @ ?rest) = Some (name @ '': '' @ val, ?rest)"
    using Cons.prems(1) f by (intro cut_at_here) (auto simp: is_field_def)
  moreover have "cut_at '': '' (name @ CHR '':'' # '' '' @ val) = Some (name, val)"
    using Cons.prems(1) f by (intro cut_at_here) (auto simp: is_field_def)
  ultimately show ?case using Cons.IH [of m] Cons.prems(1) m by (simp add: f)
qed

text \<open>
  C21. The text written for a response is read back by an HTTP reader as the same status line,
  fields and body, whatever the version and status numbers are, if the reason and the fields
  hold no carriage return and no field name a colon.
\<close>

theorem response_roundtrip:
  assumes "CR \<notin> set (res_reason res)" "list_all is_field (res_fields res)"
  shows "read_response (buildResponseStringBuffer res)
    = Some (''HTTP/'' @ show_nat (res_version res div 10) @ ''.'' @ show_nat (res_version res mod 10),
            res_result_int res, res_reason res, res_fields res, res_body res)"
proof -
  define T where "T = concat (map (\<lambda>(name, value). name @ '': '' @ value @ CRLF) (res_fields res))
    @ CRLF @ res_body res"
  have "length fs \<le> length (concat (map (\<lambda>(name, value). name @ '': '' @ value @ CRLF) fs))"
    for fs :: "(string \<times> string) list"
    by (induction fs) auto
  then have fields: "read_fields (Suc (length T)) T = Some (res_fields res, res_body res)"
    using assms(2) unfolding T_def
    by (intro read_fields_written) (auto simp: less_Suc_eq_le intro!: trans_le_add1 le_SucI)
  have "buildResponseStringBuffer res = version_string (res_version res) @ SP # [] @
      (show_nat (res_result_int res) @ SP # [] @ (res_reason res @ CR # [LF] @ T))"
    by (simp add: buildResponseStringBuffer_def T_def)
  with fields show ?thesis
    using assms(1) SP_version_string SP_show_nat
    by (simp only: read_response_def cut_at_here option.case prod.case
          not_False_eq_True)
      (simp add: version_string_general del: read_fields.simps)
qed

lemma response_roundtrip_witness:
  "read_response (buildResponseStringBuffer \<lparr>res_version = 11, res_result_int = 200,
       res_reason = ''OK'', res_fields = [(''Server'', ''x'')], res_body = ''hi''\<rparr>)
     = Some (''HTTP/'' @ show_nat (11 div 10) @ ''.'' @ show_nat (11 mod 10), 200, ''OK'',
         [(''Server'', ''x'')], ''hi'')"
  by (subst response_roundtrip) (simp_all add: is_field_def)

lemma buildResponse_nonempty: "buildResponseStringBuffer res \<noteq> []"
  by (simp add: buildResponseStringBuffer_def)

end
