(* ===== verification/Http_Client.thy ===== *)
theory Http_Client
  imports Http_Parser "HOL-Library.Multiset"
begin

text \<open>
  \<open>src/src/utilis/boostBeastClient.h\<close>: \<open>asyncHttpClient\<close>, the coroutine that forwards one
  message of a WebSocket client to the backend as an HTTP request and returns the text of
  the answer. Boost.Beast's request object and the network are parameters: the record
  \<open>beast\<close> holds the operations of \<open>http::request\<close> that the code calls, the record \<open>network\<close>
  the outcome of each asynchronous operation. The number drawn from the random generator and
  the order in which the header map is iterated are arguments.
\<close>

section \<open>The library and the network\<close>

record ('v, 'f) http_request =
  rq_method :: "'v"
  rq_version :: nat
  rq_target :: string
  rq_fields :: "'f"
  rq_body :: string

record ('v, 'f) beast =
  new_request :: "('v, 'f) http_request"
  string_to_verb :: "string \<Rightarrow> 'v option"  \<comment> \<open>\<open>None\<close>: \<open>verb::unknown\<close>\<close>
  set_field :: "'f \<Rightarrow> string \<Rightarrow> string \<Rightarrow> 'f result"
  prepare_payload :: "('v, 'f) http_request \<Rightarrow> ('v, 'f) http_request result"

record ('v, 'f) network =
  resolve_error :: "string \<Rightarrow> string \<Rightarrow> bool"
  connect_error :: "string \<Rightarrow> string \<Rightarrow> bool"
  write_error :: "('v, 'f) http_request \<Rightarrow> bool"
  read_answer :: "('v, 'f) http_request \<Rightarrow> http_response option"

section \<open>Building the request\<close>

definition set_method ::
    "('v, 'f) beast \<Rightarrow> string \<Rightarrow> ('v, 'f) http_request \<Rightarrow> ('v, 'f) http_request result" where
  \<comment> \<open>\<open>req->method(verb)\<close> throws on \<open>verb::unknown\<close>\<close>
  "set_method B method rq =
     (case string_to_verb B method of
        None \<Rightarrow> Inl InvalidArgument
      | Some v \<Rightarrow> Inr (rq\<lparr>rq_method := v\<rparr>))"

definition set_version :: "string \<Rightarrow> ('v, 'f) http_request \<Rightarrow> ('v, 'f) http_request" where
  "set_version version rq =
     (if version = ''HTTP/1.1'' then rq\<lparr>rq_version := 11\<rparr>
      else if version = ''HTTP/1.0'' then rq\<lparr>rq_version := 10\<rparr>
      else rq)"

definition has_line_break :: "string \<Rightarrow> bool" where
  "has_line_break s \<longleftrightarrow> CR \<in> set s \<or> LF \<in> set s"

fun forward_headers ::
    "('v, 'f) beast \<Rightarrow> headers \<Rightarrow> ('v, 'f) http_request \<Rightarrow> ('v, 'f) http_request result" where
  "forward_headers B [] rq = Inr rq"
| "forward_headers B ((header, val) # hs) rq =
     (if has_line_break header \<or> has_line_break val then forward_headers B hs rq
      else and_then (set_field B (rq_fields rq) header val) (\<lambda>f.
        forward_headers B hs (rq\<lparr>rq_fields := f\<rparr>)))"

definition set_in ::
    "('v, 'f) beast \<Rightarrow> string \<Rightarrow> string \<Rightarrow> ('v, 'f) http_request \<Rightarrow> ('v, 'f) http_request result" where
  "set_in B name val rq =
     and_then (set_field B (rq_fields rq) name val) (\<lambda>f. Inr (rq\<lparr>rq_fields := f\<rparr>))"

definition build_request ::
    "('v, 'f) beast \<Rightarrow> (headers \<Rightarrow> headers) \<Rightarrow> string \<Rightarrow> string \<Rightarrow> string \<Rightarrow> ('v, 'f) http_request result" where
  "build_request B order msg clientID t =
     and_then (createRequestFromBuffer msg) (\<lambda>(method, url, version, headers, body).
     and_then (set_method B method (new_request B)) (\<lambda>rq1.
     let rq2 = (set_version version rq1)\<lparr>rq_target := url\<rparr> in
     and_then (forward_headers B (order headers) rq2) (\<lambda>rq3.
     and_then (set_in B ''X-Arrived-time'' t rq3) (\<lambda>rq4.
     and_then (set_in B ''X-Client-ID'' clientID rq4) (\<lambda>rq5.
       if body \<noteq> [] then prepare_payload B (rq5\<lparr>rq_body := body\<rparr>) else Inr rq5)))))"

section \<open>The exchange with the backend\<close>

type_synonym ('v, 'f) sent_log = "('v, 'f) http_request list"

definition exchange ::
    "('v, 'f) beast \<Rightarrow> ('v, 'f) network \<Rightarrow> string \<Rightarrow> string \<Rightarrow> ('v, 'f) http_request
       \<Rightarrow> (string \<times> ('v, 'f) sent_log) result" where
  \<comment> \<open>resolve, connect, write, read: the text to return and the requests written\<close>
  "exchange B net host port rq =
     (let result = ''error''
      in if resolve_error net host port then Inr (result, [])
         else if connect_error net host port then Inr (result, [])
         else and_then (set_in B ''Host'' host rq) (\<lambda>rq'.
           if write_error net rq' then Inr (result, [])
           else (case read_answer net rq' of
                   None \<Rightarrow> Inr (result, [rq'])
                 | Some res \<Rightarrow> Inr (buildResponseStringBuffer res, [rq']))))"

definition pick_port :: "nat \<Rightarrow> string \<Rightarrow> string result" where
  \<comment> \<open>\<open>port.back() = '0' + distribution(generator) % 4 + 2\<close>\<close>
  "pick_port draw port =
     (if port = [] then Inl (UndefinedBehaviour ''back of an empty string'')
      else Inr (butlast port @ [char_of (48 + draw mod 4 + 2)]))"

record ('v, 'f) outcome =
  reply :: string
  used_port :: string
  sent :: "('v, 'f) sent_log"

definition asyncHttpClient ::
    "('v, 'f) beast \<Rightarrow> ('v, 'f) network \<Rightarrow> (headers \<Rightarrow> headers) \<Rightarrow> nat \<Rightarrow> string \<Rightarrow> string \<Rightarrow> string
       \<Rightarrow> string \<Rightarrow> string \<Rightarrow> ('v, 'f) outcome result" where
  \<comment> \<open>every exception of the \<open>try\<close> block makes the reply \<open>error\<close>\<close>
  "asyncHttpClient B net order draw msg host port clientID t =
     and_then (pick_port draw port) (\<lambda>port'.
       case and_then (build_request B order msg clientID t) (exchange B net host port') of
         Inr (result, out) \<Rightarrow> Inr \<lparr>reply = result, used_port = port', sent = out\<rparr>
       | Inl e \<Rightarrow>
           if is_exception e then Inr \<lparr>reply = ''error'', used_port = port', sent = []\<rparr> else Inl e)"

section \<open>What the library documents\<close>

definition throws_only :: "('v, 'f) beast \<Rightarrow> bool" where
  \<comment> \<open>the library's failures are C++ exceptions\<close>
  "throws_only B \<longleftrightarrow>
     (\<forall>f n v e. set_field B f n v = Inl e \<longrightarrow> is_exception e)
   \<and> (\<forall>rq e. prepare_payload B rq = Inl e \<longrightarrow> is_exception e)"

definition same_name :: "string \<Rightarrow> string \<Rightarrow> bool" where
  \<comment> \<open>field names are compared without regard to case\<close>
  "same_name m n \<longleftrightarrow> map tolower m = map tolower n"

definition field_laws :: "('v, 'f) beast \<Rightarrow> ('f \<Rightarrow> string \<Rightarrow> string option) \<Rightarrow> bool" where
  \<comment> \<open>\<open>set\<close> replaces all fields of that name and no other; \<open>prepare_payload\<close> touches only the
     framing fields. The first law is meant for values without surrounding white space, which
     Beast drops from a value when it stores it.\<close>
  "field_laws B get \<longleftrightarrow>
     (\<forall>f n v f'. set_field B f n v = Inr f' \<longrightarrow>
        (\<forall>k. get f' k = (if same_name k n then Some v else get f k)))
   \<and> (\<forall>rq rq'. prepare_payload B rq = Inr rq' \<longrightarrow>
        (\<forall>k. \<not> same_name k ''Content-Length'' \<and> \<not> same_name k ''Transfer-Encoding'' \<longrightarrow>
           get (rq_fields rq') k = get (rq_fields rq) k)
      \<and> rq_method rq' = rq_method rq \<and> rq_target rq' = rq_target rq
      \<and> rq_version rq' = rq_version rq \<and> rq_body rq' = rq_body rq)"

section \<open>Lemmas\<close>

lemma build_request_Inr:
  assumes "build_request B order msg clientID t = Inr rq"
  shows "\<exists>m u v hs body verb rq3 f4 f5.
    createRequestFromBuffer msg = Inr (m, u, v, hs, body) \<and> string_to_verb B m = Some verb
    \<and> forward_headers B (order hs)
        ((set_version v ((new_request B)\<lparr>rq_method := verb\<rparr>))\<lparr>rq_target := u\<rparr>) = Inr rq3
    \<and> set_field B (rq_fields rq3) ''X-Arrived-time'' t = Inr f4
    \<and> set_field B f4 ''X-Client-ID'' clientID = Inr f5
    \<and> (if body \<noteq> [] then prepare_payload B (rq3\<lparr>rq_fields := f5, rq_body := body\<rparr>) = Inr rq
       else rq = rq3\<lparr>rq_fields := f5\<rparr>)"
proof -
  obtain m u v hs body where p: "createRequestFromBuffer msg = Inr (m, u, v, hs, body)"
    using assms by (auto simp: build_request_def result_simps)
  moreover obtain verb where "string_to_verb B m = Some verb"
    using assms p by (auto simp: build_request_def result_simps set_method_def split: option.splits)
  ultimately show ?thesis
    using assms
    by (auto simp: build_request_def result_simps set_method_def set_in_def Let_def split: if_splits)
qed

lemma set_field_get:
  "field_laws B get \<Longrightarrow> set_field B f n v = Inr f' \<Longrightarrow>
     get f' k = (if same_name k n then Some v else get f k)"
  by (simp add: field_laws_def)

lemma payload_get:
  "field_laws B get \<Longrightarrow> prepare_payload B rq = Inr rq' \<Longrightarrow>
     \<not> same_name k ''Content-Length'' \<Longrightarrow> \<not> same_name k ''Transfer-Encoding'' \<Longrightarrow>
     get (rq_fields rq') k = get (rq_fields rq) k"
  by (simp add: field_laws_def)

lemma payload_rest:
  "field_laws B get \<Longrightarrow> prepare_payload B rq = Inr rq' \<Longrightarrow>
     rq_method rq' = rq_method rq \<and> rq_target rq' = rq_target rq
     \<and> rq_version rq' = rq_version rq \<and> rq_body rq' = rq_body rq"
  by (simp add: field_laws_def)

lemma forward_headers_rest:
  "forward_headers B hs rq = Inr rq' \<Longrightarrow> rq_method rq' = rq_method rq \<and> rq_target rq' = rq_target rq
     \<and> rq_version rq' = rq_version rq \<and> rq_body rq' = rq_body rq"
  by (induction B hs rq rule: forward_headers.induct) (auto simp: result_simps split: if_splits)

definition clean :: "string \<times> string \<Rightarrow> bool" where
  "clean h \<longleftrightarrow> \<not> has_line_break (fst h) \<and> \<not> has_line_break (snd h)"

lemma forward_headers_other:
  "field_laws B get \<Longrightarrow> forward_headers B hs rq = Inr rq' \<Longrightarrow>
     \<forall>h \<in> set hs. clean h \<longrightarrow> \<not> same_name k (fst h) \<Longrightarrow> get (rq_fields rq') k = get (rq_fields rq) k"
  by (induction B hs rq rule: forward_headers.induct)
    (auto simp: result_simps clean_def set_field_get split: if_splits)

lemma forward_headers_set:
  assumes "field_laws B get"
  shows "forward_headers B hs rq = Inr rq' \<Longrightarrow> (n, v) \<in> set hs \<Longrightarrow> clean (n, v) \<Longrightarrow>
    \<forall>h \<in> set hs. same_name n (fst h) \<longrightarrow> h = (n, v) \<Longrightarrow> get (rq_fields rq') n = Some v"
proof (induction hs arbitrary: rq)
  case (Cons h hs)
  obtain rq1 where rq1: "forward_headers B hs rq1 = Inr rq'"
    "rq1 = rq \<or> (clean h \<and> set_field B (rq_fields rq) (fst h) (snd h) = Inr (rq_fields rq1))"
    "h = (n, v) \<longrightarrow> clean h \<and> set_field B (rq_fields rq) n v = Inr (rq_fields rq1)"
    using Cons.prems(1,3) by (cases h) (fastforce simp: result_simps clean_def split: if_splits)
  show ?case
  proof (cases "(n, v) \<in> set hs")
    case True
    then show ?thesis using Cons.IH [OF rq1(1)] Cons.prems by simp
  next
    case False
    then have "h = (n, v)" using Cons.prems(2) by auto
    then have "get (rq_fields rq1) n = Some v"
      using rq1(3) set_field_get [OF assms, of "rq_fields rq" n v "rq_fields rq1" n]
      by (simp add: same_name_def)
    moreover have "get (rq_fields rq') n = get (rq_fields rq1) n"
      using False Cons.prems(4) by (intro forward_headers_other [OF assms rq1(1)]) auto
    ultimately show ?thesis by simp
  qed
qed simp

lemma exchange_sent:
  assumes "exchange B net host port rq = Inr (result, out)" "rq' \<in> set out"
  shows "\<exists>f. set_field B (rq_fields rq) ''Host'' host = Inr f \<and> rq' = rq\<lparr>rq_fields := f\<rparr> \<and> out = [rq']"
  using assms
  by (auto simp: exchange_def set_in_def result_simps Let_def split: if_splits option.splits)

lemma asyncHttpClient_sent:
  assumes "asyncHttpClient B net order draw msg host port clientID t = Inr x" "rq' \<in> set (sent x)"
  shows "\<exists>rq f. build_request B order msg clientID t = Inr rq
    \<and> set_field B (rq_fields rq) ''Host'' host = Inr f \<and> rq' = rq\<lparr>rq_fields := f\<rparr> \<and> sent x = [rq']"
proof -
  obtain port' where x: "(case and_then (build_request B order msg clientID t) (exchange B net host port') of
       Inr (result, out) \<Rightarrow> Inr \<lparr>reply = result, used_port = port', sent = out\<rparr>
     | Inl e \<Rightarrow>
         if is_exception e then Inr \<lparr>reply = ''error'', used_port = port', sent = []\<rparr> else Inl e) = Inr x"
    using assms(1) by (auto simp: asyncHttpClient_def and_then_eq_Inr)
  then obtain result where "and_then (build_request B order msg clientID t) (exchange B net host port')
      = Inr (result, sent x)"
    using assms(2) by (auto split: sum.splits if_splits)
  then obtain rq where "build_request B order msg clientID t = Inr rq"
    "exchange B net host port' rq = Inr (result, sent x)"
    by (auto simp: and_then_eq_Inr)
  then show ?thesis using exchange_sent assms(2) by fastforce
qed

lemma asyncHttpClient_port:
  assumes "asyncHttpClient B net order draw msg host port clientID t = Inr x"
  shows "pick_port draw port = Inr (used_port x)"
proof -
  obtain p where p: "pick_port draw port = Inr p"
    using assms by (auto simp: asyncHttpClient_def and_then_eq_Inr)
  show ?thesis
    using assms p
    by (cases "and_then (build_request B order msg clientID t) (exchange B net host p)")
      (auto simp: asyncHttpClient_def split: if_splits)
qed

lemma forward_headers_throws:
  "throws_only B \<Longrightarrow> forward_headers B hs rq = Inl e \<Longrightarrow> is_exception e"
  by (induction B hs rq rule: forward_headers.induct)
    (auto simp: result_simps throws_only_def split: if_splits)

lemma createRequest_throws:
  assumes "length msg \<le> max_size" "createRequestFromBuffer msg = Inl e"
  shows "is_exception e"
proof -
  obtain m u v s hs where "request_head msg = Inr (m, u, v, s, hs)"
    using request_head_total [OF assms(1)] by blast
  then have "read_body s hs = Inl e"
    using assms(2) by (auto simp: createRequestFromBuffer_def result_simps)
  then have "e \<in> {InvalidArgument, OutOfRange, LengthError}"
    using stoi_errors by (auto simp: read_body_cases split: option.splits sum.splits if_splits)
  then show ?thesis by auto
qed

lemma build_request_throws:
  assumes "throws_only B" "length msg \<le> max_size" "build_request B order msg clientID t = Inl e"
  shows "is_exception e"
proof -
  have "is_exception e'" if "set_field B f n v = Inl e'" for f n v e'
    using assms(1) that by (auto simp: throws_only_def)
  moreover have "is_exception e'" if "prepare_payload B rq = Inl e'" for rq e'
    using assms(1) that by (auto simp: throws_only_def)
  ultimately show ?thesis
    using assms(3) createRequest_throws [OF assms(2)] forward_headers_throws [OF assms(1)]
    by (auto simp: build_request_def set_method_def set_in_def result_simps Let_def
        split: option.splits if_splits)
qed

lemma exchange_throws:
  assumes "throws_only B" "exchange B net host port rq = Inl e"
  shows "is_exception e"
  using assms by (auto simp: exchange_def set_in_def result_simps throws_only_def Let_def
      split: if_splits option.splits)

section \<open>A reference library\<close>

text \<open>An instance of the parameters: fields as a list, searched without regard to case.\<close>

definition list_get :: "headers \<Rightarrow> string \<Rightarrow> string option" where
  "list_get f k = (case filter (\<lambda>h. same_name k (fst h)) f of [] \<Rightarrow> None | h # _ \<Rightarrow> Some (snd h))"

definition list_set :: "headers \<Rightarrow> string \<Rightarrow> string \<Rightarrow> headers" where
  "list_set f n v = filter (\<lambda>h. \<not> same_name n (fst h)) f @ [(n, v)]"

definition list_beast :: "(string, headers) beast" where
  "list_beast = \<lparr>
     new_request = \<lparr>rq_method = ''GET'', rq_version = 11, rq_target = [], rq_fields = [], rq_body = []\<rparr>,
     string_to_verb = (\<lambda>s. if s \<in> {''GET'', ''POST'', ''PUT'', ''DELETE''} then Some s else None),
     set_field = (\<lambda>f n v. Inr (list_set f n v)),
     prepare_payload = (\<lambda>rq. Inr (rq\<lparr>rq_fields :=
       list_set (rq_fields rq) ''Content-Length'' (show_nat (length (rq_body rq)))\<rparr>))\<rparr>"

definition sample_answer :: http_response where
  "sample_answer = \<lparr>res_version = 11, res_result_int = 200, res_reason = ''OK'',
     res_fields = [], res_body = ''hi''\<rparr>"

definition sample_network :: "('v, 'f) network" where
  "sample_network = \<lparr>resolve_error = (\<lambda>h p. False), connect_error = (\<lambda>h p. False),
     write_error = (\<lambda>rq. False), read_answer = (\<lambda>rq. Some sample_answer)\<rparr>"

lemma list_get_set: "list_get (list_set f n v) k = (if same_name k n then Some v else list_get f k)"
proof (cases "same_name k n")
  case True
  then have "filter (\<lambda>h. same_name k (fst h)) (filter (\<lambda>h. \<not> same_name n (fst h)) f) = []"
    by (auto simp: same_name_def filter_empty_conv)
  with True show ?thesis by (simp add: list_get_def list_set_def)
next
  case False
  then have "filter (\<lambda>h. same_name k (fst h)) (filter (\<lambda>h. \<not> same_name n (fst h)) f)
      = filter (\<lambda>h. same_name k (fst h)) f"
    by (induction f) (auto simp: same_name_def)
  with False show ?thesis by (simp add: list_get_def list_set_def)
qed

lemma list_field_laws: "field_laws list_beast list_get"
  by (auto simp: field_laws_def list_beast_def list_get_set)

lemma list_throws_only: "throws_only list_beast"
  by (simp add: throws_only_def list_beast_def)

definition sample_message :: string where
  "sample_message = format_request CRLF ''POST'' ''/v1'' ''HTTP/1.1''
     [(''Accept'', ''a''), (''x-client-id'', ''forged''), (''Content-Length'', ''2'')] ''hi''"

lemma sample_message_parsed:
  "createRequestFromBuffer sample_message = Inr (''POST'', ''/v1'', ''HTTP/1.1'',
     [(''Accept'', ''a''), (''x-client-id'', ''forged''), (''Content-Length'', ''2'')], ''hi'')"
proof -
  let ?hs = "[(''Accept'', ''a''), (''x-client-id'', ''forged''), (''Content-Length'', ''2'')]"
  have "request_head sample_message
      = Inr (''POST'', ''/v1'', ''HTTP/1.1'', istringstream ''hi'', foldl emplace [] (map (seen_header CRLF) ?hs))"
    unfolding sample_message_def
    by (rule request_head_format)
      (simp_all add: is_token_def isspace_def is_header_def format_request_def header_line_def max_size_def)
  moreover have "foldl emplace [] (map (seen_header CRLF) ?hs) = ?hs"
    by (simp add: seen_header_def emplace_def try_emplace_def)
  moreover have "stoi ''2'' = Inr 2" by code_simp
  ultimately show ?thesis
    by (simp add: createRequestFromBuffer_def read_body_cases zero_padded_def)
qed

definition sample_outcome :: "(string, headers) outcome" where
  "sample_outcome = \<lparr>reply = buildResponseStringBuffer sample_answer, used_port = ''8083'',
     sent = [\<lparr>rq_method = ''POST'', rq_version = 11, rq_target = ''/v1'',
       rq_fields = [(''Accept'', ''a''), (''X-Arrived-time'', ''7''), (''X-Client-ID'', ''V1''),
         (''Content-Length'', ''2''), (''Host'', ''app'')], rq_body = ''hi''\<rparr>]\<rparr>"

lemma sample_outcome:
  "asyncHttpClient list_beast sample_network (\<lambda>hs. hs) 5 sample_message ''app'' ''8082'' ''V1'' ''7''
     = Inr sample_outcome"
proof -
  have "build_request list_beast (\<lambda>hs. hs) sample_message ''V1'' ''7''
      = Inr ((hd (sent sample_outcome))\<lparr>rq_fields := [(''Accept'', ''a''), (''X-Arrived-time'', ''7''),
          (''X-Client-ID'', ''V1''), (''Content-Length'', ''2'')]\<rparr>)"
    unfolding build_request_def sample_message_parsed by code_simp
  moreover have "pick_port 5 ''8082'' = Inr ''8083''" by code_simp
  moreover have "set_in list_beast ''Host'' ''app'' ((hd (sent sample_outcome))\<lparr>rq_fields :=
      [(''Accept'', ''a''), (''X-Arrived-time'', ''7''), (''X-Client-ID'', ''V1''), (''Content-Length'', ''2'')]\<rparr>)
      = Inr (hd (sent sample_outcome))"
    by code_simp
  ultimately show ?thesis
    by (simp add: asyncHttpClient_def exchange_def sample_network_def sample_outcome_def)
qed

section \<open>Properties\<close>

lemma asyncHttpClient_replies:
  assumes "throws_only B" "length msg \<le> max_size" "port \<noteq> []"
  shows "\<exists>x. asyncHttpClient B net order draw msg host port clientID t = Inr x
    \<and> reply x \<noteq> [] \<and> length (sent x) \<le> 1
    \<and> (reply x = ''error'' \<or> (\<exists>rq res. sent x = [rq] \<and> read_answer net rq = Some res
                                     \<and> reply x = buildResponseStringBuffer res))"
proof -
  obtain port' where p: "pick_port draw port = Inr port'" using assms(3) by (simp add: pick_port_def)
  show ?thesis
  proof (cases "and_then (build_request B order msg clientID t) (exchange B net host port')")
    case (Inl e)
    then have "is_exception e"
      using build_request_throws [OF assms(1,2)] exchange_throws [OF assms(1)] by (auto simp: and_then_eq_Inl)
    with Inl p show ?thesis by (auto simp: asyncHttpClient_def)
  next
    case (Inr y)
    then obtain rq result out where y: "y = (result, out)" "exchange B net host port' rq = Inr (result, out)"
      by (cases y) (auto simp: and_then_eq_Inr)
    then have "length out \<le> 1 \<and> (result = ''error'' \<or> (\<exists>rq res. out = [rq]
        \<and> read_answer net rq = Some res \<and> result = buildResponseStringBuffer res))"
      by (auto simp: exchange_def set_in_def result_simps Let_def split: if_splits option.splits)
    with Inr p y show ?thesis
      by (auto simp: asyncHttpClient_def buildResponse_nonempty buildResponse_nonempty [THEN not_sym])
  qed
qed

text \<open>
  C16. Every message gets an answer: with a non-empty port, whatever the message holds and
  whatever the network does, the coroutine returns a non-empty text and lets no exception
  out; at most one request is written, and the text is either \<open>error\<close> or the serialised
  response that was read for that request.
\<close>

theorem client_always_replies:
  assumes "throws_only B" "length msg \<le> max_size" "port \<noteq> []"
  shows "\<exists>x. asyncHttpClient B net order draw msg host port clientID t = Inr x
    \<and> reply x \<noteq> [] \<and> length (sent x) \<le> 1
    \<and> (reply x = ''error'' \<or> (\<exists>rq res. sent x = [rq] \<and> read_answer net rq = Some res
                                     \<and> reply x = buildResponseStringBuffer res))"
  using asyncHttpClient_replies [OF assms] .

lemma client_always_replies_witness:
  "\<exists>x. asyncHttpClient list_beast sample_network (\<lambda>hs. hs) 1 ''GET'' ''app'' ''8082'' ''V1'' ''7'' = Inr x
     \<and> reply x \<noteq> []"
  using client_always_replies [OF list_throws_only, of "''GET''" "''8082''" sample_network "\<lambda>hs. hs" 1]
  by (fastforce simp: max_size_def)

lemma asyncHttpClient_names:
  assumes "field_laws B get"
    and "asyncHttpClient B net order draw msg host port clientID t = Inr x" "rq \<in> set (sent x)"
  shows "get (rq_fields rq) ''X-Client-ID'' = Some clientID
    \<and> get (rq_fields rq) ''X-Arrived-time'' = Some t \<and> get (rq_fields rq) ''Host'' = Some host"
proof -
  have names: "\<not> same_name ''X-Client-ID'' ''Host''" "\<not> same_name ''X-Arrived-time'' ''Host''"
    "\<not> same_name ''X-Arrived-time'' ''X-Client-ID''" "same_name n n"
    "\<not> same_name ''X-Client-ID'' ''Content-Length''" "\<not> same_name ''X-Client-ID'' ''Transfer-Encoding''"
    "\<not> same_name ''X-Arrived-time'' ''Content-Length''" "\<not> same_name ''X-Arrived-time'' ''Transfer-Encoding''"
    for n by (code_simp, code_simp, code_simp, simp add: same_name_def, code_simp+)
  obtain rq0 f where rq0: "build_request B order msg clientID t = Inr rq0"
    "set_field B (rq_fields rq0) ''Host'' host = Inr f" "rq = rq0\<lparr>rq_fields := f\<rparr>"
    using asyncHttpClient_sent [OF assms(2,3)] by blast
  then obtain rq3 f4 f5 body where b: "set_field B (rq_fields rq3) ''X-Arrived-time'' t = Inr f4"
    "set_field B f4 ''X-Client-ID'' clientID = Inr f5"
    "if body \<noteq> [] then prepare_payload B (rq3\<lparr>rq_fields := f5, rq_body := body\<rparr>) = Inr rq0
     else rq0 = rq3\<lparr>rq_fields := f5\<rparr>"
    using build_request_Inr by blast
  then have "get (rq_fields rq0) k = get f5 k"
    if "\<not> same_name k ''Content-Length''" "\<not> same_name k ''Transfer-Encoding''" for k
    using payload_get [OF assms(1)] that by (auto split: if_splits)
  then show ?thesis
    using set_field_get [OF assms(1) rq0(2)] set_field_get [OF assms(1) b(1)]
      set_field_get [OF assms(1) b(2)] names rq0(3) by simp
qed

text \<open>
  A client cannot speak for another: in every request that is written, the field
  \<open>X-Client-ID\<close> is the id the connection was registered under, whatever headers of that name,
  in any spelling, the message brings; arrival time and host are the gateway's as well.
\<close>

theorem client_id_authentic:
  assumes "field_laws B get"
    and "asyncHttpClient B net order draw msg host port clientID t = Inr x" "rq \<in> set (sent x)"
  shows "get (rq_fields rq) ''X-Client-ID'' = Some clientID
    \<and> get (rq_fields rq) ''X-Arrived-time'' = Some t \<and> get (rq_fields rq) ''Host'' = Some host"
  using asyncHttpClient_names [OF assms] .

lemma client_id_authentic_witness:
  "list_get (rq_fields (hd (sent sample_outcome))) ''X-Client-ID'' = Some ''V1''"
  using client_id_authentic [OF list_field_laws sample_outcome, of "hd (sent sample_outcome)"]
  by (simp add: sample_outcome_def)

text \<open>
  C17. The rest of the request is forwarded: method, target, body and the version, where it is
  1.0 or 1.1, are those of the message, and every header of the map that stands on one line is a
  field of the request with its value, where no other header of the map has the same name up to
  case and the name is none that the gateway sets itself (\<open>X-Arrived-time\<close>, \<open>X-Client-ID\<close>,
  \<open>Host\<close>, \<open>Content-Length\<close> and \<open>Transfer-Encoding\<close>).
\<close>

theorem request_forwarded:
  assumes "field_laws B get" "\<And>hs. mset (order hs) = mset hs"
    and "asyncHttpClient B net order draw msg host port clientID t = Inr x" "rq \<in> set (sent x)"
    and "createRequestFromBuffer msg = Inr (method, url, version, hs, body)"
  shows "string_to_verb B method = Some (rq_method rq) \<and> rq_target rq = url
    \<and> (body \<noteq> [] \<longrightarrow> rq_body rq = body)
    \<and> (version = ''HTTP/1.1'' \<longrightarrow> rq_version rq = 11) \<and> (version = ''HTTP/1.0'' \<longrightarrow> rq_version rq = 10)
    \<and> (\<forall>(n, v) \<in> set hs. clean (n, v) \<and> (\<forall>h \<in> set hs. same_name n (fst h) \<longrightarrow> h = (n, v))
         \<and> list_all (\<lambda>g. \<not> same_name n g)
             [''X-Arrived-time'', ''X-Client-ID'', ''Host'', ''Content-Length'', ''Transfer-Encoding'']
         \<longrightarrow> get (rq_fields rq) n = Some v)"
proof -
  obtain rq0 f where rq0: "build_request B order msg clientID t = Inr rq0"
    "set_field B (rq_fields rq0) ''Host'' host = Inr f" "rq = rq0\<lparr>rq_fields := f\<rparr>"
    using asyncHttpClient_sent [OF assms(3,4)] by blast
  obtain verb rq3 f4 f5 where b: "string_to_verb B method = Some verb"
    "forward_headers B (order hs)
       ((set_version version ((new_request B)\<lparr>rq_method := verb\<rparr>))\<lparr>rq_target := url\<rparr>) = Inr rq3"
    "set_field B (rq_fields rq3) ''X-Arrived-time'' t = Inr f4"
    "set_field B f4 ''X-Client-ID'' clientID = Inr f5"
    "if body \<noteq> [] then prepare_payload B (rq3\<lparr>rq_fields := f5, rq_body := body\<rparr>) = Inr rq0
     else rq0 = rq3\<lparr>rq_fields := f5\<rparr>"
    using build_request_Inr [OF rq0(1)] assms(5) by fastforce
  have rq3: "rq_method rq3 = verb" "rq_target rq3 = url"
    "version = ''HTTP/1.1'' \<longrightarrow> rq_version rq3 = 11" "version = ''HTTP/1.0'' \<longrightarrow> rq_version rq3 = 10"
    using forward_headers_rest [OF b(2)] by (simp_all add: set_version_def)
  then have rest: "rq_method rq0 = verb \<and> rq_target rq0 = url \<and> (body \<noteq> [] \<longrightarrow> rq_body rq0 = body)
      \<and> (version = ''HTTP/1.1'' \<longrightarrow> rq_version rq0 = 11) \<and> (version = ''HTTP/1.0'' \<longrightarrow> rq_version rq0 = 10)"
    using payload_rest [OF assms(1)] b(5) by (auto split: if_splits)
  have order: "set (order hs) = set hs" using assms(2) mset_eq_setD by blast
  have "get (rq_fields rq) n = Some v"
    if nv: "(n, v) \<in> set hs" "clean (n, v)" "\<forall>h \<in> set hs. same_name n (fst h) \<longrightarrow> h = (n, v)"
      "list_all (\<lambda>g. \<not> same_name n g)
         [''X-Arrived-time'', ''X-Client-ID'', ''Host'', ''Content-Length'', ''Transfer-Encoding'']" for n v
  proof -
    have "get (rq_fields rq3) n = Some v"
      using forward_headers_set [OF assms(1) b(2), of n v] nv(1-3) unfolding order by blast
    moreover have "get (rq_fields rq0) n = get f5 n"
      using payload_get [OF assms(1)] b(5) nv(4) by (auto split: if_splits)
    ultimately show ?thesis
      using set_field_get [OF assms(1) rq0(2)] set_field_get [OF assms(1) b(3)]
        set_field_get [OF assms(1) b(4)] nv(4) rq0(3) by simp
  qed
  then show ?thesis using b(1) rest rq0(3) by auto
qed

lemma request_forwarded_witness:
  "rq_target (hd (sent sample_outcome)) = ''/v1'' \<and> rq_body (hd (sent sample_outcome)) = ''hi''"
  using request_forwarded [OF list_field_laws _ sample_outcome _ sample_message_parsed,
      of "hd (sent sample_outcome)"]
  by (simp add: sample_outcome_def)

text \<open>
  C18. No message smuggles a header in: a property of field collections that holds of the fresh
  request, survives setting fields without line breaks and survives \<open>prepare_payload\<close> holds of
  every request that is written, whatever the message holds, if the values the gateway adds
  itself, the id, the time and the host, have no line breaks. The code checks the headers of
  the message but not those three values.
\<close>

theorem no_header_injection:
  assumes "P (rq_fields (new_request B))"
    and "\<And>f n v f'. P f \<Longrightarrow> clean (n, v) \<Longrightarrow> set_field B f n v = Inr f' \<Longrightarrow> P f'"
    and "\<And>rq rq'. P (rq_fields rq) \<Longrightarrow> prepare_payload B rq = Inr rq' \<Longrightarrow> P (rq_fields rq')"
    and "\<not> has_line_break clientID" "\<not> has_line_break t" "\<not> has_line_break host"
    and "asyncHttpClient B net order draw msg host port clientID t = Inr x" "rq \<in> set (sent x)"
  shows "P (rq_fields rq)"
proof -
  have forward: "P (rq_fields rq2)" if "forward_headers B hs rq1 = Inr rq2" "P (rq_fields rq1)" for hs rq1 rq2
    using that assms(2)
    by (induction B hs rq1 rule: forward_headers.induct) (auto simp: result_simps clean_def split: if_splits)
  have names: "clean (''X-Arrived-time'', t)" "clean (''X-Client-ID'', clientID)" "clean (''Host'', host)"
    using assms(4-6) by (simp_all add: clean_def has_line_break_def)
  obtain rq0 f where rq0: "build_request B order msg clientID t = Inr rq0"
    "set_field B (rq_fields rq0) ''Host'' host = Inr f" "rq = rq0\<lparr>rq_fields := f\<rparr>"
    using asyncHttpClient_sent [OF assms(7,8)] by blast
  obtain hs v u verb rq3 f4 f5 body where b: "forward_headers B (order hs)
       ((set_version v ((new_request B)\<lparr>rq_method := verb\<rparr>))\<lparr>rq_target := u\<rparr>) = Inr rq3"
    "set_field B (rq_fields rq3) ''X-Arrived-time'' t = Inr f4"
    "set_field B f4 ''X-Client-ID'' clientID = Inr f5"
    "if body \<noteq> [] then prepare_payload B (rq3\<lparr>rq_fields := f5, rq_body := body\<rparr>) = Inr rq0
     else rq0 = rq3\<lparr>rq_fields := f5\<rparr>"
    using build_request_Inr [OF rq0(1)] by blast
  have "P (rq_fields rq3)" using forward [OF b(1)] assms(1) by (simp add: set_version_def)
  then have "P f5" using assms(2) b(2,3) names by blast
  then have "P (rq_fields rq0)" using b(4) assms(3) [of "rq3\<lparr>rq_fields := f5, rq_body := body\<rparr>" rq0]
    by (auto split: if_splits)
  then show ?thesis using assms(2) rq0(2,3) names(3) by auto
qed

lemma no_header_injection_witness:
  "list_all clean (rq_fields (hd (sent sample_outcome)))"
proof (rule no_header_injection [where P = "list_all clean", OF _ _ _ _ _ _ sample_outcome])
  show "list_all clean (rq_fields (new_request list_beast))" by (simp add: list_beast_def)
  show "list_all clean f'" if "list_all clean f" "clean (n, v)" "set_field list_beast f n v = Inr f'"
    for f n v f'
    using that by (auto simp: list_beast_def list_set_def list_all_iff)
  show "list_all clean (rq_fields rq')"
    if p: "list_all clean (rq_fields rq)" "prepare_payload list_beast rq = Inr rq'" for rq rq'
  proof -
    have "isdigit c" if "c \<in> set (show_nat n)" for c n using that show_nat_digits by blast
    then have "clean (''Content-Length'', show_nat n)" for n
      by (force simp: clean_def has_line_break_def isdigit_def code_def)
    with p show ?thesis by (auto simp: list_beast_def list_set_def list_all_iff)
  qed
qed (simp_all add: has_line_break_def sample_outcome_def)

text \<open>
  The port that is used is never quite the configured one: its last character is
  replaced by one of \<open>2\<close> to \<open>5\<close>, so a port that ends in another digit is never connected to,
  and a second message draws again from the same four ports.
\<close>

theorem used_port_range:
  assumes "asyncHttpClient B net order draw msg host port clientID t = Inr x"
  shows "used_port x \<in> (\<lambda>c. butlast port @ [c]) ` {CHR ''2'', CHR ''3'', CHR ''4'', CHR ''5''}
    \<and> (last port \<notin> {CHR ''2'', CHR ''3'', CHR ''4'', CHR ''5''} \<longrightarrow> used_port x \<noteq> port)
    \<and> (\<forall>d. \<exists>p. pick_port d (used_port x) = Inr p \<and>
         p \<in> (\<lambda>c. butlast port @ [c]) ` {CHR ''2'', CHR ''3'', CHR ''4'', CHR ''5''})"
proof -
  have digits: "char_of (48 + d mod 4 + 2) \<in> {CHR ''2'', CHR ''3'', CHR ''4'', CHR ''5''}" for d :: nat
  proof -
    have "d mod 4 = 0 \<or> d mod 4 = 1 \<or> d mod 4 = 2 \<or> d mod 4 = 3" by presburger
    moreover have "char_of (48 + 0 + 2 :: nat) = CHR ''2''" "char_of (48 + 1 + 2 :: nat) = CHR ''3''"
      "char_of (48 + 2 + 2 :: nat) = CHR ''4''" "char_of (48 + 3 + 2 :: nat) = CHR ''5''"
      by code_simp+
    ultimately show ?thesis by (elim disjE) simp_all
  qed
  have port: "port \<noteq> []" and used: "used_port x = butlast port @ [char_of (48 + draw mod 4 + 2)]"
    using asyncHttpClient_port [OF assms] by (auto simp: pick_port_def split: if_splits)
  then have "last port \<notin> {CHR ''2'', CHR ''3'', CHR ''4'', CHR ''5''} \<longrightarrow> used_port x \<noteq> port"
    using digits [of draw] by (metis last_snoc)
  then show ?thesis using used digits by (auto simp: pick_port_def)
qed

lemma used_port_range_witness: "used_port sample_outcome \<in> (\<lambda>c. butlast ''8082'' @ [c]) `
    {CHR ''2'', CHR ''3'', CHR ''4'', CHR ''5''}"
  using used_port_range [OF sample_outcome] by blast

end
