(* ===== verification/Cxx_Float.thy ===== *)
theory Cxx_Float
  imports Cxx_Strings
begin

text \<open>
  \<open>std::stof\<close>: which texts denote a floating-point number, and which number, after the
  description of \<open>strtof\<close> in the C standard. The number is kept exact, as digits and an exponent;
  its conversion to a \<open>float\<close> is a parameter, which gives no value where \<open>strtof\<close> reports
  \<open>ERANGE\<close>.
\<close>

section \<open>Literals\<close>

datatype float_literal =
    Decimal bool nat int      \<comment> \<open>negative, digits, power of ten\<close>
  | Hexadecimal bool nat int  \<comment> \<open>negative, digits, power of two\<close>
  | Infinite bool
  | NotANumber bool

definition is_hex :: "char \<Rightarrow> bool" where
  "is_hex c \<longleftrightarrow> isdigit c \<or> tolower c \<in> {CHR ''a'', CHR ''b'', CHR ''c'', CHR ''d'', CHR ''e'', CHR ''f''}"

definition hex_val :: "string \<Rightarrow> nat" where
  "hex_val ds = foldl (\<lambda>a c. 16 * a + (if isdigit c then code c - 48 else code (tolower c) - 87)) 0 ds"

definition scan_digits :: "(char \<Rightarrow> bool) \<Rightarrow> string \<Rightarrow> string \<times> string \<times> string" where
  \<comment> \<open>the digits before and after the point, and what follows\<close>
  "scan_digits is_dig s =
     (let r = dropWhile is_dig s
      in if r \<noteq> [] \<and> hd r = CHR ''.'' then (takeWhile is_dig s, takeWhile is_dig (tl r), dropWhile is_dig (tl r))
         else (takeWhile is_dig s, [], r))"

definition scan_exponent :: "char \<Rightarrow> string \<Rightarrow> int" where
  \<comment> \<open>an exponent without digits is not part of the number\<close>
  "scan_exponent mark s =
     (if s \<noteq> [] \<and> tolower (hd s) = mark then
        (let (neg, r) = skip_sign (tl s); e = int (digits_val (takeWhile isdigit r))
         in if neg then - e else e)
      else 0)"

definition float_scan :: "string \<Rightarrow> float_literal option" where
  \<comment> \<open>the literal that the longest prefix of a C string denotes; \<open>None\<close>: no conversion\<close>
  "float_scan s =
     (let (neg, s1) = skip_sign (dropWhile isspace s);
          low = map tolower s1;
          (ds, fs, r) = scan_digits isdigit s1;
          (hds, hfs, hr) = scan_digits is_hex (drop 2 s1)
      in if take 3 low = ''inf'' then Some (Infinite neg)
         else if take 3 low = ''nan'' then Some (NotANumber neg)
         else if take 2 low = ''0x'' \<and> hds @ hfs \<noteq> [] then
           Some (Hexadecimal neg (hex_val (hds @ hfs)) (scan_exponent (CHR ''p'') hr - 4 * int (length hfs)))
         else if ds @ fs \<noteq> [] then
           Some (Decimal neg (digits_val (ds @ fs)) (scan_exponent (CHR ''e'') r - int (length fs)))
         else None)"

definition stof :: "(float_literal \<Rightarrow> 'f option) \<Rightarrow> string \<Rightarrow> 'f result" where
  "stof nearest s =
     (case float_scan (c_str s) of
        None \<Rightarrow> Inl InvalidArgument
      | Some x \<Rightarrow> (case nearest x of None \<Rightarrow> Inl OutOfRange | Some v \<Rightarrow> Inr v))"

lemma float_scan_examples:
  "float_scan ''-2.50e1x'' = Some (Decimal True 250 (-1))" "float_scan ''.5'' = Some (Decimal False 5 (-1))"
  "float_scan ''0x1.8p3'' = Some (Hexadecimal False 24 (-1))" "float_scan '' Infinity'' = Some (Infinite False)"
  "float_scan ''1e+'' = Some (Decimal False 1 0)" "float_scan ''e5'' = None" "float_scan ''.'' = None"
  by code_simp+

text \<open>An integer that was printed is read as that integer.\<close>

lemma take_digits_low: "isdigit c \<Longrightarrow> tolower c = c \<and> c \<noteq> CHR ''i'' \<and> c \<noteq> CHR ''n''"
  by (auto simp: isdigit_def tolower_def code_def)

lemma show_nat_hex: "\<not> (map tolower (show_nat n) = CHR ''0'' # CHR ''x'' # s)"
proof
  assume "map tolower (show_nat n) = CHR ''0'' # CHR ''x'' # s"
  then have "CHR ''x'' \<in> tolower ` set (show_nat n)" by (metis list.set_intros list.set_map)
  then obtain c where "c \<in> set (show_nat n)" "tolower c = CHR ''x''" by auto
  moreover have "isdigit c" using show_nat_digits calculation(1) .
  ultimately show False using take_digits_low [of c] by (auto simp: isdigit_def code_def)
qed

lemma float_scan_show_int: "float_scan (show_int i) = Some (Decimal (i < 0) (nat \<bar>i\<bar>) 0)"
proof -
  let ?n = "show_nat (nat \<bar>i\<bar>)"
  obtain c cs where c: "?n = c # cs" "isdigit c" using show_nat_Cons by blast
  have sign: "skip_sign (dropWhile isspace (show_int i)) = (i < 0, ?n)"
  proof (cases "i < 0")
    case True
    then show ?thesis by (simp add: show_int_def isspace_def)
  next
    case False
    then have "show_int i = c # cs" using c(1) by (simp add: show_int_def)
    then show ?thesis using c False digit_not_space [of c] skip_sign_digit [of c cs] by simp
  qed
  have digs: "scan_digits isdigit ?n = (?n, [], [])"
    using span_show_nat [of "[]" "nat \<bar>i\<bar>"] by (simp add: scan_digits_def)
  have low: "take 3 (map tolower ?n) \<noteq> ''inf''" "take 3 (map tolower ?n) \<noteq> ''nan''"
    using c take_digits_low [of c] by simp_all
  have hex: "take 2 (map tolower ?n) \<noteq> ''0x''"
    using show_nat_hex append_take_drop_id [of 2 "map tolower ?n"] by (metis append_Cons append_Nil)
  show ?thesis
    using low hex by (simp add: float_scan_def sign digs scan_exponent_def split: prod.splits)
qed

lemma stof_errors: "stof nearest s = Inl e \<Longrightarrow> e = InvalidArgument \<or> e = OutOfRange"
  by (auto simp: stof_def split: option.splits)

end
