(* ===== verification/Env_Config.thy ===== *)
theory Env_Config
  imports Tokens Cxx_Float
begin

text \<open>
  \<open>src/src/utilis/env.h\<close> and \<open>src/src/config.h\<close>: reading typed values from the
  process environment with defaults, and the \<open>Config\<close> constructor with its narrowing casts.
  The environment is a partial map from names to values.
\<close>

section \<open>EnvUtils\<close>

type_synonym environment = "string \<Rightarrow> string option"

definition getEnvString :: "environment \<Rightarrow> string \<Rightarrow> string \<Rightarrow> string" where
  "getEnvString env varName defaultValue =
     (case env varName of
        None \<Rightarrow> defaultValue
      | Some val \<Rightarrow> if val = [] then defaultValue else val)"

definition getEnvInt :: "environment \<Rightarrow> string \<Rightarrow> int \<Rightarrow> int" where
  "getEnvInt env varName defaultValue =
     (case env varName of
        None \<Rightarrow> defaultValue
      | Some val \<Rightarrow>
          if val = [] then defaultValue
          else (case stoi val of Inl _ \<Rightarrow> defaultValue | Inr v \<Rightarrow> v))"

definition getEnvFloat :: "(float_literal \<Rightarrow> 'f option) \<Rightarrow> environment \<Rightarrow> string \<Rightarrow> 'f \<Rightarrow> 'f" where
  "getEnvFloat nearest env varName defaultValue =
     (case env varName of
        None \<Rightarrow> defaultValue
      | Some val \<Rightarrow>
          if val = [] then defaultValue
          else (case stof nearest val of Inl _ \<Rightarrow> defaultValue | Inr v \<Rightarrow> v))"

lemma getEnvString_nonempty: "d \<noteq> [] \<Longrightarrow> getEnvString env k d \<noteq> []"
  by (simp add: getEnvString_def split: option.splits)

lemma getEnvInt_range: "int_min \<le> d \<Longrightarrow> d \<le> int_max \<Longrightarrow>
    int_min \<le> getEnvInt env k d \<and> getEnvInt env k d \<le> int_max"
  using stoi_range by (auto simp: getEnvInt_def split: option.splits sum.splits)

lemma getEnvInt_show_int:
  assumes "env k = Some (show_int i)" "int_min \<le> i" "i \<le> int_max"
  shows "getEnvInt env k d = i"
proof -
  have "show_int i \<noteq> []" by (simp add: show_int_def)
  with assms show ?thesis by (simp add: getEnvInt_def stoi_show_int)
qed

lemma getEnvFloat_show_int:
  assumes "env k = Some (show_int i)" "nearest (Decimal (i < 0) (nat \<bar>i\<bar>) 0) = Some v"
  shows "getEnvFloat nearest env k d = v"
proof -
  have "show_int i \<noteq> []" "c_str (show_int i) = show_int i" by (simp_all add: show_int_def)
  with assms show ?thesis by (simp add: getEnvFloat_def stof_def float_scan_show_int)
qed

section \<open>Config\<close>

datatype addr_family = IP_4 | IP_6 | UNSPEC

record config =
  host_ip :: string
  server_address :: string
  network_family_type :: addr_family
  number_of_ports :: uint8
  base_port :: uint16
  http_request_address :: string
  http_request_port :: string
  number_of_worker_threads :: uint32
  number_of_io_threads :: uint32
  number_of_timer_threads :: uint32
  scylladb_address :: string
  scylladb_port :: string
  scylladb_keyspace_name :: string
  scylladb_replication_factor :: uint32
  scylladb_strategy :: string
  scylladb_table_name :: string
  use_mtls :: bool
  mtls_base_port :: uint16
  server_cert_filename :: string
  cert_dirname :: string
  private_key_filename :: string
  ca_key_file_name :: string
  server_phrase :: string

definition Config_of :: "string \<Rightarrow> environment \<Rightarrow> config" where
  \<comment> \<open>the constructor's assignments after the host lookup; \<open>hip\<close> is \<open>host_ip\<close>\<close>
  "Config_of hip env = \<lparr>
     host_ip = hip,
     server_address = getEnvString env ''WSS_ADDRESS'' ''0.0.0.0'',
     network_family_type = IP_4,
     number_of_ports = word_of_int (getEnvInt env ''WSS_NUMBER_OF_PORTS'' 24),
     base_port = word_of_int (getEnvInt env ''WSS_PORT'' 8020),
     http_request_address = getEnvString env ''WSS_HTTP_REQUEST_ADDRESS'' ''127.0.0.1'',
     http_request_port = getEnvString env ''WSS_HTTP_REQUEST_PORT'' ''8082'',
     number_of_worker_threads = word_of_int (getEnvInt env ''WSS_NUMBER_OF_WORKER_THREADS'' 24),
     number_of_io_threads = word_of_int (getEnvInt env ''WSS_NUMBER_OF_IO_THREADS'' 24),
     number_of_timer_threads = word_of_int (getEnvInt env ''WSS_NUMBER_OF_TIMER_THREADS'' 2),
     scylladb_address = getEnvString env ''WSS_SCYLLA_DB_ADDRESS'' ''127.0.0.1'',
     scylladb_port = getEnvString env ''WSS_SCYLLADB_PORT'' ''9042'',
     scylladb_keyspace_name = getEnvString env ''WSS_SCYLLADB_KEYSPACE_NAME'' ''vin'',
     scylladb_replication_factor =
       word_of_int (getEnvInt env ''WSS_SCYLLADB_REPLICATION_FACTOR'' 3),
     scylladb_strategy = getEnvString env ''WSS_SCYLLADB_STRATEGY'' ''NetworkTopologyStrategy'',
     scylladb_table_name = getEnvString env ''WSS_SCYLLADB_TABLE_NAME'' ''vehicles'',
     use_mtls = (map tolower (getEnvString env ''WSS_USE_MTLS'' ''false'') = ''true''),
     mtls_base_port = word_of_int (getEnvInt env ''WSS_MTLS_BASE_PORT'' 8443),
     server_cert_filename = getEnvString env ''WSS_SERVER_CERTIFICATE_FILE_NAME'' ''server.crt'',
     cert_dirname = getEnvString env ''WSS_CA_DIRECTORY_NAME'' [],
     private_key_filename = getEnvString env ''WSS_PRIVATE_KEY_FILE_NAME'' ''server.key'',
     ca_key_file_name = getEnvString env ''WSS_CA_FILE_NAME'' ''ca.crt'',
     server_phrase = getEnvString env ''WSS_SERVER_PHRASE'' ''1234567890''\<rparr>"

definition Config :: "os_net \<Rightarrow> environment \<Rightarrow> config result" where
  \<comment> \<open>\<open>host_ip\<close> stays the empty string where the host lookup fails\<close>
  "Config os env =
     and_then (getHostAndIP os) (\<lambda>(host, ip, err).
       Inr (Config_of (if err \<noteq> 0 then [] else host) env))"

definition config_keys :: "string list" where
  \<comment> \<open>the variables the constructor reads\<close>
  "config_keys =
     [''WSS_ADDRESS'', ''WSS_NUMBER_OF_PORTS'', ''WSS_PORT'', ''WSS_HTTP_REQUEST_ADDRESS'',
      ''WSS_HTTP_REQUEST_PORT'', ''WSS_NUMBER_OF_WORKER_THREADS'',
      ''WSS_NUMBER_OF_IO_THREADS'', ''WSS_NUMBER_OF_TIMER_THREADS'', ''WSS_SCYLLA_DB_ADDRESS'',
      ''WSS_SCYLLADB_PORT'', ''WSS_SCYLLADB_KEYSPACE_NAME'', ''WSS_USE_MTLS'',
      ''WSS_SCYLLADB_REPLICATION_FACTOR'', ''WSS_SCYLLADB_STRATEGY'',
      ''WSS_SCYLLADB_TABLE_NAME'', ''WSS_CA_FILE_NAME'', ''WSS_CA_DIRECTORY_NAME'',
      ''WSS_MTLS_BASE_PORT'', ''WSS_PRIVATE_KEY_FILE_NAME'',
      ''WSS_SERVER_CERTIFICATE_FILE_NAME'', ''WSS_SERVER_PHRASE'']"

section \<open>Properties\<close>

definition sample_os :: os_net where
  "sample_os = \<lparr>os_gethostname = Some ''gw1'', os_gethostbyname = (\<lambda>_. Some [0x0A000001]),
     os_inet_ntoa = (\<lambda>_. Some ''10.0.0.1''), os_strerror = ''no error''\<rparr>"

lemma Config_sample: "Config sample_os env = Inr (Config_of ''gw1'' env)"
  by (simp add: Config_def getHostAndIP_def sample_os_def)

lemma Config_of_cong:
  assumes "\<forall>k \<in> set config_keys. env k = env' k"
  shows "Config_of hip env = Config_of hip env'"
proof -
  have keys: "list_all (\<lambda>k. env k = env' k) config_keys" using assms by (simp add: list_all_iff)
  show ?thesis
    by (simp only: Config_of_def getEnvString_def getEnvInt_def
        keys [unfolded config_keys_def list.pred_inject])
qed

text \<open>
  C32. The configuration is a function of the listed variables only. \<open>WSS_BASE_PORT\<close>, which
  \<open>env.conf\<close> and the Dockerfile set, is not among them: no value of it has any effect.
\<close>

theorem Config_reads_only_keys:
  "((\<forall>k \<in> set config_keys. env k = env' k) \<longrightarrow> Config os env = Config os env')
   \<and> Config os (env(''WSS_BASE_PORT'' := v)) = Config os env"
proof (intro conjI impI)
  assume "\<forall>k \<in> set config_keys. env k = env' k"
  then show "Config os env = Config os env'" using Config_of_cong [of env env'] by (simp add: Config_def)
next
  have "\<forall>k \<in> set config_keys. (env(''WSS_BASE_PORT'' := v)) k = env k"
    by (simp add: config_keys_def)
  then show "Config os (env(''WSS_BASE_PORT'' := v)) = Config os env"
    using Config_of_cong [of "env(''WSS_BASE_PORT'' := v)" env] by (simp add: Config_def)
qed

lemma Config_reads_only_keys_witness:
  "Config sample_os [''HOME'' \<mapsto> ''/root''] = Config sample_os Map.empty
   \<and> Config sample_os [''WSS_BASE_PORT'' \<mapsto> ''8040''] = Config sample_os Map.empty"
  using Config_reads_only_keys [of "[''HOME'' \<mapsto> ''/root'']" Map.empty sample_os None]
    Config_reads_only_keys [of Map.empty Map.empty sample_os "Some ''8040''"]
  by (simp add: config_keys_def)

lemma Config_Inr: "Config os env = Inr c \<Longrightarrow> \<exists>hip. c = Config_of hip env"
  by (auto simp: Config_def result_simps)

lemma sint_uint32: "int_min \<le> i \<Longrightarrow> i \<le> int_max \<Longrightarrow> sint (word_of_int i :: uint32) = i"
  by (simp add: int_min_def int_max_def sint_sbintrunc' signed_take_bit_int_eq_self)

definition numbers_of :: "config \<Rightarrow> (string \<times> int \<times> nat \<times> int) list" where
  \<comment> \<open>specification: variable, default, width in bits, and the field it ends up in\<close>
  "numbers_of c =
     [(''WSS_NUMBER_OF_PORTS'', 24, 8, uint (number_of_ports c)),
      (''WSS_PORT'', 8020, 16, uint (base_port c)),
      (''WSS_MTLS_BASE_PORT'', 8443, 16, uint (mtls_base_port c)),
      (''WSS_NUMBER_OF_WORKER_THREADS'', 24, 32, uint (number_of_worker_threads c)),
      (''WSS_NUMBER_OF_IO_THREADS'', 24, 32, uint (number_of_io_threads c)),
      (''WSS_NUMBER_OF_TIMER_THREADS'', 2, 32, uint (number_of_timer_threads c)),
      (''WSS_SCYLLADB_REPLICATION_FACTOR'', 3, 32, uint (scylladb_replication_factor c))]"

lemma numbers_read:
  "\<forall>(k, d, b, v) \<in> set (numbers_of (Config_of hip env)). v = getEnvInt env k d mod 2 ^ b \<and> d mod 2 ^ b = d"
  by (simp add: numbers_of_def Config_of_def uint_word_of_int)

text \<open>
  C31. Every number of the configuration, each from its own variable: the number of ports,
  the two base ports, the three numbers of threads and the replication factor. A decimal text
  that fits \<open>int\<close> gives the number modulo \<open>2^8\<close> for the number of ports, \<open>2^16\<close> for a port and \<open>2^32\<close>
  for the others; an absent or empty variable, or a text that \<open>std::stoi\<close> rejects, gives the
  default. The replication factor, which is stored as unsigned and passed on as \<open>int\<close>, keeps its
  signed value.
\<close>

theorem Config_numbers:
  assumes "Config os env = Inr c"
  shows "(\<forall>(k, d, b, v) \<in> set (numbers_of c).
        (\<forall>i. env k = Some (show_int i) \<and> int_min \<le> i \<and> i \<le> int_max \<longrightarrow> v = i mod 2 ^ b)
      \<and> (env k = None \<or> env k = Some [] \<or> (\<exists>t e. env k = Some t \<and> stoi t = Inl e) \<longrightarrow> v = d))
    \<and> sint (scylladb_replication_factor c) = getEnvInt env ''WSS_SCYLLADB_REPLICATION_FACTOR'' 3"
proof -
  obtain hip where c: "c = Config_of hip env" using assms Config_Inr by blast
  have "sint (scylladb_replication_factor c) = getEnvInt env ''WSS_SCYLLADB_REPLICATION_FACTOR'' 3"
    using getEnvInt_range [of 3 env] by (simp add: c Config_of_def sint_uint32 int_min_def int_max_def)
  moreover have "(\<forall>i. env k = Some (show_int i) \<and> int_min \<le> i \<and> i \<le> int_max \<longrightarrow> v = i mod 2 ^ b)
      \<and> (env k = None \<or> env k = Some [] \<or> (\<exists>t e. env k = Some t \<and> stoi t = Inl e) \<longrightarrow> v = d)"
    if "(k, d, b, v) \<in> set (numbers_of c)" for k d b v
  proof -
    have v: "v = getEnvInt env k d mod 2 ^ b" "d mod 2 ^ b = d" using numbers_read that c by blast+
    have "getEnvInt env k d = d" if "env k = None \<or> env k = Some [] \<or> (\<exists>t e. env k = Some t \<and> stoi t = Inl e)"
      using that by (auto simp: getEnvInt_def)
    then show ?thesis using v getEnvInt_show_int by metis
  qed
  ultimately show ?thesis by blast
qed

lemma Config_numbers_witness:
  "uint (number_of_ports (Config_of ''gw1'' [''WSS_NUMBER_OF_PORTS'' \<mapsto> ''256''])) = 0
    \<and> uint (number_of_timer_threads (Config_of ''gw1'' [''WSS_NUMBER_OF_PORTS'' \<mapsto> ''256''])) = 2"
proof -
  let ?env = "[''WSS_NUMBER_OF_PORTS'' \<mapsto> ''256'']"
  have t: "show_int 256 = ''256''" by code_simp
  note numbers = Config_numbers [OF Config_sample [of ?env], THEN conjunct1]
  have "(''WSS_NUMBER_OF_PORTS'', 24, 8, uint (number_of_ports (Config_of ''gw1'' ?env))) \<in> set (numbers_of (Config_of ''gw1'' ?env))"
    "(''WSS_NUMBER_OF_TIMER_THREADS'', 2, 32, uint (number_of_timer_threads (Config_of ''gw1'' ?env)))
      \<in> set (numbers_of (Config_of ''gw1'' ?env))"
    by (simp_all only: numbers_of_def list.set insert_iff simp_thms)
  note read = bspec [OF numbers this(1)] bspec [OF numbers this(2)]
  have "uint (number_of_ports (Config_of ''gw1'' ?env)) = 256 mod 2 ^ 8"
  proof -
    have "?env ''WSS_NUMBER_OF_PORTS'' = Some (show_int 256) \<and> int_min \<le> 256 \<and> 256 \<le> int_max"
      by (simp add: t int_min_def int_max_def)
    with read(1) show ?thesis unfolding prod.case by blast
  qed
  moreover have "uint (number_of_timer_threads (Config_of ''gw1'' ?env)) = 2" using read(2) by simp
  ultimately show ?thesis by simp
qed

text \<open>
  No address, port or file name of a configuration is ever the empty string, whatever the
  environment holds: an empty value counts as absent. In particular the port of the backend
  has a last character.
\<close>

theorem Config_nonempty:
  assumes "Config os env = Inr c"
  shows "server_address c \<noteq> [] \<and> http_request_address c \<noteq> [] \<and> http_request_port c \<noteq> []
    \<and> scylladb_address c \<noteq> [] \<and> scylladb_port c \<noteq> [] \<and> scylladb_keyspace_name c \<noteq> []
    \<and> scylladb_table_name c \<noteq> [] \<and> server_cert_filename c \<noteq> [] \<and> private_key_filename c \<noteq> []
    \<and> ca_key_file_name c \<noteq> [] \<and> server_phrase c \<noteq> []"
proof -
  obtain hip where "c = Config_of hip env" using assms Config_Inr by blast
  then show ?thesis by (simp add: Config_of_def getEnvString_nonempty)
qed

lemma Config_nonempty_witness:
  "http_request_port (Config_of ''gw1'' [''WSS_HTTP_REQUEST_PORT'' \<mapsto> []]) \<noteq> []"
  using Config_nonempty [OF Config_sample] by blast

end
