(* ===== verification/Listener.thy ===== *)
theory Listener
  imports Registry Http_Client Env_Config
begin

text \<open>
  \<open>src/src/websocket/WebSocketListener.h\<close> and \<open>WebSocketListener.cpp\<close>: the listener of one
  socket, which collects the frames of a message and spawns the HTTP request for it, the
  handler of that request's result, and the instance listener, which registers a new
  connection and takes it out again. Calls on a socket are returned as values. The
  \<open>boost::asio\<close> and \<open>oatpp\<close> executors, and the order in which they run what is spawned, belong
  to the theory \<open>Gateway\<close>. The cached pointer to the registry always ends up at the one
  instance and is left out.
\<close>

section \<open>The listener of a socket\<close>

record listener =
  m_messageBuffer :: string
  clientID :: string
  http_server_address :: string
  http_server_port :: string

definition WebSocketListener :: "string \<Rightarrow> string \<Rightarrow> string \<Rightarrow> listener" where
  \<comment> \<open>the constructor also calls \<open>restart\<close> on the shared \<open>io_context\<close>, which has no data here\<close>
  "WebSocketListener ident host port =
     \<lparr>m_messageBuffer = [], clientID = ident, http_server_address = host, http_server_port = port\<rparr>"

definition onPing :: "'s \<Rightarrow> string \<Rightarrow> ('s \<times> socket_call) list" where
  "onPing socket message = [(socket, SendPong message)]"

definition onPong :: "'s \<Rightarrow> string \<Rightarrow> ('s \<times> socket_call) list" where
  "onPong socket message = []"

definition onClose ::
    "'w driver \<Rightarrow> scylla_manager \<Rightarrow> listener \<Rightarrow> uint16 \<Rightarrow> string \<Rightarrow> ('s, 'w) registry \<Rightarrow> ('s, 'w) registry" where
  "onClose exec m l close_code message r = setClientNotAvailable exec m (clientID l) r"

text \<open>
  A frame of size zero ends the message: the buffer is handed to a new coroutine with the
  arrival time and reset. \<open>now\<close> is the clock's count of nanoseconds.
\<close>

definition readMessage :: "listener \<Rightarrow> string \<Rightarrow> int \<Rightarrow> int \<Rightarrow> listener \<times> (string \<times> string) option" where
  "readMessage l data sz now =
     (if sz = 0 then (l\<lparr>m_messageBuffer := []\<rparr>, Some (m_messageBuffer l, show_int now))
      else if 0 < sz then
        (l\<lparr>m_messageBuffer := m_messageBuffer l @ take (nat sz) data\<rparr>, None)
      else (l, None))"

definition SendMessageCoroutine :: "'s \<Rightarrow> string \<Rightarrow> ('s \<times> socket_call) list" where
  \<comment> \<open>the call that \<open>act\<close> makes when the executor runs the coroutine\<close>
  "SendMessageCoroutine socket message = [(socket, SendOneFrameText message)]"

definition on_result :: "'s \<Rightarrow> string result \<Rightarrow> ('s \<times> socket_call) list" where
  \<comment> \<open>the completion handler of \<open>co_spawn\<close>: an exception is only logged. The coroutine is handed to
     the executor, and the call recorded here is the one it will make; \<open>Delivery\<close> has the two as
     separate steps.\<close>
  "on_result socket r =
     (case r of
        Inl e \<Rightarrow> []
      | Inr result \<Rightarrow> if result \<noteq> [] then SendMessageCoroutine socket result else [])"

section \<open>The instance listener\<close>

record ('s, 'w) gateway =
  SOCKETS :: uint32
  registry :: "('s, 'w) registry"
  listeners :: "'s \<Rightarrow> listener option"

type_synonym parameter_map = "string \<Rightarrow> string option option"
  \<comment> \<open>a parameter that is present may still be a null string\<close>

record certificate =
  commonName :: "string option"
  organizationName :: "string option"

definition text_by_NID :: "string option \<Rightarrow> string result" where
  \<comment> \<open>\<open>X509_NAME_get_text_by_NID\<close> into a buffer of 256 characters, which is then read as a C
     string: a name without that entry leaves the buffer as it was, uninitialised\<close>
  "text_by_NID entry =
     (case entry of
        None \<Rightarrow> Inl (UndefinedBehaviour ''uninitialised buffer'')
      | Some name \<Rightarrow> Inr (c_str (take 255 name)))"

definition peer_common_name :: "config \<Rightarrow> certificate option \<Rightarrow> string result" where
  \<comment> \<open>the common name of the peer's certificate, where there is one; the organization is only
     logged\<close>
  "peer_common_name cfg peer =
     (if use_mtls cfg then
        (case peer of
           None \<Rightarrow> Inr []
         | Some cert \<Rightarrow>
             and_then (text_by_NID (commonName cert)) (\<lambda>cn.
             and_then (text_by_NID (organizationName cert)) (\<lambda>on.
               Inr cn)))
      else Inr [])"

definition onAfterCreate ::
    "'w driver \<Rightarrow> scylla_manager \<Rightarrow> config \<Rightarrow> 's \<Rightarrow> parameter_map \<Rightarrow> certificate option
       \<Rightarrow> ('s, 'w) gateway
       \<Rightarrow> (('s, 'w) gateway \<times> ('s \<times> socket_call) list) result" where
  "onAfterCreate exec m cfg socket params peer g =
     (let g1 = g\<lparr>SOCKETS := SOCKETS g + 1\<rparr>
      in case params ''ClientId'' of
           None \<Rightarrow> Inl (UndefinedBehaviour ''dereference of the end iterator'')
         | Some None \<Rightarrow> Inl (UndefinedBehaviour ''null ClientId'')
         | Some (Some clientId) \<Rightarrow>
             (let calls = (if clientId = [] then [(socket, SendClose 2 ''ClientId paramter is empty'')]
                           else [])
              in and_then (peer_common_name cfg peer) (\<lambda>common_name.
                let g2 = g1\<lparr>registry := addClient exec m clientId socket (registry g1)\<rparr>;
                    l = WebSocketListener clientId (http_request_address cfg) (http_request_port cfg)
                in Inr (g2\<lparr>listeners := (listeners g2)(socket \<mapsto> l)\<rparr>, calls))))"

definition onBeforeDestroy ::
    "'w driver \<Rightarrow> scylla_manager \<Rightarrow> 's \<Rightarrow> ('s, 'w) gateway \<Rightarrow> ('s, 'w) gateway result" where
  "onBeforeDestroy exec m socket g =
     (let g1 = g\<lparr>SOCKETS := SOCKETS g - 1\<rparr>
      in case listeners g1 socket of
           None \<Rightarrow> Inl (UndefinedBehaviour ''null listener'')
         | Some l \<Rightarrow> Inr (g1\<lparr>registry := onClose exec m l 0
               ''got close from onBeforeDestroy_NonBlocking'' (registry g1)\<rparr>))"

section \<open>Messages out of frames\<close>

fun read_frames :: "listener \<Rightarrow> (string \<times> int) list \<Rightarrow> listener \<times> (string \<times> string) list" where
  \<comment> \<open>the listener fed a list of frames, each with the time of its arrival\<close>
  "read_frames l [] = (l, [])"
| "read_frames l ((data, now) # fs) =
     (let (l', spawned) = readMessage l data (int (length data)) now;
          (l'', jobs) = read_frames l' fs
      in (l'', (case spawned of None \<Rightarrow> jobs | Some j \<Rightarrow> j # jobs)))"

lemma readMessage_frame:
  "readMessage l data (int (length data)) now =
     (if data = [] then (l\<lparr>m_messageBuffer := []\<rparr>, Some (m_messageBuffer l, show_int now))
      else (l\<lparr>m_messageBuffer := m_messageBuffer l @ data\<rparr>, None))"
  by (simp add: readMessage_def)

lemma pieces_Cons: "pieces d (c # cs) =
    (if c = d then [] # pieces d cs else (c # hd (pieces d cs)) # tl (pieces d cs))"
  by (cases "pieces d cs") auto

definition message_texts :: "string \<Rightarrow> string list \<Rightarrow> string list" where
  \<comment> \<open>specification: the frames between two empty ones are one message\<close>
  "message_texts buffer frames =
     (case map concat (pieces [] frames) of
        [] \<Rightarrow> []
      | t # ts \<Rightarrow> (buffer @ t) # ts)"

lemma message_texts_Nil [simp]: "message_texts b [] = [b]"
  by (simp add: message_texts_def)

lemma message_texts_Cons:
  "message_texts b (f # fs) = (if f = [] then b # message_texts [] fs else message_texts (b @ f) fs)"
proof (cases "pieces [] fs")
  case Nil
  then show ?thesis using pieces_nonempty [of "[]" fs] by simp
next
  case (Cons p ps)
  then show ?thesis by (simp add: message_texts_def)
qed

lemma message_texts_nonempty [simp]: "message_texts b fs \<noteq> []"
  by (induction fs arbitrary: b) (auto simp: message_texts_Cons)

text \<open>
  C22. The listener cuts the frame stream exactly at the empty frames: the messages it hands
  on are the concatenations of the frames between them, in order, each once, the unfinished
  rest stays in its buffer, and nothing else of the listener changes.
\<close>

theorem read_frames_messages:
  "map fst (snd (read_frames l fs)) @ [m_messageBuffer (fst (read_frames l fs))]
     = message_texts (m_messageBuffer l) (map fst fs)
   \<and> (fst (read_frames l fs))\<lparr>m_messageBuffer := []\<rparr> = l\<lparr>m_messageBuffer := []\<rparr>"
proof (induction fs arbitrary: l)
  case (Cons f fs)
  obtain data now where f: "f = (data, now)" by fastforce
  show ?case
    using Cons [of "l\<lparr>m_messageBuffer := []\<rparr>"] Cons [of "l\<lparr>m_messageBuffer := m_messageBuffer l @ data\<rparr>"]
    by (auto simp: f readMessage_frame message_texts_Cons split: prod.splits)
qed simp

section \<open>Registering and closing\<close>

definition peer_readable :: "config \<Rightarrow> certificate option \<Rightarrow> bool" where
  "peer_readable cfg peer \<longleftrightarrow>
     (use_mtls cfg \<longrightarrow> (\<forall>cert. peer = Some cert \<longrightarrow> commonName cert \<noteq> None \<and> organizationName cert \<noteq> None))"

lemma peer_readable_None [simp]: "peer_readable cfg None"
  by (simp add: peer_readable_def)

lemma peer_common_name_Inr: "(\<exists>cn. peer_common_name cfg peer = Inr cn) \<longleftrightarrow> peer_readable cfg peer"
  by (auto simp: peer_common_name_def peer_readable_def text_by_NID_def split: option.splits)

lemma onAfterCreate_Inr:
  "onAfterCreate exec m cfg s params peer g = Inr (g', calls) \<longleftrightarrow>
     (\<exists>k. params ''ClientId'' = Some (Some k) \<and> peer_readable cfg peer
        \<and> g' = g\<lparr>SOCKETS := SOCKETS g + 1,
                  registry := addClient exec m k s (registry g),
                  listeners := (listeners g)(s \<mapsto>
                    WebSocketListener k (http_request_address cfg) (http_request_port cfg))\<rparr>
        \<and> calls = (if k = [] then [(s, SendClose 2 ''ClientId paramter is empty'')] else []))"
  by (auto simp: onAfterCreate_def Let_def and_then_eq_Inr peer_common_name_Inr [symmetric]
      split: option.splits)

lemma onBeforeDestroy_Inr:
  "onBeforeDestroy exec m s g = Inr g' \<longleftrightarrow>
     (\<exists>l. listeners g s = Some l
        \<and> g' = g\<lparr>SOCKETS := SOCKETS g - 1,
                  registry := setClientNotAvailable exec m (clientID l) (registry g)\<rparr>)"
  by (auto simp: onBeforeDestroy_def onClose_def Let_def split: option.splits)

text \<open>
  C23. A connection is registered under the id of its path and under nothing else: every call
  with an id succeeds, an empty id included, where the entries of the peer's certificate can
  be read; it makes the id lead to the new socket and gives the socket a listener for that id
  with an empty buffer and the configured backend. The outcome is the same for every other
  readable certificate and with TLS switched off, while a certificate without a common name
  or an organization has undefined behaviour.
\<close>

theorem connection_identity:
  assumes "params ''ClientId'' = Some (Some k)"
  shows "(peer_readable cfg peer \<longrightarrow>
      (\<exists>g' calls. onAfterCreate exec m cfg s params peer g = Inr (g', calls)
         \<and> clients (registry g') = (clients (registry g))(k \<mapsto> s)
         \<and> listeners g' s = Some \<lparr>m_messageBuffer = [], clientID = k,
             http_server_address = http_request_address cfg,
             http_server_port = http_request_port cfg\<rparr>
         \<and> (\<forall>peer' b. peer_readable cfg peer' \<or> \<not> b \<longrightarrow>
              onAfterCreate exec m (cfg\<lparr>use_mtls := use_mtls cfg \<and> b\<rparr>) s params peer' g = Inr (g', calls))))
    \<and> (\<not> peer_readable cfg peer \<longrightarrow>
      (\<exists>what. onAfterCreate exec m cfg s params peer g = Inl (UndefinedBehaviour what)))"
proof
  have "\<exists>what. onAfterCreate exec m cfg s params peer g = Inl (UndefinedBehaviour what)"
    if "\<not> peer_readable cfg peer"
    using that assms
    by (auto simp: onAfterCreate_def peer_common_name_def peer_readable_def text_by_NID_def and_then_eq_Inl
        Let_def split: option.splits)
  then show "\<not> peer_readable cfg peer \<longrightarrow>
      (\<exists>what. onAfterCreate exec m cfg s params peer g = Inl (UndefinedBehaviour what))" by blast
qed (use assms in \<open>auto simp: onAfterCreate_Inr peer_readable_def WebSocketListener_def\<close>)

definition fresh_gateway :: "'w \<Rightarrow> ('s, 'w) gateway" where
  \<comment> \<open>the state before the first connection\<close>
  "fresh_gateway w = \<lparr>SOCKETS = 0, registry = \<lparr>clients = Map.empty, db = w\<rparr>, listeners = Map.empty\<rparr>"

lemma connection_identity_witness:
  "\<exists>g' calls. onAfterCreate (cql_exec ''vin'' ''vehicles'') (default_manager ''gw1'')
       (Config_of ''gw1'' Map.empty) (1::nat) [''ClientId'' \<mapsto> Some ''V1''] None (fresh_gateway Map.empty) = Inr (g', calls)
     \<and> clients (registry g') ''V1'' = Some 1"
proof -
  let ?p = "[''ClientId'' \<mapsto> Some ''V1'']"
  have k: "?p ''ClientId'' = Some (Some ''V1'')" by simp
  have ok: "peer_readable (Config_of ''gw1'' Map.empty) None" by simp
  note connection_identity [of ?p "''V1''" "Config_of ''gw1'' Map.empty" None
      "cql_exec ''vin'' ''vehicles''" "default_manager ''gw1''" "1::nat" "fresh_gateway Map.empty",
      OF k, THEN conjunct1, THEN mp, OF ok]
  then show ?thesis by (elim exE conjE) (intro exI conjI, assumption, simp only: fun_upd_same)
qed

text \<open>
  C24. A client that reconnects before its old socket is destroyed is lost: when the old
  socket goes, the id is taken out of the registry although it leads to the new socket, whose
  listener still serves that id.
\<close>

theorem old_socket_unregisters_new:
  assumes "onAfterCreate exec m cfg s1 params1 peer1 g = Inr (g1, c1)"
    and "onAfterCreate exec m cfg s2 params2 peer2 g1 = Inr (g2, c2)"
    and "params1 ''ClientId'' = Some (Some k)" "params2 ''ClientId'' = Some (Some k)" "s1 \<noteq> s2"
  shows "\<exists>g3. onBeforeDestroy exec m s1 g2 = Inr g3
    \<and> clients (registry g2) k = Some s2 \<and> clients (registry g3) k = None
    \<and> map_option clientID (listeners g3 s2) = Some k
    \<and> sendTextMessageToClient (registry g3) k msg = []"
  using assms
  by (auto simp: onAfterCreate_Inr onBeforeDestroy_Inr WebSocketListener_def sendTextMessageToClient_def)

lemma old_socket_unregisters_new_witness:
  "\<exists>g1 g2 g3 c1 c2. onAfterCreate (cql_exec ''vin'' ''vehicles'') (default_manager ''gw1'')
        (Config_of ''gw1'' Map.empty) (1::nat) [''ClientId'' \<mapsto> Some ''V1''] None (fresh_gateway Map.empty) = Inr (g1, c1)
     \<and> onAfterCreate (cql_exec ''vin'' ''vehicles'') (default_manager ''gw1'')
        (Config_of ''gw1'' Map.empty) 2 [''ClientId'' \<mapsto> Some ''V1''] None g1 = Inr (g2, c2)
     \<and> onBeforeDestroy (cql_exec ''vin'' ''vehicles'') (default_manager ''gw1'') 1 g2 = Inr g3
     \<and> clients (registry g3) ''V1'' = None"
proof -
  let ?p = "[''ClientId'' \<mapsto> Some ''V1'']"
  let ?e = "cql_exec ''vin'' ''vehicles''" and ?m = "default_manager ''gw1''"
    and ?c = "Config_of ''gw1'' Map.empty"
  obtain g1 c1 where g1: "onAfterCreate ?e ?m ?c (1::nat) ?p None (fresh_gateway Map.empty) = Inr (g1, c1)"
    by (simp add: onAfterCreate_Inr)
  obtain g2 c2 where g2: "onAfterCreate ?e ?m ?c 2 ?p None g1 = Inr (g2, c2)"
    by (simp add: onAfterCreate_Inr)
  show ?thesis using old_socket_unregisters_new [OF g1 g2, of "''V1''"] g1 g2 by auto
qed

end
