(* ===== verification/Controller.thy ===== *)
theory Controller
  imports Listener
begin

text \<open>
  \<open>src/src/controler/WsController.h\<close>: the three endpoints. Routing and the WebSocket handshake
  are oatpp's: the response of the handshake is the result of a function parameter, and a
  request is its path variables and headers, each possibly absent. What the endpoints add is
  the parameter map that travels with the upgraded connection.
\<close>

section \<open>Endpoints\<close>

datatype endpoint = Root | WS1 | WS

fun endpoint_route :: "endpoint \<Rightarrow> string \<times> string" where
  "endpoint_route Root = (''GET'', ''/'')"
| "endpoint_route WS1 = (''GET'', ''ws'')"
| "endpoint_route WS = (''GET'', ''ws/by-id/{ClientId}'')"

record incoming =
  getPathVariable :: "string \<Rightarrow> string option"
  getHeader :: "string \<Rightarrow> string option"

datatype 'r response =
    Page nat string
  | Upgrade 'r parameter_map

definition pageTemplate :: string where
  "pageTemplate =
     ''<html lang='' @ [QUOTE] @ ''en'' @ [QUOTE] @ ''>''
     @ ''<head>''
     @ ''<meta charset=utf-8/>''
     @ ''</head>''
     @ ''<body>''
     @ ''<p>Hello oatpp WebSocket benchmark!</p>''
     @ ''<p>''
     @ ''You may connect WebSocket client on '' @ [QUOTE] @ ''&lt;host&gt;:&lt;port&gt;/ws'' @ [QUOTE]
     @ ''</p>''
     @ ''</body>''
     @ ''</html>''"

definition Root_act :: "'r response" where
  "Root_act = Page 200 pageTemplate"

definition WS1_act :: "(incoming \<Rightarrow> 'r) \<Rightarrow> incoming \<Rightarrow> 'r response" where
  "WS1_act serversideHandshake request =
     (let params = [''ClientId'' \<mapsto> Some ''VIN1234567890'', ''Id'' \<mapsto> Some ''dummy'']
      in Upgrade (serversideHandshake request) params)"

definition WS_act :: "(incoming \<Rightarrow> 'r) \<Rightarrow> incoming \<Rightarrow> 'r response" where
  "WS_act serversideHandshake request =
     (let clienId = getPathVariable request ''ClientId'';
          ident = getHeader request ''X-Client-ID'';
          params = [''ClientId'' \<mapsto> clienId, ''Id'' \<mapsto> ident]
      in Upgrade (serversideHandshake request) params)"

fun act :: "(incoming \<Rightarrow> 'r) \<Rightarrow> endpoint \<Rightarrow> incoming \<Rightarrow> 'r response" where
  "act hs Root request = Root_act"
| "act hs WS1 request = WS1_act hs request"
| "act hs WS request = WS_act hs request"

section \<open>Properties\<close>

text \<open>
  C39. The instance listener's missing-parameter paths are unreachable from the controller:
  for every endpoint and request, if the response upgrades the connection, the \<open>ClientId\<close> of
  its parameters is present, and creating the socket is defined unless the path variable is
  absent; the id is the fixed one on \<open>ws\<close> and the path's on \<open>ws/by-id\<close>, never that of the
  \<open>X-Client-ID\<close> header.
\<close>

theorem upgrade_supplies_client_id:
  assumes "act hs ep request = Upgrade resp params"
  shows "\<exists>ident. params ''ClientId'' = Some ident
    \<and> (ep = WS1 \<and> ident = Some ''VIN1234567890''
       \<or> ep = WS \<and> ident = getPathVariable request ''ClientId'')
    \<and> (ident \<noteq> None \<and> peer_readable cfg peer \<longrightarrow> (\<exists>g' calls. onAfterCreate exec m cfg s params peer g = Inr (g', calls)))
    \<and> (\<forall>h. act hs ep (request\<lparr>getHeader := h\<rparr>) = Upgrade (hs (request\<lparr>getHeader := h\<rparr>))
          (params(''Id'' \<mapsto> (if ep = WS1 then Some ''dummy'' else h ''X-Client-ID''))))"
proof (cases ep)
  case Root
  with assms show ?thesis by (simp add: Root_act_def)
next
  case WS1
  with assms have "params = [''ClientId'' \<mapsto> Some ''VIN1234567890'', ''Id'' \<mapsto> Some ''dummy'']"
    by (simp add: WS1_act_def)
  with WS1 show ?thesis by (simp add: WS1_act_def onAfterCreate_Inr fun_upd_twist)
next
  case WS
  with assms have "params = [''ClientId'' \<mapsto> getPathVariable request ''ClientId'',
      ''Id'' \<mapsto> getHeader request ''X-Client-ID'']"
    by (simp add: WS_act_def)
  with WS show ?thesis by (auto simp: WS_act_def onAfterCreate_Inr)
qed

definition sample_incoming :: incoming where
  "sample_incoming = \<lparr>getPathVariable = [''ClientId'' \<mapsto> ''V7''], getHeader = Map.empty\<rparr>"

lemma upgrade_supplies_client_id_witness:
  "\<exists>ident. ([''ClientId'' \<mapsto> Some ''V7'', ''Id'' \<mapsto> None] :: parameter_map) ''ClientId'' = Some ident
     \<and> ident = getPathVariable sample_incoming ''ClientId''"
proof -
  have "act (\<lambda>_. ()) WS sample_incoming = Upgrade () [''ClientId'' \<mapsto> Some ''V7'', ''Id'' \<mapsto> None]"
    by (simp add: WS_act_def sample_incoming_def)
  from upgrade_supplies_client_id [OF this, of "Config_of ''gw1'' Map.empty" None
      "cql_exec ''vin'' ''vehicles''" "default_manager ''gw1''" "1::nat" "fresh_gateway Map.empty"]
  show ?thesis by auto
qed

text \<open>
  All connections on \<open>ws\<close> share one id: after a second one, the registry leads to the
  newer socket only, and when either socket is destroyed the id leads nowhere.
\<close>

theorem fixed_id_is_shared:
  assumes "WS1_act hs r1 = Upgrade x1 p1" "WS1_act hs r2 = Upgrade x2 p2" "s1 \<noteq> s2"
    and "\<forall>k. clients (registry g) k \<noteq> Some s1"
    and "onAfterCreate exec m cfg s1 p1 peer1 g = Inr (g1, c1)"
    and "onAfterCreate exec m cfg s2 p2 peer2 g1 = Inr (g2, c2)"
  shows "clients (registry g2) ''VIN1234567890'' = Some s2
    \<and> (\<forall>k. clients (registry g2) k \<noteq> Some s1)
    \<and> (\<forall>s \<in> {s1, s2}. \<exists>g3. onBeforeDestroy exec m s g2 = Inr g3
          \<and> clients (registry g3) ''VIN1234567890'' = None)"
  using assms
  by (auto simp: WS1_act_def Let_def onAfterCreate_Inr onBeforeDestroy_Inr WebSocketListener_def
      split: if_splits)

lemma fixed_id_is_shared_witness:
  "\<exists>g1 g2 c1 c2. onAfterCreate (cql_exec ''vin'' ''vehicles'') (default_manager ''gw1'')
       (Config_of ''gw1'' Map.empty) (1::nat) [''ClientId'' \<mapsto> Some ''VIN1234567890'', ''Id'' \<mapsto> Some ''dummy'']
       None (fresh_gateway Map.empty) = Inr (g1, c1)
     \<and> onAfterCreate (cql_exec ''vin'' ''vehicles'') (default_manager ''gw1'')
       (Config_of ''gw1'' Map.empty) 2 [''ClientId'' \<mapsto> Some ''VIN1234567890'', ''Id'' \<mapsto> Some ''dummy'']
       None g1 = Inr (g2, c2)
     \<and> clients (registry g2) ''VIN1234567890'' = Some 2"
proof -
  let ?p = "[''ClientId'' \<mapsto> Some ''VIN1234567890'', ''Id'' \<mapsto> Some ''dummy'']"
  let ?e = "cql_exec ''vin'' ''vehicles''" and ?m = "default_manager ''gw1''"
    and ?c = "Config_of ''gw1'' Map.empty"
  have w: "WS1_act (\<lambda>_. ()) r = Upgrade () ?p" for r by (simp add: WS1_act_def)
  obtain g1 c1 where g1: "onAfterCreate ?e ?m ?c (1::nat) ?p None (fresh_gateway Map.empty) = Inr (g1, c1)"
    by (simp add: onAfterCreate_Inr)
  obtain g2 c2 where g2: "onAfterCreate ?e ?m ?c 2 ?p None g1 = Inr (g2, c2)"
    by (simp add: onAfterCreate_Inr)
  show ?thesis
    using fixed_id_is_shared [OF w w _ _ g1 g2] g1 g2 by (auto simp: fresh_gateway_def)
qed

end
