(* ===== verification/Registry_Steps.thy ===== *)
theory Registry_Steps
  imports Registry
begin

text \<open>
  \<open>src/src/websocket/WebSocketComponents.h\<close>, its operations taken apart: the oatpp executor
  runs them on several threads, and each is a loop on the spin lock, an update of the map
  under the lock, the release, and then, without the lock, a statement on the database. The
  send operations look a client up without the lock. A step of a thread is one of these; the
  threads interleave freely. Two logs record the order in which the operations took
  effect on the map and on the database.
\<close>

section \<open>Operations in pieces\<close>

datatype 's op = Add string 's | NotAvailable string | Remove string

fun op_key :: "'s op \<Rightarrow> string" where
  "op_key (Add k s) = k"
| "op_key (NotAvailable k) = k"
| "op_key (Remove k) = k"

fun map_effect :: "'s op \<Rightarrow> (string \<Rightarrow> 's option) \<Rightarrow> (string \<Rightarrow> 's option)" where
  "map_effect (Add k s) c = c(k \<mapsto> s)"
| "map_effect (NotAvailable k) c = c(k := None)"
| "map_effect (Remove k) c = c(k := None)"

fun db_effect :: "'w driver \<Rightarrow> scylla_manager \<Rightarrow> 's op \<Rightarrow> 'w \<Rightarrow> 'w" where
  "db_effect exec m (Add k s) w = snd (snd (insert_data exec m k (getAppServerName m) w))"
| "db_effect exec m (NotAvailable k) w = snd (snd (insert_data exec m k ''NA'' w))"
| "db_effect exec m (Remove k) w = snd (snd (delete_data exec m k w))"

datatype 's pc =
    Idle
  | Spinning "'s op"   \<comment> \<open>in the loop on \<open>test_and_set\<close>\<close>
  | Critical "'s op"   \<comment> \<open>has the lock, writes the map\<close>
  | Leaving "'s op"    \<comment> \<open>has the lock, about to clear it\<close>
  | Writing "'s op"    \<comment> \<open>about to run the statement\<close>
  | Finding string string  \<comment> \<open>looks a client up to send it a text\<close>

record ('t, 's, 'w) shared =
  clientMapLock :: bool
  the_registry :: "('s, 'w) registry"
  pc :: "'t \<Rightarrow> 's pc"
  map_log :: "('t \<times> 's op) list"
  db_log :: "('t \<times> 's op) list"

inductive registry_step ::
    "'w driver \<Rightarrow> scylla_manager \<Rightarrow> 't \<Rightarrow> ('t, 's, 'w) shared \<Rightarrow> ('t, 's, 'w) shared \<Rightarrow> bool"
  for exec :: "'w driver" and m :: scylla_manager and t :: 't where
  call: "pc st t = Idle \<Longrightarrow> registry_step exec m t st (st\<lparr>pc := (pc st)(t := Spinning op)\<rparr>)"
| spin: "pc st t = Spinning op \<Longrightarrow> clientMapLock st \<Longrightarrow> registry_step exec m t st st"
| acquire: "pc st t = Spinning op \<Longrightarrow> \<not> clientMapLock st \<Longrightarrow>
    registry_step exec m t st (st\<lparr>clientMapLock := True, pc := (pc st)(t := Critical op)\<rparr>)"
| update: "pc st t = Critical op \<Longrightarrow>
    registry_step exec m t st (st\<lparr>
      the_registry := (the_registry st)\<lparr>clients := map_effect op (clients (the_registry st))\<rparr>,
      map_log := map_log st @ [(t, op)], pc := (pc st)(t := Leaving op)\<rparr>)"
| unlock: "pc st t = Leaving op \<Longrightarrow>
    registry_step exec m t st (st\<lparr>clientMapLock := False, pc := (pc st)(t := Writing op)\<rparr>)"
| statement: "pc st t = Writing op \<Longrightarrow>
    registry_step exec m t st (st\<lparr>
      the_registry := (the_registry st)\<lparr>db := db_effect exec m op (db (the_registry st))\<rparr>,
      db_log := db_log st @ [(t, op)], pc := (pc st)(t := Idle)\<rparr>)"
| look_up: "pc st t = Idle \<Longrightarrow> registry_step exec m t st (st\<lparr>pc := (pc st)(t := Finding k msg)\<rparr>)"
| found: "pc st t = Finding k msg \<Longrightarrow> registry_step exec m t st (st\<lparr>pc := (pc st)(t := Idle)\<rparr>)"

inductive_cases registry_stepE: "registry_step exec m t st st'"

definition start_state :: "('s, 'w) registry \<Rightarrow> ('t, 's, 'w) shared" where
  "start_state r = \<lparr>clientMapLock = False, the_registry = r, pc = (\<lambda>_. Idle), map_log = [], db_log = []\<rparr>"

inductive reachable ::
    "'w driver \<Rightarrow> scylla_manager \<Rightarrow> ('s, 'w) registry \<Rightarrow> ('t, 's, 'w) shared \<Rightarrow> bool"
  for exec :: "'w driver" and m :: scylla_manager and r :: "('s, 'w) registry" where
  start: "reachable exec m r (start_state r)"
| step: "reachable exec m r st \<Longrightarrow> registry_step exec m t st st' \<Longrightarrow> reachable exec m r st'"

text \<open>One operation alone, step after step, is the operation of the theory \<open>Registry\<close>.\<close>

lemma pieces_make_operations:
  "addClient exec m k s r
     = r\<lparr>clients := map_effect (Add k s) (clients r), db := db_effect exec m (Add k s) (db r)\<rparr>"
  "setClientNotAvailable exec m k r
     = r\<lparr>clients := map_effect (NotAvailable k) (clients r), db := db_effect exec m (NotAvailable k) (db r)\<rparr>"
  "removeClient exec m k r
     = r\<lparr>clients := map_effect (Remove k) (clients r), db := db_effect exec m (Remove k) (db r)\<rparr>"
  by (simp_all add: addClient_def setClientNotAvailable_def removeClient_def Let_def split: prod.splits)

section \<open>The lock\<close>

fun holding :: "'s pc \<Rightarrow> bool" where
  "holding (Critical op) = True"
| "holding (Leaving op) = True"
| "holding _ = False"

definition lock_inv :: "('t, 's, 'w) shared \<Rightarrow> bool" where
  \<comment> \<open>the lock is set exactly if it has an owner, and the owner is the only holder\<close>
  "lock_inv st \<longleftrightarrow>
     (\<exists>owner. (clientMapLock st \<longleftrightarrow> owner \<noteq> None) \<and> (\<forall>t. holding (pc st t) \<longleftrightarrow> owner = Some t))"

lemma lock_inv_same:
  assumes "lock_inv st" "clientMapLock st' = clientMapLock st" "\<And>t. holding (pc st' t) = holding (pc st t)"
  shows "lock_inv st'"
  using assms unfolding lock_inv_def by presburger

lemma lock_inv_step:
  assumes "registry_step exec m t st st'" "lock_inv st"
  shows "lock_inv st'"
  using assms(1)
proof (cases rule: registry_step.cases)
  case (acquire op)
  then show ?thesis using assms(2) by (auto simp: lock_inv_def intro!: exI [of _ "Some t"])
next
  case (unlock op)
  then have "holding (pc st t)" by simp
  then have "\<forall>t'. holding (pc st t') \<longleftrightarrow> t' = t" using assms(2) by (auto simp: lock_inv_def)
  then show ?thesis using unlock by (auto simp: lock_inv_def intro!: exI [of _ None])
qed (auto intro!: lock_inv_same [OF assms(2)] split: if_splits)

lemma reachable_lock_inv: "reachable exec m r st \<Longrightarrow> lock_inv st"
proof (induction rule: reachable.induct)
  case start
  then show ?case by (simp add: lock_inv_def start_state_def)
qed (rule lock_inv_step)

section \<open>The logs\<close>

fun unwritten :: "'s pc \<Rightarrow> 's op list" where
  "unwritten (Leaving op) = [op]"
| "unwritten (Writing op) = [op]"
| "unwritten _ = []"

definition ops_of :: "'t \<Rightarrow> ('t \<times> 's op) list \<Rightarrow> 's op list" where
  "ops_of t log = map snd (filter (\<lambda>e. fst e = t) log)"

lemma ops_of_simps [simp]:
  "ops_of t [] = []"
  "ops_of t (log @ [e]) = ops_of t log @ (if fst e = t then [snd e] else [])"
  by (simp_all add: ops_of_def)

definition log_inv :: "'w driver \<Rightarrow> scylla_manager \<Rightarrow> ('s, 'w) registry \<Rightarrow> ('t, 's, 'w) shared \<Rightarrow> bool" where
  "log_inv exec m r st \<longleftrightarrow>
     clients (the_registry st) = fold map_effect (map snd (map_log st)) (clients r)
   \<and> db (the_registry st) = fold (db_effect exec m) (map snd (db_log st)) (db r)
   \<and> (\<forall>t. ops_of t (map_log st) = ops_of t (db_log st) @ unwritten (pc st t))"

lemma log_inv_step: "registry_step exec m t st st' \<Longrightarrow> log_inv exec m r st \<Longrightarrow> log_inv exec m r st'"
  by (erule registry_stepE) (auto simp: log_inv_def)

lemma reachable_log_inv: "reachable exec m r st \<Longrightarrow> log_inv exec m r st"
proof (induction rule: reachable.induct)
  case start
  then show ?case by (simp add: log_inv_def start_state_def)
qed (rule log_inv_step)

section \<open>Last writer wins\<close>

definition on_key :: "string \<Rightarrow> 's op list \<Rightarrow> 's op list" where
  "on_key k ops = filter (\<lambda>op. op_key op = k) ops"

fun online_after :: "'s op \<Rightarrow> 's option" where
  "online_after (Add k s) = Some s"
| "online_after _ = None"

fun row_after :: "string \<Rightarrow> 's op \<Rightarrow> string option" where
  "row_after srv (Add k s) = Some srv"
| "row_after srv (NotAvailable k) = Some ''NA''"
| "row_after srv (Remove k) = None"

lemma fold_last_on_key:
  assumes "\<And>op x. op \<in> set ops \<Longrightarrow> look (f op x) = (look x)(op_key op := val op)"
  shows "look (fold f ops x) k = (if on_key k ops = [] then look x k else val (last (on_key k ops)))"
  using assms
proof (induction ops arbitrary: x)
  case (Cons op ops)
  then show ?case by (auto simp: on_key_def)
qed (simp add: on_key_def)

lemma map_effect_val: "map_effect op c = c(op_key op := online_after op)"
  by (cases op) simp_all

lemma fold_map_effect:
  "fold map_effect ops c k = (if on_key k ops = [] then c k else online_after (last (on_key k ops)))"
  by (rule fold_last_on_key [where look = "\<lambda>c. c"]) (rule map_effect_val)

lemma db_effect_val:
  assumes "cql_driver exec rows m" "reliable exec m" "literal_safe (getAppServerName m)"
    and "literal_safe (op_key op)"
  shows "rows (db_effect exec m op w) = (rows w)(op_key op := row_after (getAppServerName m) op)"
  using insert_accepted [OF assms(1,2), of "op_key op" "getAppServerName m" w]
    insert_accepted [OF assms(1,2) _ NA_safe, of "op_key op" w]
    delete_accepted [OF assms(1,2), of "op_key op" w] assms(3,4)
  by (cases op) auto

section \<open>Operations that do not overlap\<close>

fun current_op :: "'s pc \<Rightarrow> 's op option" where
  "current_op (Spinning op) = Some op"
| "current_op (Critical op) = Some op"
| "current_op (Leaving op) = Some op"
| "current_op (Writing op) = Some op"
| "current_op _ = None"

definition busy_on :: "string \<Rightarrow> 's pc \<Rightarrow> bool" where
  "busy_on k p \<longleftrightarrow> map_option op_key (current_op p) = Some k"

definition calm_on :: "string \<Rightarrow> ('t, 's, 'w) shared \<Rightarrow> bool" where
  \<comment> \<open>at most one operation on the id is under way, and all ids can be stored\<close>
  "calm_on k st \<longleftrightarrow> (\<forall>t t'. busy_on k (pc st t) \<longrightarrow> busy_on k (pc st t') \<longrightarrow> t = t')
     \<and> (\<forall>t op. current_op (pc st t) = Some op \<longrightarrow> literal_safe (op_key op))"

inductive calm_run ::
    "'w driver \<Rightarrow> scylla_manager \<Rightarrow> ('s, 'w) registry \<Rightarrow> string \<Rightarrow> ('t, 's, 'w) shared \<Rightarrow> bool"
  for exec :: "'w driver" and m :: scylla_manager and r :: "('s, 'w) registry" and k :: string where
  calm_start: "calm_run exec m r k (start_state r)"
| calm_step: "calm_run exec m r k st \<Longrightarrow> registry_step exec m t st st' \<Longrightarrow> calm_on k st' \<Longrightarrow>
    calm_run exec m r k st'"

lemma calm_run_calm: "calm_run exec m r k st \<Longrightarrow> calm_on k st"
  by (induction rule: calm_run.induct) (simp_all add: calm_on_def start_state_def busy_on_def)

lemma calm_run_reachable: "calm_run exec m r k st \<Longrightarrow> reachable exec m r st"
  by (induction rule: calm_run.induct) (auto intro: reachable.intros)

definition agree ::
    "('w \<Rightarrow> string \<Rightarrow> string option) \<Rightarrow> scylla_manager \<Rightarrow> string \<Rightarrow> ('s, 'w) registry \<Rightarrow> bool" where
  "agree rows m k r \<longleftrightarrow> (clients r k \<noteq> None \<longleftrightarrow> rows (db r) k = Some (getAppServerName m))"

definition serial_inv ::
    "('w \<Rightarrow> string \<Rightarrow> string option) \<Rightarrow> scylla_manager \<Rightarrow> string \<Rightarrow> ('t, 's, 'w) shared \<Rightarrow> bool" where
  \<comment> \<open>between its update and its statement an operation has decided the map's entry\<close>
  "serial_inv rows m k st \<longleftrightarrow>
     (\<forall>t op. op \<in> set (unwritten (pc st t)) \<longrightarrow> op_key op = k \<longrightarrow>
        clients (the_registry st) k = online_after op)
   \<and> ((\<forall>t op. op \<in> set (unwritten (pc st t)) \<longrightarrow> op_key op \<noteq> k) \<longrightarrow> agree rows m k (the_registry st))"

lemma unwritten_busy: "op \<in> set (unwritten p) \<Longrightarrow> op_key op = k \<Longrightarrow> busy_on k p"
  by (cases p) (auto simp: busy_on_def)

lemma online_row: "srv \<noteq> ''NA'' \<Longrightarrow> online_after op \<noteq> None \<longleftrightarrow> row_after srv op = Some srv"
  by (cases op) auto

lemma serial_inv_cong:
  assumes "serial_inv rows m k st"
    and "clients (the_registry st') k = clients (the_registry st) k"
    and "rows (db (the_registry st')) k = rows (db (the_registry st)) k"
    and "\<And>t op. op_key op = k \<Longrightarrow> op \<in> set (unwritten (pc st' t)) \<longleftrightarrow> op \<in> set (unwritten (pc st t))"
  shows "serial_inv rows m k st'"
  using assms(1) unfolding serial_inv_def agree_def assms(2,3) using assms(4) by blast

lemma calm_alone:
  assumes "calm_on k st" "current_op (pc st t) = Some op" "op_key op = k"
    and "op' \<in> set (unwritten (pc st t'))" "op_key op' = k"
  shows "t' = t"
  using assms(1-3) unwritten_busy [OF assms(4,5)] by (auto simp: calm_on_def busy_on_def)

lemma serial_inv_update:
  assumes "calm_on k st" "serial_inv rows m k st" "pc st t = Critical op" "pc st' = (pc st)(t := Leaving op)"
    and "clients (the_registry st') = (clients (the_registry st))(op_key op := online_after op)"
    and "db (the_registry st') = db (the_registry st)"
  shows "serial_inv rows m k st'"
proof (cases "op_key op = k")
  case True
  have only: "t' = t \<and> op' = op" if "op' \<in> set (unwritten (pc st' t'))" "op_key op' = k" for t' op'
    using calm_alone [OF assms(1) _ True, of t op' t'] that assms(3,4) by (auto split: if_splits)
  have "op \<in> set (unwritten (pc st' t))" by (simp add: assms(4))
  with only True assms(5) show ?thesis unfolding serial_inv_def by fastforce
next
  case False
  then show ?thesis using assms(3-6) by (intro serial_inv_cong [OF assms(2)]) auto
qed

lemma serial_inv_statement:
  assumes "getAppServerName m \<noteq> ''NA''" "calm_on k st" "serial_inv rows m k st" "pc st t = Writing op"
    and "pc st' = (pc st)(t := Idle)" "clients (the_registry st') = clients (the_registry st)"
    and "rows (db (the_registry st')) = (rows (db (the_registry st)))(op_key op := row_after (getAppServerName m) op)"
  shows "serial_inv rows m k st'"
proof (cases "op_key op = k")
  case True
  moreover have "op \<in> set (unwritten (pc st t))" by (simp add: assms(4))
  ultimately have "clients (the_registry st) k = online_after op"
    using assms(3) unfolding serial_inv_def by blast
  moreover have "op_key op' \<noteq> k" if "op' \<in> set (unwritten (pc st' t'))" for t' op'
    using calm_alone [OF assms(2) _ True, of t op' t'] that assms(4,5) by (auto split: if_splits)
  ultimately show ?thesis
    using True assms(6,7) online_row [OF assms(1), of op] by (auto simp: serial_inv_def agree_def)
next
  case False
  then show ?thesis using assms(4-7) by (intro serial_inv_cong [OF assms(3)]) auto
qed

lemma serial_inv_step:
  assumes "cql_driver exec rows m" "reliable exec m" "literal_safe (getAppServerName m)"
    and "getAppServerName m \<noteq> ''NA''"
    and "registry_step exec m t st st'" "calm_on k st" "serial_inv rows m k st"
  shows "serial_inv rows m k st'"
  using assms(5)
proof (cases rule: registry_step.cases)
  case (update op)
  then show ?thesis by (intro serial_inv_update [OF assms(6,7) update(2)]) (simp_all add: map_effect_val)
next
  case (statement op)
  then have "literal_safe (op_key op)" using assms(6) by (metis calm_on_def current_op.simps(4))
  from db_effect_val [OF assms(1-3) this] show ?thesis
    using statement(1) by (intro serial_inv_statement [OF assms(4,6,7) statement(2)]) simp_all
qed (auto intro!: serial_inv_cong [OF assms(7)] split: if_splits)

lemma calm_run_inv:
  assumes "cql_driver exec rows m" "reliable exec m" "literal_safe (getAppServerName m)"
    and "getAppServerName m \<noteq> ''NA''"
  shows "calm_run exec m r k st \<Longrightarrow> agree rows m k r \<Longrightarrow> serial_inv rows m k st"
proof (induction rule: calm_run.induct)
  case calm_start
  then show ?case by (simp add: serial_inv_def start_state_def)
next
  case (calm_step st t st')
  then show ?case using serial_inv_step [OF assms calm_step(2) calm_run_calm [OF calm_step(1)]] by blast
qed

lemma calm_go:
  "calm_run exec m r k st \<Longrightarrow> registry_step exec m t st st' \<Longrightarrow> pc st' = (\<lambda>u. Idle)(t := p) \<Longrightarrow>
     current_op p \<in> {Some op, None} \<Longrightarrow> literal_safe (op_key op) \<Longrightarrow> calm_run exec m r k st'"
  by (erule (1) calm_run.calm_step) (auto simp: calm_on_def busy_on_def)

lemma calm_run_alone:
  \<comment> \<open>one operation from the start to its end\<close>
  fixes r :: "('s, 'w) registry"
  assumes "literal_safe (op_key op)"
  shows "\<exists>st :: ('t, 's, 'w) shared. calm_run exec m r k st \<and> pc st = (\<lambda>u. Idle)
    \<and> clients (the_registry st) = map_effect op (clients r)"
proof -
  let ?s0 = "start_state r :: ('t, 's, 'w) shared"
  obtain s1 where s1: "calm_run exec m r k s1" "s1 = ?s0\<lparr>pc := (pc ?s0)(t := Spinning op)\<rparr>"
    using calm_go [OF calm_run.calm_start registry_step.call [of ?s0 t exec m op], of "Spinning op" op] assms
    by (simp add: start_state_def)
  obtain s2 where s2: "calm_run exec m r k s2" "s2 = s1\<lparr>clientMapLock := True, pc := (pc s1)(t := Critical op)\<rparr>"
    using calm_go [OF s1(1) registry_step.acquire [of s1 t op exec m], of "Critical op" op] assms s1(2)
    by (simp add: start_state_def)
  obtain s3 where s3: "calm_run exec m r k s3" "s3 = s2\<lparr>
      the_registry := (the_registry s2)\<lparr>clients := map_effect op (clients (the_registry s2))\<rparr>,
      map_log := map_log s2 @ [(t, op)], pc := (pc s2)(t := Leaving op)\<rparr>"
    using calm_go [OF s2(1) registry_step.update [of s2 t op exec m], of "Leaving op" op] assms s1(2) s2(2)
    by (simp add: start_state_def)
  obtain s4 where s4: "calm_run exec m r k s4" "s4 = s3\<lparr>clientMapLock := False, pc := (pc s3)(t := Writing op)\<rparr>"
    using calm_go [OF s3(1) registry_step.unlock [of s3 t op exec m], of "Writing op" op] assms s1(2) s2(2) s3(2)
    by (simp add: start_state_def)
  obtain s5 where s5: "calm_run exec m r k s5" "s5 = s4\<lparr>
      the_registry := (the_registry s4)\<lparr>db := db_effect exec m op (db (the_registry s4))\<rparr>,
      db_log := db_log s4 @ [(t, op)], pc := (pc s4)(t := Idle)\<rparr>"
    using calm_go [OF s4(1) registry_step.statement [of s4 t op exec m], of "Idle" op] assms s1(2) s2(2) s3(2) s4(2)
    by (simp add: start_state_def)
  show ?thesis
    by (rule exI [of _ s5]) (use s1(2) s2(2) s3(2) s4(2) s5 in \<open>simp add: start_state_def fun_upd_idem_iff\<close>)
qed

lemma reachable_progress:
  \<comment> \<open>a thread that spins waits for one that can go on\<close>
  assumes "reachable exec m r st" and spin: "pc st t = Spinning op"
  shows "\<exists>t' st'. registry_step exec m t' st st' \<and> st' \<noteq> st \<and> current_op (pc st t') \<noteq> None"
proof (cases "clientMapLock st")
  case False
  let ?st = "st\<lparr>clientMapLock := True, pc := (pc st)(t := Critical op)\<rparr>"
  have "?st \<noteq> st" using False by (intro notI, drule_tac f = clientMapLock in arg_cong) simp
  then show ?thesis using registry_step.acquire [OF spin False] spin by fastforce
next
  case True
  then obtain t' where "holding (pc st t')"
    using reachable_lock_inv [OF assms(1)] by (auto simp: lock_inv_def)
  then obtain op' where "pc st t' = Critical op' \<or> pc st t' = Leaving op'" by (cases "pc st t'") auto
  then show ?thesis
  proof
    assume crit: "pc st t' = Critical op'"
    show ?thesis
      by (intro exI conjI, rule registry_step.update [OF crit], rule notI, drule arg_cong [of _ _ map_log])
        (simp_all add: crit)
  next
    assume leave: "pc st t' = Leaving op'"
    show ?thesis
      by (intro exI conjI, rule registry_step.unlock [OF leave], rule notI, drule arg_cong [of _ _ clientMapLock])
        (simp_all add: leave True)
  qed
qed

section \<open>Runs\<close>

lemma reach_map_phase:
  assumes "reachable exec m r st" "pc st t = Idle" "\<not> clientMapLock st"
  shows "\<exists>st'. reachable exec m r st' \<and> \<not> clientMapLock st' \<and> pc st' = (pc st)(t := Writing op)
    \<and> clients (the_registry st') = map_effect op (clients (the_registry st))
    \<and> db (the_registry st') = db (the_registry st) \<and> map_log st' = map_log st @ [(t, op)]"
proof -
  obtain s1 where s1: "reachable exec m r s1" "s1 = st\<lparr>pc := (pc st)(t := Spinning op)\<rparr>"
    using reachable.step [OF assms(1) registry_step.call [of st t exec m op]] assms(2) by blast
  obtain s2 where s2: "reachable exec m r s2" "s2 = s1\<lparr>clientMapLock := True, pc := (pc s1)(t := Critical op)\<rparr>"
    using reachable.step [OF s1(1) registry_step.acquire [of s1 t op exec m]] s1(2) assms(3) by simp
  obtain s3 where s3: "reachable exec m r s3" "s3 = s2\<lparr>
      the_registry := (the_registry s2)\<lparr>clients := map_effect op (clients (the_registry s2))\<rparr>,
      map_log := map_log s2 @ [(t, op)], pc := (pc s2)(t := Leaving op)\<rparr>"
    using reachable.step [OF s2(1) registry_step.update [of s2 t op exec m]] s2(2) by simp
  have "reachable exec m r (s3\<lparr>clientMapLock := False, pc := (pc s3)(t := Writing op)\<rparr>)"
    using reachable.step [OF s3(1) registry_step.unlock [of s3 t op exec m]] s3(2) by simp
  then show ?thesis by (intro exI conjI, assumption) (simp_all add: s1(2) s2(2) s3(2))
qed

lemma reach_statement:
  assumes "reachable exec m r st" "pc st t = Writing op"
  shows "\<exists>st'. reachable exec m r st' \<and> pc st' = (pc st)(t := Idle)
    \<and> clients (the_registry st') = clients (the_registry st)
    \<and> db (the_registry st') = db_effect exec m op (db (the_registry st)) \<and> map_log st' = map_log st"
  using reachable.step [OF assms(1) registry_step.statement [OF assms(2)]]
  by (intro exI conjI, assumption) simp_all

lemma crossed_run:
  \<comment> \<open>two operations that reach the database in the opposite order\<close>
  fixes t t' :: 't
  assumes "t \<noteq> t'"
  shows "\<exists>st :: ('t, 's, 'w) shared. reachable exec m r st \<and> pc st = (\<lambda>u. Idle)
    \<and> clients (the_registry st) = map_effect op' (map_effect op (clients r))
    \<and> db (the_registry st) = db_effect exec m op (db_effect exec m op' (db r))"
proof -
  let ?s0 = "start_state r"
  obtain s1 where s1: "reachable exec m r s1" "\<not> clientMapLock s1" "pc s1 = (\<lambda>u. Idle)(t := Writing op)"
    "clients (the_registry s1) = map_effect op (clients r)" "db (the_registry s1) = db r"
    using reach_map_phase [OF reachable.start [of exec m r], of t op] by (auto simp: start_state_def)
  obtain s2 where s2: "reachable exec m r s2" "pc s2 = (pc s1)(t' := Writing op')"
    "clients (the_registry s2) = map_effect op' (clients (the_registry s1))"
    "db (the_registry s2) = db (the_registry s1)"
    using reach_map_phase [OF s1(1), of t' op'] s1(2,3) assms by auto
  obtain s3 where s3: "reachable exec m r s3" "pc s3 = (pc s2)(t' := Idle)"
    "clients (the_registry s3) = clients (the_registry s2)"
    "db (the_registry s3) = db_effect exec m op' (db (the_registry s2))"
    using reach_statement [OF s2(1), of t' op'] s2(2) by auto
  obtain s4 where s4: "reachable exec m r s4" "pc s4 = (pc s3)(t := Idle)"
    "clients (the_registry s4) = clients (the_registry s3)"
    "db (the_registry s4) = db_effect exec m op (db (the_registry s3))"
    using reach_statement [OF s3(1), of t op] s3(2) s2(2) s1(3) assms by auto
  have "pc s4 = (\<lambda>u. Idle)" by (auto simp: s4(2) s3(2) s2(2) s1(3))
  then show ?thesis using s1 s2 s3 s4 by (intro exI [of _ s4]) simp
qed

section \<open>Properties\<close>

text \<open>
  C11. The spin lock does its work: in every reachable state it is set exactly if one thread
  is between taking and clearing it, and no second thread is; the map is the result of the
  updates one after the other, in the order of the log, and each thread's operations reach the
  database in the order of their updates, none lost and none twice; and a thread that spins is
  never stuck for good, since some thread can make a step that changes the state.
\<close>

theorem spin_lock_correct:
  assumes "reachable exec m r st"
  shows "(\<exists>owner. (clientMapLock st \<longleftrightarrow> owner \<noteq> None) \<and> (\<forall>t. holding (pc st t) \<longleftrightarrow> owner = Some t))
    \<and> clients (the_registry st) = fold map_effect (map snd (map_log st)) (clients r)
    \<and> db (the_registry st) = fold (db_effect exec m) (map snd (db_log st)) (db r)
    \<and> (\<forall>t. ops_of t (map_log st) = ops_of t (db_log st) @ unwritten (pc st t))
    \<and> (\<forall>t op. pc st t = Spinning op \<longrightarrow> (\<exists>t' st'. registry_step exec m t' st st' \<and> st' \<noteq> st))"
proof -
  have "\<exists>t' st'. registry_step exec m t' st st' \<and> st' \<noteq> st" if "pc st t = Spinning op" for t op
    using reachable_progress [OF assms that] by blast
  then show ?thesis
    using reachable_lock_inv [OF assms] reachable_log_inv [OF assms] unfolding lock_inv_def log_inv_def by blast
qed

lemma spin_lock_correct_witness:
  "\<exists>st :: (bool, nat, string \<Rightarrow> string option) shared. pc st True = Writing (Add ''V1'' 1)
     \<and> clients (the_registry st) = fold map_effect (map snd (map_log st)) Map.empty
     \<and> ops_of True (map_log st) = ops_of True (db_log st) @ [Add ''V1'' 1]"
proof -
  let ?r = "\<lparr>clients = Map.empty, db = Map.empty\<rparr> :: (nat, string \<Rightarrow> string option) registry"
  let ?e = "cql_exec ''vin'' ''vehicles''" and ?m = "default_manager ''gw1''"
  obtain st :: "(bool, nat, string \<Rightarrow> string option) shared" where
    st: "reachable ?e ?m ?r st" "pc st True = Writing (Add ''V1'' 1)"
    using reach_map_phase [OF reachable.start [of ?e ?m ?r], of True "Add ''V1'' 1"]
    by (auto simp: start_state_def)
  from spin_lock_correct [OF st(1)] have
    "clients (the_registry st) = fold map_effect (map snd (map_log st)) Map.empty"
    "ops_of True (map_log st) = ops_of True (db_log st) @ unwritten (pc st True)" by simp_all
  with st(2) show ?thesis by auto
qed

text \<open>
  Operations on one vehicle that do not overlap keep its entries together: in every run
  in which no two threads have an operation on the client id under way at once, whatever the
  threads do for other ids meanwhile, map and table agree on the id whenever no operation on
  it is under way: it leads to a socket exactly if the table names this server.
\<close>

theorem serial_operations_consistent:
  assumes "cql_driver exec rows m" "reliable exec m" "literal_safe (getAppServerName m)"
    and "getAppServerName m \<noteq> ''NA''"
    and "agree rows m k r" "calm_run exec m r k st" "\<forall>t. \<not> busy_on k (pc st t)"
  shows "clients (the_registry st) k \<noteq> None
    \<longleftrightarrow> rows (db (the_registry st)) k = Some (getAppServerName m)"
  using calm_run_inv [OF assms(1-4,6,5)] assms(7) unwritten_busy
  unfolding serial_inv_def agree_def by blast

lemma serial_operations_consistent_witness:
  "\<exists>st. calm_run (cql_exec ''vin'' ''vehicles'') (default_manager ''gw1'')
       (\<lparr>clients = Map.empty, db = Map.empty\<rparr> :: (nat, string \<Rightarrow> string option) registry) ''V1''
       (st :: (bool, nat, string \<Rightarrow> string option) shared)
     \<and> clients (the_registry st) ''V1'' = Some 1 \<and> db (the_registry st) ''V1'' = Some ''gw1''"
proof -
  let ?r = "\<lparr>clients = Map.empty, db = Map.empty\<rparr> :: (nat, string \<Rightarrow> string option) registry"
  let ?e = "cql_exec ''vin'' ''vehicles''" and ?m = "default_manager ''gw1''"
  have name: "getAppServerName ?m = ''gw1''" by (simp add: getAppServerName_def)
  have safe: "literal_safe (getAppServerName ?m)" "getAppServerName ?m \<noteq> ''NA''"
    by (simp_all add: name literal_safe_def)
  have op: "literal_safe (op_key (Add ''V1'' (1 :: nat)))" by (simp add: literal_safe_def)
  obtain st :: "(bool, nat, string \<Rightarrow> string option) shared" where st: "calm_run ?e ?m ?r ''V1'' st"
    "pc st = (\<lambda>u. Idle)" "clients (the_registry st) ''V1'' = Some 1"
    using calm_run_alone [OF op, where 't = bool and exec = ?e and m = ?m and r = ?r and k = "''V1''"] by auto
  have "clients (the_registry st) ''V1'' \<noteq> None
      \<longleftrightarrow> db (the_registry st) ''V1'' = Some (getAppServerName ?m)"
    by (rule serial_operations_consistent [OF reference.cql_driver_axioms reference_reliable safe _ st(1)])
      (simp_all add: st(2) agree_def busy_on_def name)
  then show ?thesis using st name by auto
qed

text \<open>
  C12. Two threads are too many: the statement is sent after the lock is cleared, so an
  opening and a closing of the same client can pass each other. There are runs to a state at
  rest in which the client is gone from the map while the table says it is connected here,
  and runs to one in which it is connected while the table says \<open>NA\<close>.
\<close>

theorem map_and_table_diverge:
  fixes t t' :: 't and s :: 's
  assumes "cql_driver exec rows m" "reliable exec m" "literal_safe (getAppServerName m)" "literal_safe k"
    and "t \<noteq> t'"
  shows "(\<exists>st :: ('t, 's, 'w) shared. reachable exec m r st \<and> (\<forall>u. u \<in> {t, t'} \<longrightarrow> pc st u = Idle)
      \<and> clients (the_registry st) k = None
      \<and> rows (db (the_registry st)) k = Some (getAppServerName m))
    \<and> (\<exists>st. reachable exec m r st \<and> (\<forall>u. u \<in> {t, t'} \<longrightarrow> pc st u = Idle)
      \<and> clients (the_registry st) k = Some s
      \<and> rows (db (the_registry st)) k = Some ''NA'')"
proof
  note val = db_effect_val [OF assms(1-3)]
  obtain st :: "('t, 's, 'w) shared" where st: "reachable exec m r st" "pc st = (\<lambda>u. Idle)"
    "clients (the_registry st) = map_effect (NotAvailable k) (map_effect (Add k s) (clients r))"
    "db (the_registry st) = db_effect exec m (Add k s) (db_effect exec m (NotAvailable k :: 's op) (db r))"
    using crossed_run [OF assms(5), of exec m r "NotAvailable k" "Add k s"] by (elim exE conjE) (rule that)
  have "rows (db (the_registry st)) k = Some (getAppServerName m)"
    by (simp add: st(4) val assms(4) del: db_effect.simps)
  with st(1-3) show "\<exists>st. reachable exec m r st \<and> (\<forall>u. u \<in> {t, t'} \<longrightarrow> pc st u = Idle)
      \<and> clients (the_registry st) k = None
      \<and> rows (db (the_registry st)) k = Some (getAppServerName m)"
    by (intro exI [of _ st]) simp
next
  note val = db_effect_val [OF assms(1-3)]
  obtain st :: "('t, 's, 'w) shared" where st: "reachable exec m r st" "pc st = (\<lambda>u. Idle)"
    "clients (the_registry st) = map_effect (Add k s) (map_effect (NotAvailable k) (clients r))"
    "db (the_registry st) = db_effect exec m (NotAvailable k :: 's op) (db_effect exec m (Add k s) (db r))"
    using crossed_run [OF assms(5), of exec m r "Add k s" "NotAvailable k"] by (elim exE conjE) (rule that)
  have "rows (db (the_registry st)) k = Some ''NA''"
    by (simp add: st(4) val assms(4) del: db_effect.simps)
  with st(1-3) show "\<exists>st. reachable exec m r st \<and> (\<forall>u. u \<in> {t, t'} \<longrightarrow> pc st u = Idle)
      \<and> clients (the_registry st) k = Some s
      \<and> rows (db (the_registry st)) k = Some ''NA''"
    by (intro exI [of _ st]) simp
qed

lemma map_and_table_diverge_witness:
  "\<exists>st. reachable (cql_exec ''vin'' ''vehicles'') (default_manager ''gw1'')
       (\<lparr>clients = Map.empty, db = Map.empty\<rparr> :: (nat, string \<Rightarrow> string option) registry) st
     \<and> (\<forall>u. u \<in> {True, False} \<longrightarrow> pc st u = Idle)
     \<and> clients (the_registry st) ''V1'' = None \<and> db (the_registry st) ''V1'' = Some ''gw1''"
proof -
  have name: "getAppServerName (default_manager ''gw1'') = ''gw1''" by (simp add: getAppServerName_def)
  have safe: "literal_safe (getAppServerName (default_manager ''gw1''))" "literal_safe ''V1''"
    by (simp_all add: name literal_safe_def)
  from map_and_table_diverge [OF reference.cql_driver_axioms reference_reliable safe, of True False
        "\<lparr>clients = Map.empty, db = Map.empty\<rparr> :: (nat, string \<Rightarrow> string option) registry",
        THEN conjunct1, unfolded name]
  show ?thesis by simp
qed

text \<open>
  Lookups race with updates: the send operations do not take the lock, so there are runs
  to a state in which one thread is changing the map while another searches it.
\<close>

theorem lookup_races_with_update:
  assumes "t \<noteq> t'"
  shows "\<exists>st. reachable exec m r st \<and> pc st t = Critical op \<and> pc st t' = Finding k msg"
proof -
  obtain s1 where s1: "reachable exec m r s1" "s1 = (start_state r)\<lparr>pc := (pc (start_state r))(t' := Finding k msg)\<rparr>"
    using reachable.step [OF reachable.start registry_step.look_up [of "start_state r" t']]
    by (simp add: start_state_def)
  obtain s2 where s2: "reachable exec m r s2" "s2 = s1\<lparr>pc := (pc s1)(t := Spinning op)\<rparr>"
    using reachable.step [OF s1(1) registry_step.call [of s1 t exec m op]] s1(2) assms
    by (simp add: start_state_def)
  have "reachable exec m r (s2\<lparr>clientMapLock := True, pc := (pc s2)(t := Critical op)\<rparr>)"
    using reachable.step [OF s2(1) registry_step.acquire [of s2 t op exec m]] s1(2) s2(2)
    by (simp add: start_state_def)
  then show ?thesis
    by (intro exI conjI, assumption) (simp_all add: s1(2) s2(2) start_state_def assms assms [symmetric])
qed

lemma lookup_races_with_update_witness:
  "\<exists>st. reachable (cql_exec ''vin'' ''vehicles'') (default_manager ''gw1'')
       (\<lparr>clients = Map.empty, db = Map.empty\<rparr> :: (nat, string \<Rightarrow> string option) registry) st
     \<and> pc st True = Critical (Add ''V1'' 1) \<and> pc st False = Finding ''V2'' ''hello''"
  using lookup_races_with_update [of True False] by simp

end
