(* ===== verification/Connection_Steps.thy ===== *)
theory Connection_Steps
  imports Registry_Steps Listener
begin

text \<open>
  The instance listener of \<open>src/src/websocket/WebSocketListener.cpp\<close> on several threads: the
  callbacks of one socket come one after the other, those of different sockets at the same
  time, and each of them is taken apart at the steps of its registry operation. A socket is
  its own thread in the sense of the theory \<open>Registry_Steps\<close>.
\<close>

section \<open>The life of a socket\<close>

datatype phase =
    Absent
  | Opening string     \<comment> \<open>in \<open>onAfterCreate_NonBlocking\<close>, before the listener is set\<close>
  | Serving string
  | Closing string     \<comment> \<open>in \<open>onClose\<close> for a close frame\<close>
  | Destroying string  \<comment> \<open>in \<open>onBeforeDestroy_NonBlocking\<close>\<close>
  | Gone

fun phase_id :: "phase \<Rightarrow> string option" where
  "phase_id (Opening k) = Some k"
| "phase_id (Serving k) = Some k"
| "phase_id (Closing k) = Some k"
| "phase_id (Destroying k) = Some k"
| "phase_id _ = None"

fun counted :: "phase \<Rightarrow> bool" where
  \<comment> \<open>between the increment and the decrement of \<open>SOCKETS\<close>\<close>
  "counted (Opening k) = True"
| "counted (Serving k) = True"
| "counted (Closing k) = True"
| "counted _ = False"

record ('s, 'w) concurrent =
  reg :: "('s, 's, 'w) shared"
  phase_of :: "'s \<Rightarrow> phase"
  socket_count :: uint32

definition call_op :: "'s \<Rightarrow> 's op \<Rightarrow> ('s, 's, 'w) shared \<Rightarrow> ('s, 's, 'w) shared" where
  "call_op s op st = st\<lparr>pc := (pc st)(s := Spinning op)\<rparr>"

inductive conn_step ::
    "'w driver \<Rightarrow> scylla_manager \<Rightarrow> config \<Rightarrow> 's \<Rightarrow> ('s, 'w) concurrent \<Rightarrow> ('s, 'w) concurrent \<Rightarrow> bool"
  for exec :: "'w driver" and m :: scylla_manager and cfg :: config and s :: 's where
  opens: "phase_of \<kappa> s = Absent \<Longrightarrow> (params :: parameter_map) ''ClientId'' = Some (Some k) \<Longrightarrow>
    peer_common_name cfg peer = Inr cn \<Longrightarrow>
    conn_step exec m cfg s \<kappa> (\<kappa>\<lparr>socket_count := socket_count \<kappa> + 1,
      phase_of := (phase_of \<kappa>)(s := Opening k), reg := call_op s (Add k s) (reg \<kappa>)\<rparr>)"
| works: "current_op (pc (reg \<kappa>) s) \<noteq> None \<Longrightarrow> registry_step exec m s (reg \<kappa>) st \<Longrightarrow>
    conn_step exec m cfg s \<kappa> (\<kappa>\<lparr>reg := st\<rparr>)"
| opened: "phase_of \<kappa> s = Opening k \<Longrightarrow> pc (reg \<kappa>) s = Idle \<Longrightarrow>
    conn_step exec m cfg s \<kappa> (\<kappa>\<lparr>phase_of := (phase_of \<kappa>)(s := Serving k)\<rparr>)"
| closes: "phase_of \<kappa> s = Serving k \<Longrightarrow>
    conn_step exec m cfg s \<kappa> (\<kappa>\<lparr>phase_of := (phase_of \<kappa>)(s := Closing k),
      reg := call_op s (NotAvailable k) (reg \<kappa>)\<rparr>)"
| closed: "phase_of \<kappa> s = Closing k \<Longrightarrow> pc (reg \<kappa>) s = Idle \<Longrightarrow>
    conn_step exec m cfg s \<kappa> (\<kappa>\<lparr>phase_of := (phase_of \<kappa>)(s := Serving k)\<rparr>)"
| destroys: "phase_of \<kappa> s = Serving k \<Longrightarrow>
    conn_step exec m cfg s \<kappa> (\<kappa>\<lparr>socket_count := socket_count \<kappa> - 1,
      phase_of := (phase_of \<kappa>)(s := Destroying k), reg := call_op s (NotAvailable k) (reg \<kappa>)\<rparr>)"
| destroyed: "phase_of \<kappa> s = Destroying k \<Longrightarrow> pc (reg \<kappa>) s = Idle \<Longrightarrow>
    conn_step exec m cfg s \<kappa> (\<kappa>\<lparr>phase_of := (phase_of \<kappa>)(s := Gone)\<rparr>)"

definition no_connections :: "'w \<Rightarrow> ('s, 'w) concurrent" where
  "no_connections w = \<lparr>reg = start_state \<lparr>clients = Map.empty, db = w\<rparr>, phase_of = (\<lambda>_. Absent), socket_count = 0\<rparr>"

inductive conn_run ::
    "'w driver \<Rightarrow> scylla_manager \<Rightarrow> config \<Rightarrow> 'w \<Rightarrow> ('s, 'w) concurrent list \<Rightarrow> ('s, 'w) concurrent \<Rightarrow> bool"
  for exec :: "'w driver" and m :: scylla_manager and cfg :: config and w :: 'w where
  conn_start: "conn_run exec m cfg w [] (no_connections w)"
| conn_more: "conn_run exec m cfg w past \<kappa> \<Longrightarrow> conn_step exec m cfg s \<kappa> \<kappa>' \<Longrightarrow>
    conn_run exec m cfg w (past @ [\<kappa>]) \<kappa>'"

section \<open>Invariants\<close>

fun phase_op :: "'s \<Rightarrow> phase \<Rightarrow> 's op option" where
  \<comment> \<open>the registry operation of a callback\<close>
  "phase_op s (Opening k) = Some (Add k s)"
| "phase_op s (Closing k) = Some (NotAvailable k)"
| "phase_op s (Destroying k) = Some (NotAvailable k)"
| "phase_op s _ = None"

definition callback_inv :: "('s, 'w) concurrent \<Rightarrow> bool" where
  "callback_inv \<kappa> \<longleftrightarrow> (\<forall>s. pc (reg \<kappa>) s = Idle
     \<or> (\<exists>op. current_op (pc (reg \<kappa>) s) = Some op \<and> phase_op s (phase_of \<kappa> s) = Some op))"

lemma callback_op: "callback_inv \<kappa> \<Longrightarrow> current_op (pc (reg \<kappa>) s) = Some op \<Longrightarrow>
    phase_op s (phase_of \<kappa> s) = Some op"
  unfolding callback_inv_def by (metis current_op.simps(5) option.distinct(1) option.inject)

fun before_update :: "'s pc \<Rightarrow> bool" where
  "before_update (Spinning op) = True"
| "before_update (Critical op) = True"
| "before_update _ = False"

definition map_inv :: "('s, 'w) concurrent \<Rightarrow> bool" where
  \<comment> \<open>the map leads to sockets of that id whose destruction has not taken them out yet\<close>
  "map_inv \<kappa> \<longleftrightarrow> (\<forall>k s. clients (the_registry (reg \<kappa>)) k = Some s \<longrightarrow>
     phase_id (phase_of \<kappa> s) = Some k \<and> (phase_of \<kappa> s = Destroying k \<longrightarrow> before_update (pc (reg \<kappa>) s)))"

definition socket_inv :: "('s, 'w) concurrent \<Rightarrow> bool" where
  "socket_inv \<kappa> \<longleftrightarrow> finite {s. counted (phase_of \<kappa> s)}
     \<and> socket_count \<kappa> = of_nat (card {s. counted (phase_of \<kappa> s)})"

lemma current_op_step:
  "registry_step exec m s st st' \<Longrightarrow> current_op (pc st s) = Some op \<Longrightarrow>
     (\<forall>t. t \<noteq> s \<longrightarrow> pc st' t = pc st t)
   \<and> (pc st' s = Idle \<or> current_op (pc st' s) = Some op)
   \<and> (clients (the_registry st') = clients (the_registry st)
        \<and> (before_update (pc st s) \<longrightarrow> before_update (pc st' s))
      \<or> clients (the_registry st') = map_effect op (clients (the_registry st))
        \<and> before_update (pc st s) \<and> \<not> before_update (pc st' s))"
  by (erule registry_stepE) auto

lemma callback_inv_step:
  assumes "conn_step exec m cfg s \<kappa> \<kappa>'" "callback_inv \<kappa>"
  shows "callback_inv \<kappa>'"
  using assms(1)
proof (cases rule: conn_step.cases)
  case (works st)
  then obtain op where op: "current_op (pc (reg \<kappa>) s) = Some op" by auto
  note st = current_op_step [OF works(3) op]
  have "pc st t = Idle \<or> (\<exists>op. current_op (pc st t) = Some op \<and> phase_op t (phase_of \<kappa> t) = Some op)" for t
    using st callback_op [OF assms(2) op] assms(2) by (cases "t = s") (auto simp: callback_inv_def)
  then show ?thesis by (simp add: callback_inv_def works(1))
qed (use assms(2) in \<open>auto simp: callback_inv_def call_op_def\<close>)

lemma map_inv_step:
  assumes "conn_step exec m cfg s \<kappa> \<kappa>'" "callback_inv \<kappa>" "map_inv \<kappa>"
  shows "map_inv \<kappa>'"
  using assms(1)
proof (cases rule: conn_step.cases)
  case (opens params k peer cn)
  then show ?thesis using assms(3) by (fastforce simp: map_inv_def call_op_def)
next
  case (works st)
  then obtain op where op: "current_op (pc (reg \<kappa>) s) = Some op" by auto
  note st = current_op_step [OF works(3) op]
  note ph = callback_op [OF assms(2) op]
  have "phase_id (phase_of \<kappa> t) = Some k \<and> (phase_of \<kappa> t = Destroying k \<longrightarrow> before_update (pc st t))"
    if "clients (the_registry st) k = Some t" for k t
  proof (cases "clients (the_registry (reg \<kappa>)) k = Some t \<and> \<not> (before_update (pc (reg \<kappa>) s) \<and> \<not> before_update (pc st s) \<and> t = s)")
    case True
    then show ?thesis using assms(3) st unfolding map_inv_def by metis
  next
    case False
    have "phase_id (phase_of \<kappa> s) = Some k" if "clients (the_registry (reg \<kappa>)) k = Some s"
      using assms(3) that by (simp add: map_inv_def)
    then show ?thesis
      using st ph that False by (cases "phase_of \<kappa> s") (auto split: if_splits)
  qed
  then show ?thesis by (simp add: map_inv_def works(1))
next
  case (opened k)
  then show ?thesis using assms(3) by (fastforce simp: map_inv_def)
next
  case (closes k)
  then show ?thesis using assms(3) by (fastforce simp: map_inv_def call_op_def)
next
  case (closed k)
  then show ?thesis using assms(3) by (fastforce simp: map_inv_def)
next
  case (destroys k)
  then show ?thesis using assms(3) by (fastforce simp: map_inv_def call_op_def)
next
  case (destroyed k)
  then show ?thesis using assms(3) by (fastforce simp: map_inv_def)
qed

lemma socket_inv_step:
  assumes "conn_step exec m cfg s \<kappa> \<kappa>'" "socket_inv \<kappa>"
  shows "socket_inv \<kappa>'"
proof -
  have set: "{t. counted (((phase_of \<kappa>)(s := p)) t)}
      = (if counted p then insert s {t. counted (phase_of \<kappa> t)} else {t. counted (phase_of \<kappa> t)} - {s})" for p
    by auto
  show ?thesis
    using assms(1)
  proof (cases rule: conn_step.cases)
    case (opens params k peer cn)
    then show ?thesis
      using assms(2) by (simp add: socket_inv_def set card_insert_if del: fun_upd_apply)
  next
    case (destroys k)
    then have "s \<in> {t. counted (phase_of \<kappa> t)}" by simp
    then have "card {t. counted (phase_of \<kappa> t)} = Suc (card ({t. counted (phase_of \<kappa> t)} - {s}))"
      using assms(2) by (metis card_Suc_Diff1 socket_inv_def)
    then show ?thesis
      using assms(2) destroys by (simp add: socket_inv_def set del: fun_upd_apply)
  qed (use assms(2) in \<open>auto simp: socket_inv_def set insert_absorb simp del: fun_upd_apply\<close>)
qed

section \<open>Runs\<close>

lemma conn_step_registry:
  assumes "conn_step exec m cfg s \<kappa> \<kappa>'" "callback_inv \<kappa>"
  shows "reg \<kappa>' = reg \<kappa> \<or> registry_step exec m s (reg \<kappa>) (reg \<kappa>')"
proof -
  have idle: "pc (reg \<kappa>) s = Idle" if "phase_op s (phase_of \<kappa> s) = None"
    using assms(2) that by (auto simp: callback_inv_def)
  show ?thesis
    using assms(1)
  proof (cases rule: conn_step.cases)
    case (opens params k peer cn)
    then show ?thesis using registry_step.call [OF idle] by (simp add: call_op_def)
  next
    case (closes k)
    then show ?thesis using registry_step.call [OF idle] by (simp add: call_op_def)
  next
    case (destroys k)
    then show ?thesis using registry_step.call [OF idle] by (simp add: call_op_def)
  qed simp_all
qed

lemma conn_run_invs:
  "conn_run exec m cfg w past \<kappa> \<Longrightarrow> callback_inv \<kappa> \<and> map_inv \<kappa> \<and> socket_inv \<kappa>"
proof (induction rule: conn_run.induct)
  case conn_start
  then show ?case
    by (simp add: no_connections_def start_state_def callback_inv_def map_inv_def socket_inv_def)
next
  case (conn_more past \<kappa> s \<kappa>')
  then show ?case
    using callback_inv_step [OF conn_more(2)] map_inv_step [OF conn_more(2)] socket_inv_step [OF conn_more(2)]
    by simp
qed

lemma conn_run_reachable:
  "conn_run exec m cfg w past \<kappa> \<Longrightarrow> reachable exec m \<lparr>clients = Map.empty, db = w\<rparr> (reg \<kappa>)"
proof (induction rule: conn_run.induct)
  case conn_start
  then show ?case using reachable.start by (simp add: no_connections_def)
next
  case (conn_more past \<kappa> s \<kappa>')
  then show ?case
    using conn_step_registry [OF conn_more(2)] conn_run_invs [OF conn_more(1)] by (metis reachable.step)
qed

lemma conn_progress:
  \<comment> \<open>a socket does not wait for the lock for good\<close>
  assumes "conn_run exec m cfg w past \<kappa>" "pc (reg \<kappa>) s = Spinning op"
  shows "\<exists>t \<kappa>'. conn_step exec m cfg t \<kappa> \<kappa>' \<and> \<kappa>' \<noteq> \<kappa>"
proof -
  obtain t st where t: "registry_step exec m t (reg \<kappa>) st" "st \<noteq> reg \<kappa>" "current_op (pc (reg \<kappa>) t) \<noteq> None"
    using reachable_progress [OF conn_run_reachable [OF assms(1)] assms(2)] by blast
  have "\<kappa>\<lparr>reg := st\<rparr> \<noteq> \<kappa>" using t(2) by (metis concurrent.select_convs(1) concurrent.surjective concurrent.update_convs(1))
  then show ?thesis using conn_step.works [OF t(3,1)] by blast
qed

definition exclusive :: "string \<Rightarrow> ('s, 'w) concurrent \<Rightarrow> bool" where
  \<comment> \<open>at most one connection of the id at a time, from its opening to the end of its destruction\<close>
  "exclusive k \<kappa> \<longleftrightarrow>
     (\<forall>s t. phase_id (phase_of \<kappa> s) = Some k \<longrightarrow> phase_id (phase_of \<kappa> t) = Some k \<longrightarrow> s = t)
   \<and> (\<forall>s j. phase_id (phase_of \<kappa> s) = Some j \<longrightarrow> literal_safe j)"

lemma phase_op_key: "phase_op s p = Some op \<Longrightarrow> phase_id p = Some (op_key op)"
  by (cases p) auto

lemma exclusive_calm:
  assumes "callback_inv \<kappa>" "exclusive k \<kappa>"
  shows "calm_on k (reg \<kappa>)"
proof -
  have id: "phase_id (phase_of \<kappa> s) = Some (op_key op)" if "current_op (pc (reg \<kappa>) s) = Some op" for s op
    using phase_op_key [OF callback_op [OF assms(1) that]] .
  have "phase_id (phase_of \<kappa> s) = Some k" if "busy_on k (pc (reg \<kappa>) s)" for s
    using that id by (auto simp: busy_on_def)
  then show ?thesis using assms(2) id unfolding calm_on_def exclusive_def by blast
qed

lemma exclusive_calm_run:
  "conn_run exec m cfg w past \<kappa> \<Longrightarrow> list_all (exclusive k) (past @ [\<kappa>]) \<Longrightarrow>
     calm_run exec m \<lparr>clients = Map.empty, db = w\<rparr> k (reg \<kappa>)"
proof (induction rule: conn_run.induct)
  case conn_start
  then show ?case using calm_run.calm_start by (simp add: no_connections_def)
next
  case (conn_more past \<kappa> s \<kappa>')
  then have calm: "calm_run exec m \<lparr>clients = Map.empty, db = w\<rparr> k (reg \<kappa>)" by simp
  have "calm_on k (reg \<kappa>')"
    using exclusive_calm [of \<kappa>' k] conn_run_invs [OF conn_run.conn_more [OF conn_more(1,2)]] conn_more.prems
    by simp
  then show ?case
    using conn_step_registry [OF conn_more(2)] conn_run_invs [OF conn_more(1)] calm
    by (metis calm_run.calm_step)
qed

definition quiet_step ::
    "'w driver \<Rightarrow> scylla_manager \<Rightarrow> config \<Rightarrow> 's \<Rightarrow> ('s, 'w) concurrent \<Rightarrow> ('s, 'w) concurrent \<Rightarrow> bool" where
  \<comment> \<open>inside a callback\<close>
  "quiet_step exec m cfg s \<kappa> \<kappa>' \<longleftrightarrow> conn_step exec m cfg s \<kappa> \<kappa>' \<and> phase_of \<kappa>' = phase_of \<kappa>"

lemma quiet_work:
  "registry_step exec m s (reg \<kappa>) st \<Longrightarrow> current_op (pc (reg \<kappa>) s) \<noteq> None \<Longrightarrow> quiet_step exec m cfg s \<kappa> (\<kappa>\<lparr>reg := st\<rparr>)"
  by (simp add: quiet_step_def conn_step.works)

lemma operation_path:
  \<comment> \<open>the operation of a callback, from its call to its end\<close>
  assumes "pc (reg \<kappa>) s = Spinning op" "\<not> clientMapLock (reg \<kappa>)"
  shows "\<exists>\<kappa>'. (quiet_step exec m cfg s)\<^sup>+\<^sup>+ \<kappa> \<kappa>' \<and> pc (reg \<kappa>') = (pc (reg \<kappa>))(s := Idle)
    \<and> \<not> clientMapLock (reg \<kappa>') \<and> phase_of \<kappa>' = phase_of \<kappa> \<and> socket_count \<kappa>' = socket_count \<kappa>
    \<and> clients (the_registry (reg \<kappa>')) = map_effect op (clients (the_registry (reg \<kappa>)))
    \<and> db (the_registry (reg \<kappa>')) = db_effect exec m op (db (the_registry (reg \<kappa>)))"
proof -
  let ?st0 = "reg \<kappa>"
  let ?st1 = "?st0\<lparr>clientMapLock := True, pc := (pc ?st0)(s := Critical op)\<rparr>"
  let ?st2 = "?st1\<lparr>the_registry := (the_registry ?st1)\<lparr>clients := map_effect op (clients (the_registry ?st1))\<rparr>,
    map_log := map_log ?st1 @ [(s, op)], pc := (pc ?st1)(s := Leaving op)\<rparr>"
  let ?st3 = "?st2\<lparr>clientMapLock := False, pc := (pc ?st2)(s := Writing op)\<rparr>"
  let ?st4 = "?st3\<lparr>the_registry := (the_registry ?st3)\<lparr>db := db_effect exec m op (db (the_registry ?st3))\<rparr>,
    db_log := db_log ?st3 @ [(s, op)], pc := (pc ?st3)(s := Idle)\<rparr>"
  have "registry_step exec m s ?st0 ?st1" by (rule registry_step.acquire [OF assms])
  from quiet_work [OF this] have p1: "(quiet_step exec m cfg s)\<^sup>+\<^sup>+ \<kappa> (\<kappa>\<lparr>reg := ?st1\<rparr>)"
    using assms(1) by (simp add: tranclp.r_into_trancl)
  have "registry_step exec m s ?st1 ?st2" by (rule registry_step.update) simp
  with quiet_work [of exec m s "\<kappa>\<lparr>reg := ?st1\<rparr>" ?st2]
  have p2: "quiet_step exec m cfg s (\<kappa>\<lparr>reg := ?st1\<rparr>) (\<kappa>\<lparr>reg := ?st2\<rparr>)" by simp
  have "registry_step exec m s ?st2 ?st3" by (rule registry_step.unlock) simp
  with quiet_work [of exec m s "\<kappa>\<lparr>reg := ?st2\<rparr>" ?st3]
  have p3: "quiet_step exec m cfg s (\<kappa>\<lparr>reg := ?st2\<rparr>) (\<kappa>\<lparr>reg := ?st3\<rparr>)" by simp
  have "registry_step exec m s ?st3 ?st4" by (rule registry_step.statement) simp
  with quiet_work [of exec m s "\<kappa>\<lparr>reg := ?st3\<rparr>" ?st4]
  have p4: "quiet_step exec m cfg s (\<kappa>\<lparr>reg := ?st3\<rparr>) (\<kappa>\<lparr>reg := ?st4\<rparr>)" by simp
  note more = tranclp.trancl_into_trancl [of "quiet_step exec m cfg s"]
  from more [OF more [OF more [OF p1 p2] p3] p4]
  show ?thesis by (intro exI [of _ "\<kappa>\<lparr>reg := ?st4\<rparr>"]) simp
qed

lemma quiet_path: "(quiet_step exec m cfg s)\<^sup>+\<^sup>+ \<kappa> \<kappa>' \<Longrightarrow> (conn_step exec m cfg s)\<^sup>+\<^sup>+ \<kappa> \<kappa>'"
  by (induction rule: tranclp_induct) (auto simp: quiet_step_def intro: tranclp.intros)

lemma connection_path:
  \<comment> \<open>a vehicle connects while nobody else is at work\<close>
  assumes "phase_of \<kappa> s = Absent" "\<not> clientMapLock (reg \<kappa>)"
  shows "\<exists>\<kappa>'. (conn_step exec m cfg s)\<^sup>+\<^sup>+ \<kappa> \<kappa>' \<and> phase_of \<kappa>' = (phase_of \<kappa>)(s := Serving k)
    \<and> pc (reg \<kappa>') = (pc (reg \<kappa>))(s := Idle) \<and> \<not> clientMapLock (reg \<kappa>')
    \<and> clients (the_registry (reg \<kappa>')) = (clients (the_registry (reg \<kappa>)))(k \<mapsto> s)
    \<and> db (the_registry (reg \<kappa>')) = db_effect exec m (Add k s) (db (the_registry (reg \<kappa>)))"
proof -
  let ?k1 = "\<kappa>\<lparr>socket_count := socket_count \<kappa> + 1, phase_of := (phase_of \<kappa>)(s := Opening k),
    reg := call_op s (Add k s) (reg \<kappa>)\<rparr>"
  have 1: "conn_step exec m cfg s \<kappa> ?k1"
    by (rule conn_step.opens [of _ _ "[''ClientId'' \<mapsto> Some k]" _ _ None "[]"])
      (simp_all add: assms(1) peer_common_name_def)
  obtain \<kappa>2 where 2: "(quiet_step exec m cfg s)\<^sup>+\<^sup>+ ?k1 \<kappa>2" "pc (reg \<kappa>2) = (pc (reg \<kappa>))(s := Idle)"
    "\<not> clientMapLock (reg \<kappa>2)" "phase_of \<kappa>2 = (phase_of \<kappa>)(s := Opening k)"
    "clients (the_registry (reg \<kappa>2)) = (clients (the_registry (reg \<kappa>)))(k \<mapsto> s)"
    "db (the_registry (reg \<kappa>2)) = db_effect exec m (Add k s) (db (the_registry (reg \<kappa>)))"
    using operation_path [of ?k1 s "Add k s" exec m cfg] assms(2) by (auto simp: call_op_def)
  have 3: "conn_step exec m cfg s \<kappa>2 (\<kappa>2\<lparr>phase_of := (phase_of \<kappa>2)(s := Serving k)\<rparr>)"
    by (rule conn_step.opened) (simp_all add: 2)
  note paths = tranclp.r_into_trancl [of "conn_step exec m cfg s"] tranclp_trans [of "conn_step exec m cfg s"]
    tranclp.trancl_into_trancl [of "conn_step exec m cfg s"]
  from paths(3) [OF paths(2) [OF paths(1) [OF 1] quiet_path [OF 2(1)]] 3]
  show ?thesis using 2 by (intro exI [of _ "\<kappa>2\<lparr>phase_of := (phase_of \<kappa>2)(s := Serving k)\<rparr>"]) simp
qed

lemma closing_path:
  \<comment> \<open>a connection is destroyed while nobody else is at work\<close>
  assumes "phase_of \<kappa> s = Serving k" "\<not> clientMapLock (reg \<kappa>)"
  shows "\<exists>\<kappa>'. (conn_step exec m cfg s)\<^sup>+\<^sup>+ \<kappa> \<kappa>' \<and> phase_of \<kappa>' = (phase_of \<kappa>)(s := Gone)
    \<and> pc (reg \<kappa>') = (pc (reg \<kappa>))(s := Idle) \<and> \<not> clientMapLock (reg \<kappa>')
    \<and> clients (the_registry (reg \<kappa>')) = (clients (the_registry (reg \<kappa>)))(k := None)
    \<and> db (the_registry (reg \<kappa>')) = db_effect exec m (NotAvailable k :: 's op) (db (the_registry (reg \<kappa>)))"
proof -
  let ?k1 = "\<kappa>\<lparr>socket_count := socket_count \<kappa> - 1, phase_of := (phase_of \<kappa>)(s := Destroying k),
    reg := call_op s (NotAvailable k) (reg \<kappa>)\<rparr>"
  have 1: "conn_step exec m cfg s \<kappa> ?k1" by (rule conn_step.destroys [OF assms(1)])
  obtain \<kappa>2 where 2: "(quiet_step exec m cfg s)\<^sup>+\<^sup>+ ?k1 \<kappa>2" "pc (reg \<kappa>2) = (pc (reg \<kappa>))(s := Idle)"
    "\<not> clientMapLock (reg \<kappa>2)" "phase_of \<kappa>2 = (phase_of \<kappa>)(s := Destroying k)"
    "clients (the_registry (reg \<kappa>2)) = (clients (the_registry (reg \<kappa>)))(k := None)"
    "db (the_registry (reg \<kappa>2)) = db_effect exec m (NotAvailable k :: 's op) (db (the_registry (reg \<kappa>)))"
    using operation_path [of ?k1 s "NotAvailable k" exec m cfg] assms(2) by (auto simp: call_op_def)
  have 3: "conn_step exec m cfg s \<kappa>2 (\<kappa>2\<lparr>phase_of := (phase_of \<kappa>2)(s := Gone)\<rparr>)"
    by (rule conn_step.destroyed) (simp_all add: 2)
  note paths = tranclp.r_into_trancl [of "conn_step exec m cfg s"] tranclp_trans [of "conn_step exec m cfg s"]
    tranclp.trancl_into_trancl [of "conn_step exec m cfg s"]
  from paths(3) [OF paths(2) [OF paths(1) [OF 1] quiet_path [OF 2(1)]] 3]
  show ?thesis using 2 by (intro exI [of _ "\<kappa>2\<lparr>phase_of := (phase_of \<kappa>2)(s := Gone)\<rparr>"]) simp
qed

lemma conn_run_quiet:
  assumes "(quiet_step exec m cfg s)\<^sup>+\<^sup>+ \<kappa> \<kappa>'" "conn_run exec m cfg w past \<kappa>"
  shows "\<exists>more. conn_run exec m cfg w (past @ more) \<kappa>' \<and> phase_of \<kappa>' = phase_of \<kappa>
    \<and> list_all (\<lambda>\<kappa>1. phase_of \<kappa>1 = phase_of \<kappa>) more"
  using assms(1)
proof (induction rule: tranclp_induct)
  case (base \<kappa>1)
  then show ?case
    using conn_run.conn_more [OF assms(2)] by (intro exI [of _ "[\<kappa>]"]) (auto simp: quiet_step_def)
next
  case (step \<kappa>1 \<kappa>2)
  then obtain more where more: "conn_run exec m cfg w (past @ more) \<kappa>1" "phase_of \<kappa>1 = phase_of \<kappa>"
    "list_all (\<lambda>\<kappa>1. phase_of \<kappa>1 = phase_of \<kappa>) more" by blast
  then show ?case
    using conn_run.conn_more [OF more(1)] step(2)
    by (intro exI [of _ "more @ [\<kappa>1]"]) (auto simp: quiet_step_def)
qed

lemma operation_runs:
  assumes "conn_run exec m cfg w past \<kappa>" "pc (reg \<kappa>) s = Spinning op" "\<not> clientMapLock (reg \<kappa>)"
  shows "\<exists>more \<kappa>'. conn_run exec m cfg w (past @ more) \<kappa>' \<and> pc (reg \<kappa>') = (pc (reg \<kappa>))(s := Idle)
    \<and> phase_of \<kappa>' = phase_of \<kappa> \<and> list_all (\<lambda>\<kappa>1. phase_of \<kappa>1 = phase_of \<kappa>) more
    \<and> clients (the_registry (reg \<kappa>')) = map_effect op (clients (the_registry (reg \<kappa>)))"
  using operation_path [OF assms(2,3), of exec m cfg] conn_run_quiet [OF _ assms(1), of s] by metis

lemma first_connection_opens:
  fixes s :: 's and w :: 'w
  shows
  "\<exists>past \<kappa>. conn_run exec m cfg w past \<kappa> \<and> phase_of \<kappa> = (\<lambda>_. Absent)(s := Serving k)
     \<and> clients (the_registry (reg \<kappa>)) k = Some s \<and> (\<forall>t. pc (reg \<kappa>) t = Idle)
     \<and> list_all (\<lambda>\<kappa>1. phase_of \<kappa>1 \<in> {\<lambda>_. Absent, (\<lambda>_. Absent)(s := Opening k)}) past"
proof -
  let ?k0 = "no_connections w :: ('s, 'w) concurrent"
  let ?k1 = "?k0\<lparr>socket_count := socket_count ?k0 + 1, phase_of := (phase_of ?k0)(s := Opening k),
    reg := call_op s (Add k s) (reg ?k0)\<rparr>"
  have "conn_step exec m cfg s ?k0 ?k1"
    by (rule conn_step.opens [of _ _ "[''ClientId'' \<mapsto> Some k]" _ _ None "[]"])
      (simp_all add: no_connections_def peer_common_name_def)
  from conn_run.conn_more [OF conn_run.conn_start this]
  obtain \<kappa>1 where 1: "conn_run exec m cfg w [?k0] \<kappa>1" "phase_of \<kappa>1 = (\<lambda>_. Absent)(s := Opening k)"
    "reg \<kappa>1 = call_op s (Add k s) (reg ?k0)"
    by (auto simp: no_connections_def)
  obtain more \<kappa>2 where 2: "conn_run exec m cfg w ([?k0] @ more) \<kappa>2"
    "pc (reg \<kappa>2) = (\<lambda>_. Idle)" "phase_of \<kappa>2 = phase_of \<kappa>1"
    "list_all (\<lambda>\<kappa>. phase_of \<kappa> = phase_of \<kappa>1) more"
    "clients (the_registry (reg \<kappa>2)) k = Some s"
    using operation_runs [OF 1(1), of s "Add k s"] 1(3)
    by (auto simp: call_op_def no_connections_def start_state_def fun_upd_idem_iff)
  have "phase_of \<kappa>2 s = Opening k" using 2(3) 1(2) by simp
  from conn_run.conn_more [OF 2(1) conn_step.opened [OF this]] show ?thesis
    using 1(2) 2
    by (intro exI [of _ "([?k0] @ more) @ [\<kappa>2]"] exI [of _ "\<kappa>2\<lparr>phase_of := (phase_of \<kappa>2)(s := Serving k)\<rparr>"])
      (auto simp: no_connections_def list_all_iff)
qed

section \<open>Properties\<close>

text \<open>
  The registry is sound under concurrency: in every run in which the callbacks of
  different sockets overlap in any way, the counter is the number of sockets between their
  creation and the start of their destruction, modulo \<open>2^32\<close>; the map leads for an id only to a
  socket opened under it and never to one that is gone; and no socket is left waiting for the
  lock for good.
\<close>

theorem concurrent_registry_sound:
  assumes "conn_run exec m cfg w past \<kappa>"
  shows "socket_count \<kappa> = of_nat (card {s. counted (phase_of \<kappa> s)})
    \<and> (\<forall>k s. clients (the_registry (reg \<kappa>)) k = Some s \<longrightarrow> phase_id (phase_of \<kappa> s) = Some k)
    \<and> (\<forall>k msg s c. (s, c) \<in> set (sendTextMessageToClient (the_registry (reg \<kappa>)) k msg) \<longrightarrow>
         phase_of \<kappa> s \<notin> {Absent, Gone})
    \<and> (\<forall>s op. pc (reg \<kappa>) s = Spinning op \<longrightarrow> (\<exists>t \<kappa>'. conn_step exec m cfg t \<kappa> \<kappa>' \<and> \<kappa>' \<noteq> \<kappa>))"
proof -
  note invs = conn_run_invs [OF assms]
  have ids: "phase_id (phase_of \<kappa> s) = Some k" if "clients (the_registry (reg \<kappa>)) k = Some s" for k s
    using invs that by (simp add: map_inv_def)
  have "phase_of \<kappa> s \<notin> {Absent, Gone}"
    if "(s, c) \<in> set (sendTextMessageToClient (the_registry (reg \<kappa>)) k msg)" for k msg s c
    using that ids [of k s] by (cases "phase_of \<kappa> s") (auto simp: sendTextMessageToClient_def split: option.splits)
  then show ?thesis using invs ids conn_progress [OF assms] by (simp add: socket_inv_def)
qed

lemma concurrent_registry_sound_witness:
  "\<exists>past \<kappa>. conn_run (cql_exec ''vin'' ''vehicles'') (default_manager ''gw1'') (Config_of ''gw1'' Map.empty) Map.empty
       past (\<kappa> :: (nat, string \<Rightarrow> string option) concurrent)
     \<and> clients (the_registry (reg \<kappa>)) ''V1'' = Some 1 \<and> socket_count \<kappa> = 1"
proof -
  let ?e = "cql_exec ''vin'' ''vehicles''" and ?m = "default_manager ''gw1''" and ?c = "Config_of ''gw1'' Map.empty"
  obtain past and \<kappa> :: "(nat, string \<Rightarrow> string option) concurrent" where
    k: "conn_run ?e ?m ?c Map.empty past \<kappa>" "phase_of \<kappa> = (\<lambda>_. Absent)(1 := Serving ''V1'')"
    "clients (the_registry (reg \<kappa>)) ''V1'' = Some 1"
    using first_connection_opens [of ?e ?m ?c Map.empty 1 "''V1''"] by blast
  have "{s. counted (phase_of \<kappa> s)} = {1}" by (auto simp: k(2))
  then have "socket_count \<kappa> = 1" using concurrent_registry_sound [OF k(1)] by simp
  with k(1,3) show ?thesis by blast
qed



end
