(* ===== verification/Cluster.thy ===== *)
theory Cluster
  imports Connection_Steps
begin

text \<open>
  Several gateways on one table: what the presence table is for. Each gateway is a process of
  its own, with the registry and the callbacks of the theory \<open>Connection_Steps\<close> and its own name
  in \<open>ScyllaDBManager\<close>; they share nothing but the rows they write. A gateway may crash, which
  takes its registry and its sockets away but not its rows, and start again.
\<close>

section \<open>The cluster\<close>

record ('g, 's, 'w) cluster =
  node :: "'g \<Rightarrow> ('s, 'w) concurrent"
  table :: 'w

datatype ('g, 's) cluster_event = Acts 'g 's | Crashes 'g

definition see_table :: "'w \<Rightarrow> ('s, 'w) concurrent \<Rightarrow> ('s, 'w) concurrent" where
  \<comment> \<open>the gateway on the current state of the shared database\<close>
  "see_table w \<kappa> = \<kappa>\<lparr>reg := (reg \<kappa>)\<lparr>the_registry := (the_registry (reg \<kappa>))\<lparr>db := w\<rparr>\<rparr>\<rparr>"

definition shared_table :: "('s, 'w) concurrent \<Rightarrow> 'w" where
  "shared_table \<kappa> = db (the_registry (reg \<kappa>))"

definition restarted :: "('s, 'w) concurrent \<Rightarrow> ('s, 'w) concurrent" where
  \<comment> \<open>the state of a new process; the sockets of the old one are gone\<close>
  "restarted \<kappa> = (no_connections (shared_table \<kappa>))\<lparr>phase_of :=
     (\<lambda>s. if phase_of \<kappa> s = Absent then Absent else Gone)\<rparr>"

inductive cluster_step ::
    "'w driver \<Rightarrow> ('g \<Rightarrow> scylla_manager) \<Rightarrow> ('g \<Rightarrow> config) \<Rightarrow> ('g, 's) cluster_event
       \<Rightarrow> ('g, 's, 'w) cluster \<Rightarrow> ('g, 's, 'w) cluster \<Rightarrow> bool"
  for exec :: "'w driver" and mgr :: "'g \<Rightarrow> scylla_manager" and cfg :: "'g \<Rightarrow> config" where
  acts: "conn_step exec (mgr g) (cfg g) s (see_table (table C) (node C g)) \<kappa> \<Longrightarrow>
    cluster_step exec mgr cfg (Acts g s) C (C\<lparr>node := (node C)(g := \<kappa>), table := shared_table \<kappa>\<rparr>)"
| crashes: "cluster_step exec mgr cfg (Crashes g) C (C\<lparr>node := (node C)(g := restarted (node C g))\<rparr>)"

definition idle_cluster :: "'w \<Rightarrow> ('g, 's, 'w) cluster" where
  "idle_cluster w = \<lparr>node = (\<lambda>g. no_connections w), table = w\<rparr>"

inductive cluster_run ::
    "'w driver \<Rightarrow> ('g \<Rightarrow> scylla_manager) \<Rightarrow> ('g \<Rightarrow> config) \<Rightarrow> 'w
       \<Rightarrow> (('g, 's, 'w) cluster \<times> ('g, 's) cluster_event) list \<Rightarrow> ('g, 's, 'w) cluster \<Rightarrow> bool"
  for exec :: "'w driver" and mgr :: "'g \<Rightarrow> scylla_manager" and cfg :: "'g \<Rightarrow> config" and w :: 'w where
  cluster_start: "cluster_run exec mgr cfg w [] (idle_cluster w)"
| cluster_more: "cluster_run exec mgr cfg w hist C \<Longrightarrow> cluster_step exec mgr cfg e C C' \<Longrightarrow>
    cluster_run exec mgr cfg w (hist @ [(C, e)]) C'"

section \<open>Each gateway by itself\<close>

lemma see_table_simps [simp]:
  "phase_of (see_table w \<kappa>) = phase_of \<kappa>" "pc (reg (see_table w \<kappa>)) = pc (reg \<kappa>)"
  "clients (the_registry (reg (see_table w \<kappa>))) = clients (the_registry (reg \<kappa>))"
  "clientMapLock (reg (see_table w \<kappa>)) = clientMapLock (reg \<kappa>)" "socket_count (see_table w \<kappa>) = socket_count \<kappa>"
  "shared_table (see_table w \<kappa>) = w" "see_table (shared_table \<kappa>) \<kappa> = \<kappa>"
  by (simp_all add: see_table_def shared_table_def)

lemma see_table_invs [simp]:
  "callback_inv (see_table w \<kappa>) = callback_inv \<kappa>" "map_inv (see_table w \<kappa>) = map_inv \<kappa>"
  "socket_inv (see_table w \<kappa>) = socket_inv \<kappa>"
  by (simp_all add: callback_inv_def map_inv_def socket_inv_def)

definition local_inv :: "('s, 'w) concurrent \<Rightarrow> bool" where
  "local_inv \<kappa> \<longleftrightarrow> callback_inv \<kappa> \<and> map_inv \<kappa> \<and> socket_inv \<kappa>"

lemma local_inv_empty [simp]: "local_inv (no_connections w)" "local_inv (restarted \<kappa>)"
  by (auto simp: local_inv_def restarted_def no_connections_def start_state_def callback_inv_def map_inv_def
      socket_inv_def)

lemma cluster_local_inv: "cluster_run exec mgr cfg w hist C \<Longrightarrow> local_inv (node C g)"
proof (induction arbitrary: g rule: cluster_run.induct)
  case cluster_start
  then show ?case by (simp add: idle_cluster_def)
next
  case (cluster_more hist C e C')
  show ?case
    using cluster_more(2)
  proof (cases rule: cluster_step.cases)
    case (acts h s \<kappa>)
    have "local_inv \<kappa>"
      using callback_inv_step [OF acts(3)] map_inv_step [OF acts(3)] socket_inv_step [OF acts(3)]
        cluster_more.IH [of h] by (simp add: local_inv_def)
    then show ?thesis using acts(2) cluster_more.IH by simp
  qed (use cluster_more.IH in simp)
qed

section \<open>One connection of a vehicle at a time\<close>

definition one_at_a_time :: "string \<Rightarrow> ('g, 's, 'w) cluster \<Rightarrow> bool" where
  \<comment> \<open>at most one connection of the id in the whole cluster, and all ids can be stored\<close>
  "one_at_a_time k C \<longleftrightarrow>
     (\<forall>g s h t. phase_id (phase_of (node C g) s) = Some k \<longrightarrow> phase_id (phase_of (node C h) t) = Some k \<longrightarrow>
        g = h \<and> s = t)
   \<and> (\<forall>g s j. phase_id (phase_of (node C g) s) = Some j \<longrightarrow> literal_safe j)"

definition at_rest :: "string \<Rightarrow> ('g, 's, 'w) cluster \<Rightarrow> bool" where
  \<comment> \<open>no operation on the id is under way\<close>
  "at_rest k C \<longleftrightarrow> (\<forall>g s. \<not> busy_on k (pc (reg (node C g)) s))"

definition clients_at :: "('g, 's, 'w) cluster \<Rightarrow> 'g \<Rightarrow> string \<Rightarrow> 's option" where
  "clients_at C g = clients (the_registry (reg (node C g)))"

fun spares :: "string \<Rightarrow> ('g, 's, 'w) cluster \<times> ('g, 's) cluster_event \<Rightarrow> bool" where
  \<comment> \<open>no crash takes a connection of the id away\<close>
  "spares k (C, Crashes g) = (\<forall>s. phase_id (phase_of (node C g) s) \<noteq> Some k)"
| "spares k (C, Acts g s) = True"

definition decided :: "string \<Rightarrow> ('g, 's, 'w) cluster \<Rightarrow> 'g \<Rightarrow> 's \<Rightarrow> 's op \<Rightarrow> bool" where
  \<comment> \<open>the operation has updated the map and not yet written its row\<close>
  "decided k C g s op \<longleftrightarrow> op \<in> set (unwritten (pc (reg (node C g)) s)) \<and> op_key op = k"

definition rows_inv ::
    "('w \<Rightarrow> string \<Rightarrow> string option) \<Rightarrow> ('g \<Rightarrow> string) \<Rightarrow> string \<Rightarrow> bool \<Rightarrow> ('g, 's, 'w) cluster \<Rightarrow> bool" where
  "rows_inv rows nm k exact C \<longleftrightarrow>
     (\<forall>g s op. decided k C g s op \<longrightarrow> clients_at C g k = online_after op)
   \<and> ((\<nexists>g s op. decided k C g s op) \<longrightarrow>
        (\<forall>g. (clients_at C g k \<noteq> None \<longrightarrow> rows (table C) k = Some (nm g))
           \<and> (exact \<longrightarrow> rows (table C) k = Some (nm g) \<longrightarrow> clients_at C g k \<noteq> None)))"

lemma decided_phase:
  assumes "local_inv (node C g)" "decided k C g s op"
  shows "phase_id (phase_of (node C g) s) = Some k"
proof -
  have "current_op (pc (reg (node C g)) s) = Some op"
    using assms(2) by (cases "pc (reg (node C g)) s") (auto simp: decided_def)
  then have "phase_op s (phase_of (node C g) s) = Some op"
    using callback_op assms(1) by (auto simp: local_inv_def)
  then show ?thesis using phase_op_key assms(2) by (auto simp: decided_def)
qed

lemma map_phase: "local_inv (node C g) \<Longrightarrow> clients_at C g k = Some s \<Longrightarrow> phase_id (phase_of (node C g) s) = Some k"
  by (simp add: local_inv_def map_inv_def clients_at_def)

lemma rows_inv_cong:
  assumes "rows_inv rows nm k exact C" "\<And>g. clients_at C' g k = clients_at C g k" "rows (table C') k = rows (table C) k"
    and "\<And>g s op. decided k C' g s op \<longleftrightarrow> decided k C g s op"
  shows "rows_inv rows nm k exact C'"
  using assms(1) unfolding rows_inv_def assms(2-4) .

section \<open>Steps\<close>

lemma registry_step_kinds:
  assumes "registry_step exec m s st st'"
  obtains (silent) "clients (the_registry st') = clients (the_registry st)"
      "db (the_registry st') = db (the_registry st)" "\<And>t. unwritten (pc st' t) = unwritten (pc st t)"
    | (updates) op where "pc st s = Critical op" "pc st' = (pc st)(s := Leaving op)"
      "clients (the_registry st') = (clients (the_registry st))(op_key op := online_after op)"
      "db (the_registry st') = db (the_registry st)"
    | (writes) op where "pc st s = Writing op" "pc st' = (pc st)(s := Idle)"
      "clients (the_registry st') = clients (the_registry st)"
      "db (the_registry st') = db_effect exec m op (db (the_registry st))"
  using assms
proof (cases rule: registry_step.cases)
  case (update op)
  then show ?thesis by (intro updates [of op]) (simp_all add: map_effect_val)
next
  case (statement op)
  then show ?thesis by (intro writes [of op]) simp_all
qed (auto intro!: silent)

definition driver_ok ::
    "'w driver \<Rightarrow> ('w \<Rightarrow> string \<Rightarrow> string option) \<Rightarrow> ('g \<Rightarrow> scylla_manager) \<Rightarrow> bool" where
  \<comment> \<open>the driver behaves as documented towards every gateway and accepts every statement, and
     the gateways have different storable names\<close>
  "driver_ok exec rows mgr \<longleftrightarrow> inj (\<lambda>g. getAppServerName (mgr g))
     \<and> (\<forall>g. cql_driver exec rows (mgr g) \<and> reliable exec (mgr g)
          \<and> literal_safe (getAppServerName (mgr g)) \<and> getAppServerName (mgr g) \<noteq> ''NA'')"

lemma driver_ok_effect:
  "driver_ok exec rows mgr \<Longrightarrow> literal_safe (op_key op) \<Longrightarrow>
     rows (db_effect exec (mgr g) op w) = (rows w)(op_key op := row_after (getAppServerName (mgr g)) op)"
  using db_effect_val [of exec rows "mgr g" op w] by (simp add: driver_ok_def)

lemma driver_ok_names:
  "driver_ok exec rows mgr \<Longrightarrow> getAppServerName (mgr g) = getAppServerName (mgr h) \<longleftrightarrow> g = h"
  "driver_ok exec rows mgr \<Longrightarrow> getAppServerName (mgr g) \<noteq> ''NA''"
  by (auto simp: driver_ok_def dest: injD)

lemma only_connection:
  assumes "one_at_a_time k C" "\<And>g. local_inv (node C g)" "phase_id (phase_of (node C g) s) = Some k"
  shows "h \<noteq> g \<Longrightarrow> clients_at C h k = None" "decided k C h t op \<Longrightarrow> h = g \<and> t = s"
proof -
  have only: "h' = g \<and> t' = s" if "phase_id (phase_of (node C h') t') = Some k" for h' t'
    using assms(1,3) that unfolding one_at_a_time_def by blast
  show "clients_at C h k = None" if "h \<noteq> g"
    using only map_phase [OF assms(2)] that by (cases "clients_at C h k") blast+
  show "h = g \<and> t = s" if "decided k C h t op"
    using only decided_phase [OF assms(2) that] by blast
qed

lemma crash_keeps_rows_inv:
  assumes "rows_inv rows nm k exact C" "one_at_a_time k C" "\<And>g. local_inv (node C g)"
    and "exact \<Longrightarrow> \<forall>s. phase_id (phase_of (node C g) s) \<noteq> Some k"
  shows "rows_inv rows nm k exact (C\<lparr>node := (node C)(g := restarted (node C g))\<rparr>)" (is "rows_inv _ _ _ _ ?C")
proof -
  have gone: "clients_at ?C g k = None" "\<not> decided k ?C g s op" for s op
    by (simp_all add: clients_at_def decided_def restarted_def no_connections_def start_state_def)
  have same: "clients_at ?C h k = clients_at C h k" "decided k ?C h s op = decided k C h s op" if "h \<noteq> g" for h s op
    using that by (simp_all add: clients_at_def decided_def)
  have tab: "table ?C = table C" by simp
  show ?thesis
  proof (cases "\<exists>s op. decided k C g s op")
    case True
    then obtain s op where d: "decided k C g s op" by blast
    note here = decided_phase [OF assms(3) d]
    note only = only_connection [OF assms(2,3) here]
    have none: "clients_at ?C h k = None" for h
      using gone(1) only(1) same(1) by (cases "h = g") simp_all
    have "\<not> decided k ?C h t op'" for h t op'
      using gone(2) only(2) same(2) by (cases "h = g") blast+
    moreover have "\<not> exact" using assms(4) here by blast
    ultimately show ?thesis using none by (simp add: rows_inv_def)
  next
    case False
    have all: "decided k ?C h t op \<longleftrightarrow> decided k C h t op" for h t op
      using False gone(2) same(2) by (cases "h = g") blast+
    have "exact \<Longrightarrow> clients_at C g k = None" using map_phase [OF assms(3)] assms(4) by (cases "clients_at C g k") auto
    moreover have "clients_at ?C h k = clients_at C h k \<or> h = g" for h using same(1) by blast
    ultimately show ?thesis
      using assms(1) False gone(1) unfolding rows_inv_def all tab by (metis (no_types))
  qed
qed

abbreviation acted :: "'g \<Rightarrow> ('s, 'w) concurrent \<Rightarrow> ('g, 's, 'w) cluster \<Rightarrow> ('g, 's, 'w) cluster" where
  \<comment> \<open>a gateway has acted on its own state and on the table\<close>
  "acted g \<kappa> C \<equiv> C\<lparr>node := (node C)(g := \<kappa>), table := shared_table \<kappa>\<rparr>"

lemma acted_here: "clients_at (acted g \<kappa> C) g = clients (the_registry (reg \<kappa>))" "table (acted g \<kappa> C) = db (the_registry (reg \<kappa>))"
  by (simp_all add: clients_at_def shared_table_def)

lemma acted_there: "h \<noteq> g \<Longrightarrow> clients_at (acted g \<kappa> C) h = clients_at C h"
  "h \<noteq> g \<Longrightarrow> decided k (acted g \<kappa> C) h t op = decided k C h t op"
  by (simp_all add: clients_at_def decided_def)

lemma acted_elsewhere:
  \<comment> \<open>nothing has changed for the id\<close>
  assumes "rows_inv rows nm k exact C" "clients (the_registry (reg \<kappa>)) k = clients_at C g k"
    and "rows (db (the_registry (reg \<kappa>))) k = rows (table C) k"
    and "\<And>t op. op_key op = k \<Longrightarrow>
      op \<in> set (unwritten (pc (reg \<kappa>) t)) \<longleftrightarrow> op \<in> set (unwritten (pc (reg (node C g)) t))"
  shows "rows_inv rows nm k exact (acted g \<kappa> C)"
proof (rule rows_inv_cong [OF assms(1)])
  show "clients_at (acted g \<kappa> C) h k = clients_at C h k" for h
    using assms(2) by (cases "h = g") (simp_all add: acted_here(1) acted_there(1))
  show "decided k (acted g \<kappa> C) h t op = decided k C h t op" for h t op
    using assms(4) by (cases "h = g") (simp_all add: acted_there(2), auto simp: decided_def)
qed (simp add: acted_here(2) assms(3))

lemma op_phase:
  assumes "local_inv (node C g)" "current_op (pc (reg (node C g)) s) = Some op"
  shows "phase_id (phase_of (node C g) s) = Some (op_key op)"
  using phase_op_key [OF callback_op [OF _ assms(2)]] assms(1) by (simp add: local_inv_def)

lemma update_keeps_rows_inv:
  assumes "rows_inv rows nm k exact C" "one_at_a_time k C" "\<And>g. local_inv (node C g)"
    and "pc (reg (node C g)) s = Critical op" "pc (reg \<kappa>) = (pc (reg (node C g)))(s := Leaving op)"
    and "clients (the_registry (reg \<kappa>)) = (clients_at C g)(op_key op := online_after op)"
    and "db (the_registry (reg \<kappa>)) = table C"
  shows "rows_inv rows nm k exact (acted g \<kappa> C)"
proof (cases "op_key op = k")
  case False
  have "op' \<in> set (unwritten (pc (reg \<kappa>) t)) \<longleftrightarrow> op' \<in> set (unwritten (pc (reg (node C g)) t))"
    if "op_key op' = k" for t op'
    using that False assms(4,5) by (cases "t = s") auto
  then show ?thesis using False assms(6,7) by (intro acted_elsewhere [OF assms(1)]) simp_all
next
  case True
  have "phase_id (phase_of (node C g) s) = Some k" using op_phase [OF assms(3)] assms(4) True by fastforce
  note only = only_connection [OF assms(2,3) this]
  have dec: "decided k (acted g \<kappa> C) g s op" using assms(5) True by (simp add: decided_def)
  have "h = g \<and> t = s \<and> op' = op" if d: "decided k (acted g \<kappa> C) h t op'" for h t op'
  proof (cases "h = g \<and> t = s")
    case True
    then show ?thesis using d assms(5) by (simp add: decided_def)
  next
    case False
    then have "decided k C h t op'" using d assms(5) acted_there(2) by (cases "h = g") (simp_all add: decided_def)
    then show ?thesis using only(2) False by blast
  qed
  then show ?thesis using dec assms(6) True acted_here(1) [where g = g and \<kappa> = \<kappa> and C = C] unfolding rows_inv_def by fastforce
qed

lemma write_keeps_rows_inv:
  assumes "driver_ok exec rows mgr" "rows_inv rows (\<lambda>g. getAppServerName (mgr g)) k exact C"
    and "one_at_a_time k C" "\<And>g. local_inv (node C g)"
    and "pc (reg (node C g)) s = Writing op" "pc (reg \<kappa>) = (pc (reg (node C g)))(s := Idle)"
    and "clients (the_registry (reg \<kappa>)) = clients_at C g"
    and "db (the_registry (reg \<kappa>)) = db_effect exec (mgr g) op (table C)"
  shows "rows_inv rows (\<lambda>g. getAppServerName (mgr g)) k exact (acted g \<kappa> C)" (is "rows_inv _ ?nm _ _ ?C")
proof -
  have ph: "phase_id (phase_of (node C g) s) = Some (op_key op)" using op_phase [OF assms(4)] assms(5) by fastforce
  have "literal_safe (op_key op)" using ph assms(3) unfolding one_at_a_time_def by blast
  from driver_ok_effect [OF assms(1) this]
  have row: "rows (db (the_registry (reg \<kappa>))) = (rows (table C))(op_key op := row_after (?nm g) op)"
    using assms(8) by simp
  show ?thesis
  proof (cases "op_key op = k")
    case False
    have "op' \<in> set (unwritten (pc (reg \<kappa>) t)) \<longleftrightarrow> op' \<in> set (unwritten (pc (reg (node C g)) t))"
      if "op_key op' = k" for t op'
      using that False assms(5,6) by (cases "t = s") auto
    then show ?thesis using False assms(7) row by (intro acted_elsewhere [OF assms(2)]) simp_all
  next
    case True
    note only = only_connection [OF assms(3,4) ph [unfolded True]]
    have "decided k C g s op" using assms(5) True by (simp add: decided_def)
    then have val: "clients_at C g k = online_after op" using assms(2) unfolding rows_inv_def by blast
    have none: "\<not> decided k ?C h t op'" for h t op'
    proof (cases "h = g \<and> t = s")
      case False
      then show ?thesis using only(2) [of h t op'] assms(6) acted_there(2) by (cases "h = g") (auto simp: decided_def)
    qed (use assms(6) in \<open>simp add: decided_def\<close>)
    have "(clients_at ?C h k \<noteq> None) = (rows (table ?C) k = Some (?nm h))" for h
    proof (cases "h = g")
      case True
      then show ?thesis
        using val online_row [OF driver_ok_names(2) [OF assms(1)], of op g] acted_here [where g = g and \<kappa> = \<kappa> and C = C] row
          \<open>op_key op = k\<close> assms(7) by simp
    next
      case False
      then have "row_after (?nm g) op \<noteq> Some (?nm h)"
        using driver_ok_names [OF assms(1)] by (cases op) (auto simp: eq_commute)
      then show ?thesis
        using only(1) [OF False] row True unfolding acted_there(1) [OF False] acted_here(2) by simp
    qed
    then show ?thesis using none unfolding rows_inv_def by blast
  qed
qed

lemma act_keeps_rows_inv:
  assumes "driver_ok exec rows mgr" "rows_inv rows (\<lambda>g. getAppServerName (mgr g)) k exact C"
    and "one_at_a_time k C" "\<And>g. local_inv (node C g)"
    and "conn_step exec (mgr g) (cfg g) s (see_table (table C) (node C g)) \<kappa>"
  shows "rows_inv rows (\<lambda>g. getAppServerName (mgr g)) k exact (acted g \<kappa> C)"
proof -
  let ?k0 = "see_table (table C) (node C g)"
  have db0: "db (the_registry (reg ?k0)) = table C" by (simp add: see_table_def)
  have cl0: "clients (the_registry (reg ?k0)) = clients_at C g" by (simp add: clients_at_def)
  have "reg \<kappa> = reg ?k0 \<or> registry_step exec (mgr g) s (reg ?k0) (reg \<kappa>)"
    using conn_step_registry [OF assms(5)] assms(4) [of g] by (simp add: local_inv_def)
  then show ?thesis
  proof
    assume "reg \<kappa> = reg ?k0"
    then show ?thesis using db0 cl0 by (intro acted_elsewhere [OF assms(2)]) simp_all
  next
    assume "registry_step exec (mgr g) s (reg ?k0) (reg \<kappa>)"
    then show ?thesis
    proof (cases rule: registry_step_kinds)
      case silent
      then show ?thesis using db0 cl0 by (intro acted_elsewhere [OF assms(2)]) simp_all
    next
      case (updates op)
      then show ?thesis using update_keeps_rows_inv [OF assms(2-4), of g s op \<kappa>] db0 cl0 by simp
    next
      case (writes op)
      then show ?thesis using write_keeps_rows_inv [OF assms(1-4), of g s op \<kappa>] db0 cl0 by simp
    qed
  qed
qed

section \<open>Runs\<close>

lemma cluster_rows_inv:
  assumes "cluster_run exec mgr cfg w hist C" "driver_ok exec rows mgr"
    and "list_all (\<lambda>e. one_at_a_time k (fst e)) hist"
    and "exact \<Longrightarrow> list_all (spares k) hist \<and> (\<forall>g. rows w k \<noteq> Some (getAppServerName (mgr g)))"
  shows "rows_inv rows (\<lambda>g. getAppServerName (mgr g)) k exact C"
  using assms(1,3,4)
proof (induction rule: cluster_run.induct)
  case cluster_start
  then show ?case
    by (simp add: rows_inv_def decided_def clients_at_def idle_cluster_def no_connections_def start_state_def)
next
  case (cluster_more hist C e C')
  then have inv: "rows_inv rows (\<lambda>g. getAppServerName (mgr g)) k exact C" and one: "one_at_a_time k C"
    by simp_all
  note local = cluster_local_inv [OF cluster_more(1)]
  show ?case
    using cluster_more(2)
  proof (cases rule: cluster_step.cases)
    case (acts g s \<kappa>)
    show ?thesis unfolding acts(2) by (rule act_keeps_rows_inv [where cfg = cfg and mgr = mgr, OF assms(2) inv one local acts(3)])
  next
    case (crashes g)
    have "exact \<Longrightarrow> \<forall>s. phase_id (phase_of (node C g) s) \<noteq> Some k"
      using cluster_more.prems(2) crashes(1) by simp
    then show ?thesis unfolding crashes(2) by (rule crash_keeps_rows_inv [OF inv one local])
  qed
qed

lemma gateway_path:
  \<comment> \<open>what one gateway does while the others rest\<close>
  assumes "(conn_step exec (mgr g) (cfg g) s)\<^sup>+\<^sup>+ (see_table (table C) (node C g)) \<kappa>"
    and "cluster_run exec mgr cfg w hist C"
  shows "\<exists>more. cluster_run exec mgr cfg w (hist @ more) (C\<lparr>node := (node C)(g := \<kappa>), table := shared_table \<kappa>\<rparr>)
    \<and> list_all (\<lambda>e. snd e = Acts g s) more"
  using assms(1)
proof (induction rule: tranclp_induct)
  case (base \<kappa>)
  from cluster_run.cluster_more [OF assms(2) cluster_step.acts [where mgr = mgr and cfg = cfg, OF base]] show ?case
    by (intro exI [of _ "[(C, Acts g s)]"] conjI) (simp_all del: fun_upd_apply)
next
  case (step \<kappa>1 \<kappa>2)
  let ?C1 = "C\<lparr>node := (node C)(g := \<kappa>1), table := shared_table \<kappa>1\<rparr>"
  obtain more where more: "cluster_run exec mgr cfg w (hist @ more) ?C1" "list_all (\<lambda>e. snd e = Acts g s) more"
    using step.IH by blast
  have "conn_step exec (mgr g) (cfg g) s (see_table (table ?C1) (node ?C1 g)) \<kappa>2" using step(2) by simp
  from cluster_run.cluster_more [OF more(1) cluster_step.acts [where mgr = mgr and cfg = cfg, OF this]] more(2) show ?case
    by (intro exI [of _ "more @ [(?C1, Acts g s)]"]) (simp del: fun_upd_apply)
qed

lemma connects_at:
  \<comment> \<open>a vehicle connects while everything rests\<close>
  assumes "cluster_run exec mgr cfg w hist C" "phase_of (node C g) s = Absent"
    and "\<not> clientMapLock (reg (node C g))"
  shows "\<exists>more C'. cluster_run exec mgr cfg w (hist @ more) C' \<and> (\<forall>h. h \<noteq> g \<longrightarrow> node C' h = node C h)
    \<and> list_all (\<lambda>e. snd e = Acts g s) more
    \<and> phase_of (node C' g) = (phase_of (node C g))(s := Serving k) \<and> clients_at C' g k = Some s
    \<and> pc (reg (node C' g)) = (pc (reg (node C g)))(s := Idle) \<and> \<not> clientMapLock (reg (node C' g))
    \<and> table C' = db_effect exec (mgr g) (Add k s) (table C)"
proof -
  obtain \<kappa> where k: "(conn_step exec (mgr g) (cfg g) s)\<^sup>+\<^sup>+ (see_table (table C) (node C g)) \<kappa>"
    "phase_of \<kappa> = (phase_of (node C g))(s := Serving k)" "clients (the_registry (reg \<kappa>)) k = Some s"
    "pc (reg \<kappa>) = (pc (reg (node C g)))(s := Idle)" "\<not> clientMapLock (reg \<kappa>)"
    "shared_table \<kappa> = db_effect exec (mgr g) (Add k s) (table C)"
    using connection_path [of "see_table (table C) (node C g)" s exec "mgr g" "cfg g" k] assms(2,3)
    by (auto simp: shared_table_def see_table_def)
  from gateway_path [where mgr = mgr and cfg = cfg, OF k(1) assms(1)] k(2-) show ?thesis
    by (fastforce simp: clients_at_def)
qed

lemma conn_step_id:
  \<comment> \<open>a socket has one id\<close>
  "conn_step exec m cfg s \<kappa> \<kappa>' \<Longrightarrow> phase_of \<kappa>' s = Absent \<or> phase_id (phase_of \<kappa>' s) = Some k \<Longrightarrow>
     phase_of \<kappa> s = Absent \<or> phase_id (phase_of \<kappa> s) = Some k"
  "conn_step exec m cfg s \<kappa> \<kappa>' \<Longrightarrow> t \<noteq> s \<Longrightarrow> phase_of \<kappa>' t = phase_of \<kappa> t"
  by (erule conn_step.cases; auto)+

definition only_here :: "'g \<Rightarrow> 's \<Rightarrow> string \<Rightarrow> ('g, 's, 'w) cluster \<Rightarrow> bool" where
  "only_here g s k C \<longleftrightarrow> (\<forall>h t. phase_of (node C h) t = Absent
     \<or> h = g \<and> t = s \<and> phase_id (phase_of (node C h) t) = Some k)"

lemma only_here_one: "only_here g s k C \<Longrightarrow> literal_safe k \<Longrightarrow> one_at_a_time k C"
  unfolding only_here_def one_at_a_time_def by (metis option.distinct(1) option.inject phase_id.simps(5))

lemma only_here_run:
  assumes "cluster_run exec mgr cfg w hist C" "list_all (\<lambda>e. snd e = Acts g s) hist"
    and "phase_of (node C g) s = Absent \<or> phase_id (phase_of (node C g) s) = Some k"
  shows "only_here g s k C \<and> list_all (\<lambda>e. only_here g s k (fst e)) hist"
  using assms
proof (induction rule: cluster_run.induct)
  case cluster_start
  then show ?case by (simp add: only_here_def idle_cluster_def no_connections_def)
next
  case (cluster_more hist C e C')
  obtain \<kappa> where k: "conn_step exec (mgr g) (cfg g) s (see_table (table C) (node C g)) \<kappa>"
    "C' = C\<lparr>node := (node C)(g := \<kappa>), table := shared_table \<kappa>\<rparr>"
    using cluster_more(2) cluster_more.prems(1) by (auto elim: cluster_step.cases)
  have "only_here g s k C \<and> list_all (\<lambda>e. only_here g s k (fst e)) hist"
    using cluster_more.IH cluster_more.prems conn_step_id(1) [OF k(1)] k(2) by simp
  moreover have "only_here g s k C'" if "only_here g s k C"
  proof -
    have "phase_of \<kappa> t = Absent \<or> t = s \<and> phase_id (phase_of \<kappa> t) = Some k" for t
      using that cluster_more.prems(2) conn_step_id(2) [OF k(1), of t] k(2)
      by (cases "t = s") (auto simp: only_here_def)
    then have "phase_of (node C' h) t = Absent \<or> h = g \<and> t = s \<and> phase_id (phase_of (node C' h) t) = Some k" for h t
      using that k(2) by (cases "h = g") (auto simp: only_here_def)
    then show ?thesis by (simp add: only_here_def)
  qed
  ultimately show ?case by simp
qed

definition two_gateways :: "bool \<Rightarrow> scylla_manager" where
  "two_gateways g = default_manager (if g then ''gw1'' else ''gw2'')"

lemma two_gateways_name [simp]: "getAppServerName (two_gateways g) = (if g then ''gw1'' else ''gw2'')"
  by (simp add: two_gateways_def getAppServerName_def)

lemma two_gateways_ok: "driver_ok (cql_exec ''vin'' ''vehicles'') (\<lambda>w. w) two_gateways"
  using reference.cql_driver_axioms reference_reliable
  by (auto simp: driver_ok_def inj_def literal_safe_def two_gateways_def getAppServerName_def)

section \<open>Properties\<close>



text \<open>
  C15. A late close hides a vehicle that has moved on: if it has reconnected at another
  gateway while the old one still holds its old connection, which a dead link takes minutes to
  show, then the old gateway's clean-up, alone and undisturbed, leaves the vehicle connected at
  the new gateway and \<open>NA\<close> in the table: \<open>setClientNotAvailable\<close> overwrites whatever the row says.
\<close>

theorem late_close_hides_vehicle:
  fixes C :: "('g, 's, 'w) cluster"
  assumes "driver_ok exec rows mgr" "cluster_run exec mgr cfg w hist C" "literal_safe k"
    and "g \<noteq> h" "clients_at C h k = Some t"
    and "phase_of (node C g) s = Serving k" "\<not> clientMapLock (reg (node C g))"
  shows "\<exists>more C'. cluster_run exec mgr cfg w (hist @ more) C' \<and> list_all (\<lambda>e. snd e = Acts g s) more
    \<and> phase_of (node C' g) s = Gone
    \<and> clients_at C' h k = Some t \<and> phase_of (node C' h) t = phase_of (node C h) t
    \<and> rows (table C') k = Some ''NA''"
proof -
  obtain \<kappa> where k: "(conn_step exec (mgr g) (cfg g) s)\<^sup>+\<^sup>+ (see_table (table C) (node C g)) \<kappa>"
    "phase_of \<kappa> s = Gone"
    "shared_table \<kappa> = db_effect exec (mgr g) (NotAvailable k :: 's op) (table C)"
    using closing_path [of "see_table (table C) (node C g)" s k exec "mgr g" "cfg g"] assms(6,7)
    by (auto simp: shared_table_def see_table_def)
  have "rows (shared_table \<kappa>) k = Some ''NA''"
    using driver_ok_effect [OF assms(1), of "NotAvailable k :: 's op" g "table C"] assms(3) k(3) by simp
  with gateway_path [where mgr = mgr and cfg = cfg, OF k(1) assms(2)] k(2) assms(4,5) show ?thesis
    by (fastforce simp: clients_at_def)
qed

lemma late_close_hides_vehicle_witness:
  "\<exists>hist C. cluster_run (cql_exec ''vin'' ''vehicles'') two_gateways (\<lambda>_. Config_of ''gw'' Map.empty) Map.empty hist
       (C :: (bool, nat, string \<Rightarrow> string option) cluster)
     \<and> clients_at C False ''V1'' = Some 2 \<and> table C ''V1'' = Some ''NA''"
proof -
  let ?e = "cql_exec ''vin'' ''vehicles''" and ?c = "\<lambda>_ :: bool. Config_of ''gw'' Map.empty"
  let ?C0 = "idle_cluster Map.empty :: (bool, nat, string \<Rightarrow> string option) cluster"
  have safe: "literal_safe ''V1''" by (simp add: literal_safe_def)
  have idle: "phase_of (node ?C0 g) s = Absent" "\<not> clientMapLock (reg (node ?C0 g))" for g s
    by (simp_all add: idle_cluster_def no_connections_def start_state_def)
  obtain h1 and C1 :: "(bool, nat, string \<Rightarrow> string option) cluster" where
    1: "cluster_run ?e two_gateways ?c Map.empty h1 C1" "node C1 False = node ?C0 False"
    "phase_of (node C1 True) 1 = Serving ''V1''" "\<not> clientMapLock (reg (node C1 True))"
    using connects_at [OF cluster_run.cluster_start [of ?e two_gateways ?c Map.empty] idle(1,2), of True 1 "''V1''"]
    by auto
  have "phase_of (node C1 False) 2 = Absent" "\<not> clientMapLock (reg (node C1 False))" using 1(2) idle by simp_all
  from connects_at [OF 1(1) this, of "''V1''"]
  obtain h2 and C2 :: "(bool, nat, string \<Rightarrow> string option) cluster" where
    2: "cluster_run ?e two_gateways ?c Map.empty h2 C2" "node C2 True = node C1 True"
    "clients_at C2 False ''V1'' = Some 2" by auto
  have "phase_of (node C2 True) 1 = Serving ''V1''" "\<not> clientMapLock (reg (node C2 True))" using 1(3,4) 2(2) by simp_all
  from late_close_hides_vehicle [OF two_gateways_ok 2(1) safe _ 2(3) this] show ?thesis by auto
qed

end
