(* ===== verification/Gateway.thy ===== *)
theory Gateway
  imports Listener
begin

text \<open>
  The running gateway: the listeners, the registry, the coroutines on the \<open>boost::asio\<close> context
  and the calls on the sockets, put together as a step relation. oatpp's executor and the
  context run what is spawned in any order, so an event may be the creation or destruction of
  a socket, a frame, a close frame or a ping that arrives, or the end of any pending exchange with
  the backend; a run is a list of events. The guards are what the libraries guarantee: callbacks
  are for sockets that exist, no socket is created twice, and a message buffer fits into memory.
\<close>

section \<open>State and events\<close>

record ('w, 'v, 'f) site =
  site_exec :: "'w driver"
  site_manager :: scylla_manager
  site_config :: config
  site_beast :: "('v, 'f) beast"
  site_order :: "headers \<Rightarrow> headers"

record 's job =
  job_socket :: 's
  job_message :: string
  job_time :: string

record ('s, 'w, 'v, 'f) system =
  gw :: "('s, 'w) gateway"
  live :: "'s set"
  pending :: "'s job list"
  socket_calls :: "('s \<times> socket_call) list"
  wire :: "('s \<times> ('v, 'f) http_request) list"  \<comment> \<open>requests sent to the backend, with their origin\<close>

datatype ('s, 'v, 'f) event =
    Created 's parameter_map "certificate option"
  | Frame 's string int
  | Ping 's string
  | Pong 's string
  | Close 's uint16 string
  | Destroyed 's
  | Finished nat nat "('v, 'f) network"

definition spawn :: "'s \<Rightarrow> (string \<times> string) option \<Rightarrow> 's job list" where
  \<comment> \<open>the message and the time \<open>co_spawn\<close> is called with; host, port and id are references
     into the listener\<close>
  "spawn s spawned =
     (case spawned of
        None \<Rightarrow> []
      | Some (msg, t) \<Rightarrow> [\<lparr>job_socket = s, job_message = msg, job_time = t\<rparr>])"

definition run_job ::
    "('w, 'v, 'f) site \<Rightarrow> listener \<Rightarrow> 's job \<Rightarrow> nat \<Rightarrow> ('v, 'f) network \<Rightarrow> ('v, 'f) outcome result" where
  "run_job S l j draw net =
     asyncHttpClient (site_beast S) net (site_order S) draw (job_message j) (http_server_address l)
       (http_server_port l) (clientID l) (job_time j)"

definition port_written :: "('v, 'f) outcome result \<Rightarrow> listener \<Rightarrow> listener" where
  \<comment> \<open>the coroutine overwrites the listener's port\<close>
  "port_written r l = (case r of Inl e \<Rightarrow> l | Inr x \<Rightarrow> l\<lparr>http_server_port := used_port x\<rparr>)"

definition result_text :: "('v, 'f) outcome result \<Rightarrow> string result" where
  "result_text r = and_then r (\<lambda>x. Inr (reply x))"

definition requests_of :: "('v, 'f) outcome result \<Rightarrow> ('v, 'f) http_request list" where
  "requests_of r = (case r of Inl e \<Rightarrow> [] | Inr x \<Rightarrow> sent x)"

inductive gw_step ::
    "('w, 'v, 'f) site \<Rightarrow> ('s, 'v, 'f) event \<Rightarrow> ('s, 'w, 'v, 'f) system \<Rightarrow> ('s, 'w, 'v, 'f) system \<Rightarrow> bool"
  for S :: "('w, 'v, 'f) site" where
  created: "listeners (gw \<sigma>) s = None \<Longrightarrow>
    onAfterCreate (site_exec S) (site_manager S) (site_config S) s params peer (gw \<sigma>) = Inr (g', calls) \<Longrightarrow>
    gw_step S (Created s params peer) \<sigma>
      (\<sigma>\<lparr>gw := g', live := insert s (live \<sigma>), socket_calls := socket_calls \<sigma> @ calls\<rparr>)"
| frame: "s \<in> live \<sigma> \<Longrightarrow> listeners (gw \<sigma>) s = Some l \<Longrightarrow>
    length (m_messageBuffer l) + length data \<le> max_size \<Longrightarrow>
    readMessage l data (int (length data)) now = (l', spawned) \<Longrightarrow>
    gw_step S (Frame s data now) \<sigma>
      (\<sigma>\<lparr>gw := (gw \<sigma>)\<lparr>listeners := (listeners (gw \<sigma>))(s \<mapsto> l')\<rparr>, pending := pending \<sigma> @ spawn s spawned\<rparr>)"
| ping: "s \<in> live \<sigma> \<Longrightarrow>
    gw_step S (Ping s msg) \<sigma> (\<sigma>\<lparr>socket_calls := socket_calls \<sigma> @ onPing s msg\<rparr>)"
| pong: "s \<in> live \<sigma> \<Longrightarrow>
    gw_step S (Pong s msg) \<sigma> (\<sigma>\<lparr>socket_calls := socket_calls \<sigma> @ onPong s msg\<rparr>)"
| close_frame: "s \<in> live \<sigma> \<Longrightarrow> listeners (gw \<sigma>) s = Some l \<Longrightarrow>
    gw_step S (Close s cc msg) \<sigma>
      (\<sigma>\<lparr>gw := (gw \<sigma>)\<lparr>registry := onClose (site_exec S) (site_manager S) l cc msg (registry (gw \<sigma>))\<rparr>\<rparr>)"
| destroyed: "s \<in> live \<sigma> \<Longrightarrow> onBeforeDestroy (site_exec S) (site_manager S) s (gw \<sigma>) = Inr g' \<Longrightarrow>
    gw_step S (Destroyed s) \<sigma> (\<sigma>\<lparr>gw := g', live := live \<sigma> - {s}\<rparr>)"
| finished: "i < length (pending \<sigma>) \<Longrightarrow> j = pending \<sigma> ! i \<Longrightarrow> listeners (gw \<sigma>) (job_socket j) = Some l \<Longrightarrow>
    r = run_job S l j draw net \<Longrightarrow>
    gw_step S (Finished i draw net) \<sigma>
      (\<sigma>\<lparr>gw := (gw \<sigma>)\<lparr>listeners := (listeners (gw \<sigma>))(job_socket j \<mapsto> port_written r l)\<rparr>,
         pending := take i (pending \<sigma>) @ drop (Suc i) (pending \<sigma>),
         socket_calls := socket_calls \<sigma> @ on_result (job_socket j) (result_text r),
         wire := wire \<sigma> @ map (Pair (job_socket j)) (requests_of r)\<rparr>)"

inductive_simps gw_step_simps:
  "gw_step S (Created s params peer) \<sigma> \<sigma>'"
  "gw_step S (Frame s data now) \<sigma> \<sigma>'"
  "gw_step S (Ping s msg) \<sigma> \<sigma>'"
  "gw_step S (Pong s msg) \<sigma> \<sigma>'"
  "gw_step S (Close s cc msg) \<sigma> \<sigma>'"
  "gw_step S (Destroyed s) \<sigma> \<sigma>'"
  "gw_step S (Finished i draw net) \<sigma> \<sigma>'"

definition idle_system :: "'w \<Rightarrow> ('s, 'w, 'v, 'f) system" where
  "idle_system w = \<lparr>gw = fresh_gateway w, live = {}, pending = [], socket_calls = [], wire = []\<rparr>"

inductive gw_run ::
    "('w, 'v, 'f) site \<Rightarrow> 'w \<Rightarrow> ('s, 'v, 'f) event list \<Rightarrow> ('s, 'w, 'v, 'f) system \<Rightarrow> bool"
  for S :: "('w, 'v, 'f) site" and w :: 'w where
  run_start: "gw_run S w [] (idle_system w)"
| run_step: "gw_run S w tr \<sigma> \<Longrightarrow> gw_step S e \<sigma> \<sigma>' \<Longrightarrow> gw_run S w (tr @ [e]) \<sigma>'"

inductive_cases gw_run_snocE: "gw_run S w (tr @ [e]) \<sigma>"
inductive_cases gw_run_NilE: "gw_run S w [] \<sigma>"

lemma gw_step_functional: "gw_step S e \<sigma> \<sigma>1 \<Longrightarrow> gw_step S e \<sigma> \<sigma>2 \<Longrightarrow> \<sigma>1 = \<sigma>2"
  by (cases e) (auto simp: gw_step_simps)

lemma gw_run_functional: "gw_run S w tr \<sigma>1 \<Longrightarrow> gw_run S w tr \<sigma>2 \<Longrightarrow> \<sigma>1 = \<sigma>2"
proof (induction tr arbitrary: \<sigma>1 \<sigma>2 rule: rev_induct)
  case Nil
  then show ?case by (auto elim!: gw_run_NilE)
next
  case (snoc e tr)
  from snoc.prems(1) obtain \<sigma> where s: "gw_run S w tr \<sigma>" "gw_step S e \<sigma> \<sigma>1"
    by (auto elim: gw_run_snocE)
  from snoc.prems(2) obtain \<sigma>' where s': "gw_run S w tr \<sigma>'" "gw_step S e \<sigma>' \<sigma>2"
    by (auto elim: gw_run_snocE)
  show ?case using snoc.IH [OF s(1) s'(1)] s(2) s'(2) gw_step_functional by blast
qed

section \<open>Connections\<close>

definition conn_inv :: "('s, 'w, 'v, 'f) system \<Rightarrow> bool" where
  "conn_inv \<sigma> \<longleftrightarrow> finite (live \<sigma>) \<and> SOCKETS (gw \<sigma>) = of_nat (card (live \<sigma>))
     \<and> (\<forall>s \<in> live \<sigma>. listeners (gw \<sigma>) s \<noteq> None)
     \<and> (\<forall>k s. clients (registry (gw \<sigma>)) k = Some s \<longrightarrow>
          s \<in> live \<sigma> \<and> map_option clientID (listeners (gw \<sigma>) s) = Some k)"

lemma readMessage_keeps: "readMessage l data n now = (l', sp) \<Longrightarrow>
    clientID l' = clientID l \<and> http_server_port l' = http_server_port l
    \<and> http_server_address l' = http_server_address l"
  by (auto simp: readMessage_def split: if_splits)

lemma port_written_id [simp]:
  "clientID (port_written r l) = clientID l" "m_messageBuffer (port_written r l) = m_messageBuffer l"
  "http_server_address (port_written r l) = http_server_address l"
  by (simp_all add: port_written_def split: sum.splits)

lemma conn_registered:
  "conn_inv \<sigma> \<Longrightarrow> clients (registry (gw \<sigma>)) k = Some s \<Longrightarrow> listeners (gw \<sigma>) s = Some l \<Longrightarrow>
     clientID l = k \<and> s \<in> live \<sigma>"
  by (fastforce simp: conn_inv_def)

lemma conn_inv_step:
  assumes "gw_step S e \<sigma> \<sigma>'" "conn_inv \<sigma>"
  shows "conn_inv \<sigma>'"
  using assms(1)
proof (cases rule: gw_step.cases)
  case (created s params peer g' calls)
  then have "s \<notin> live \<sigma>" using assms(2) by (auto simp: conn_inv_def)
  then show ?thesis
    using assms(2) created
    by (auto simp: conn_inv_def onAfterCreate_Inr WebSocketListener_def card_insert_if
        split: if_splits)
next
  case (frame s l data now l' spawned)
  moreover have "clientID l = k" if "clients (registry (gw \<sigma>)) k = Some s" for k
    using conn_registered [OF assms(2) that frame(4)] by simp
  ultimately show ?thesis
    using assms(2) readMessage_keeps [OF frame(6)] by (auto simp: conn_inv_def)
next
  case (close_frame s l cc msg)
  then show ?thesis using assms(2) by (auto simp: conn_inv_def onClose_def split: if_splits)
next
  case (destroyed s g')
  then have "card (live \<sigma>) = Suc (card (live \<sigma> - {s}))"
    using assms(2) by (metis card_Suc_Diff1 conn_inv_def)
  moreover have "clientID l = k" if "clients (registry (gw \<sigma>)) k = Some s" "listeners (gw \<sigma>) s = Some l" for k l
    using conn_registered [OF assms(2) that] by simp
  ultimately show ?thesis
    using destroyed assms(2) by (auto simp: conn_inv_def onBeforeDestroy_Inr split: if_splits)
next
  case (finished i j l r draw net)
  then have "clientID l = k" if "clients (registry (gw \<sigma>)) k = Some (job_socket j)" for k
    using conn_registered [OF assms(2) that] by simp
  with finished show ?thesis using assms(2) by (auto simp: conn_inv_def)
qed (use assms(2) in \<open>auto simp: conn_inv_def\<close>)

lemma run_conn_inv: "gw_run S w tr \<sigma> \<Longrightarrow> conn_inv \<sigma>"
proof (induction rule: gw_run.induct)
  case run_start
  then show ?case by (simp add: conn_inv_def idle_system_def fresh_gateway_def)
qed (rule conn_inv_step)

section \<open>Messages and replies\<close>

definition messages :: "'s \<Rightarrow> ('s, 'v, 'f) event list \<Rightarrow> nat" where
  \<comment> \<open>the messages of a socket that are complete\<close>
  "messages s tr = length (filter (\<lambda>e. \<exists>now. e = Frame s [] now) tr)"

definition awaiting :: "'s \<Rightarrow> ('s, 'w, 'v, 'f) system \<Rightarrow> nat" where
  "awaiting s \<sigma> = length (filter (\<lambda>j. job_socket j = s) (pending \<sigma>))"

definition texts_to :: "'s \<Rightarrow> ('s \<times> socket_call) list \<Rightarrow> string list" where
  "texts_to s calls =
     concat (map (\<lambda>(s', c). case c of SendOneFrameText t \<Rightarrow> if s' = s then [t] else [] | _ \<Rightarrow> []) calls)"

lemma texts_to_simps [simp]:
  "texts_to s [] = []"
  "texts_to s ((s', c) # cs) =
     (case c of SendOneFrameText t \<Rightarrow> if s' = s then [t] else [] | _ \<Rightarrow> []) @ texts_to s cs"
  "texts_to s (cs @ ds) = texts_to s cs @ texts_to s ds"
  by (simp_all add: texts_to_def)

lemma texts_to_hooks [simp]:
  "texts_to s (onPing s' msg) = []" "texts_to s (onPong s' msg) = []"
  by (simp_all add: onPing_def onPong_def)

lemma texts_to_created:
  "onAfterCreate exec m cfg s' params peer g = Inr (g', calls) \<Longrightarrow> texts_to s calls = []"
  by (auto simp: onAfterCreate_Inr)

definition site_ok :: "('w, 'v, 'f) site \<Rightarrow> bool" where
  "site_ok S \<longleftrightarrow> throws_only (site_beast S) \<and> http_request_port (site_config S) \<noteq> []"

definition listener_ok :: "('w, 'v, 'f) site \<Rightarrow> listener \<Rightarrow> bool" where
  \<comment> \<open>the port is the configured one but for its last character\<close>
  "listener_ok S l \<longleftrightarrow> butlast (http_server_port l) = butlast (http_request_port (site_config S))
     \<and> length (http_server_port l) = length (http_request_port (site_config S))
     \<and> http_server_address l = http_request_address (site_config S) \<and> length (m_messageBuffer l) \<le> max_size"

definition job_of :: "('s, 'w, 'v, 'f) system \<Rightarrow> 's job \<Rightarrow> bool" where
  \<comment> \<open>the job's socket has a listener\<close>
  "job_of \<sigma> j \<longleftrightarrow> length (job_message j) \<le> max_size \<and> listeners (gw \<sigma>) (job_socket j) \<noteq> None"

definition job_inv :: "('w, 'v, 'f) site \<Rightarrow> ('s, 'w, 'v, 'f) system \<Rightarrow> bool" where
  "job_inv S \<sigma> \<longleftrightarrow> (\<forall>s l. listeners (gw \<sigma>) s = Some l \<longrightarrow> listener_ok S l) \<and> (\<forall>j \<in> set (pending \<sigma>). job_of \<sigma> j)"

lemma job_invD:
  "job_inv S \<sigma> \<Longrightarrow> listeners (gw \<sigma>) s = Some l \<Longrightarrow> listener_ok S l"
  "job_inv S \<sigma> \<Longrightarrow> i < length (pending \<sigma>) \<Longrightarrow> job_of \<sigma> (pending \<sigma> ! i)"
  by (simp_all add: job_inv_def)

lemma readMessage_ok:
  assumes "readMessage l data (int (length data)) now = (l', spawned)" "listener_ok S l"
    and "length (m_messageBuffer l) + length data \<le> max_size"
  shows "listener_ok S l'"
    and "\<forall>j \<in> set (spawn s spawned). job_socket j = s \<and> length (job_message j) \<le> max_size"
  using assms by (auto simp: readMessage_frame listener_ok_def spawn_def split: if_splits)

lemma run_job_port:
  assumes "run_job S l j draw net = Inr x"
  shows "butlast (used_port x) = butlast (http_server_port l) \<and> length (used_port x) = length (http_server_port l)"
proof -
  have "http_server_port l \<noteq> []" "used_port x = butlast (http_server_port l) @ [char_of (48 + draw mod 4 + 2)]"
    using asyncHttpClient_port [OF assms [unfolded run_job_def]] by (auto simp: pick_port_def split: if_splits)
  then show ?thesis by simp
qed

lemma port_written_ok: "listener_ok S l \<Longrightarrow> r = run_job S l j draw net \<Longrightarrow> listener_ok S (port_written r l)"
  using run_job_port [of S l j draw net] by (auto simp: listener_ok_def port_written_def split: sum.splits)

definition same_ids :: "('s, 'w, 'v, 'f) system \<Rightarrow> ('s, 'w, 'v, 'f) system \<Rightarrow> bool" where
  "same_ids \<sigma> \<sigma>' \<longleftrightarrow> (\<forall>s l. listeners (gw \<sigma>) s = Some l \<longrightarrow>
     (\<exists>l'. listeners (gw \<sigma>') s = Some l' \<and> clientID l' = clientID l))"

lemma step_same_ids:
  assumes "gw_step S e \<sigma> \<sigma>'"
  shows "same_ids \<sigma> \<sigma>'"
  using assms
proof (cases rule: gw_step.cases)
  case (frame s l data now l' spawned)
  then show ?thesis using readMessage_keeps [OF frame(6)] by (simp add: same_ids_def)
next
  case (finished i j l r draw net)
  then show ?thesis by (simp add: same_ids_def)
qed (auto simp: same_ids_def onAfterCreate_Inr onBeforeDestroy_Inr)

lemma job_of_later: "job_of \<sigma> j \<Longrightarrow> same_ids \<sigma> \<sigma>' \<Longrightarrow> job_of \<sigma>' j"
  by (fastforce simp: job_of_def same_ids_def)

lemma job_inv_step:
  assumes "gw_step S e \<sigma> \<sigma>'" "job_inv S \<sigma>"
  shows "job_inv S \<sigma>'"
proof -
  have later: "job_of \<sigma>' j" if "j \<in> set (pending \<sigma>)" for j
    using assms(2) that job_of_later [OF _ step_same_ids [OF assms(1)]] by (simp add: job_inv_def)
  show ?thesis
    using assms(1)
  proof (cases rule: gw_step.cases)
    case (created s params peer g' calls)
    with later show ?thesis
      using assms(2) by (auto simp: job_inv_def onAfterCreate_Inr listener_ok_def WebSocketListener_def
          split: if_splits)
  next
    case (frame s l data now l' spawned)
    have "listener_ok S l" using assms(2) frame(4) by (auto simp: job_inv_def)
    note ok = readMessage_ok [OF frame(6) this frame(5)]
    have "job_of \<sigma>' j" if "j \<in> set (spawn s spawned)" for j
      using ok(2) [of s] that frame(2) by (auto simp: job_of_def)
    with later frame(2) ok(1) show ?thesis
      using assms(2) by (auto simp: job_inv_def split: if_splits)
  next
    case (destroyed s g')
    with later show ?thesis using assms(2) by (auto simp: job_inv_def onBeforeDestroy_Inr)
  next
    case (finished i j l r draw net)
    have "set (pending \<sigma>') \<subseteq> set (pending \<sigma>)"
      using finished(2) by (auto dest: in_set_takeD in_set_dropD)
    moreover have "listener_ok S (port_written r l)"
      using port_written_ok [OF job_invD(1) [OF assms(2) finished(5)] finished(6)] .
    ultimately show ?thesis
      using later finished(2) assms(2) by (auto simp: job_inv_def split: if_splits)
  qed (use later assms(2) in \<open>auto simp: job_inv_def\<close>)
qed

lemma run_job_inv: "gw_run S w tr \<sigma> \<Longrightarrow> job_inv S \<sigma>"
proof (induction rule: gw_run.induct)
  case run_start
  then show ?case by (simp add: job_inv_def idle_system_def fresh_gateway_def)
qed (rule job_inv_step)

section \<open>Counting replies\<close>

lemma run_job_reply:
  assumes "site_ok S" "job_inv S \<sigma>" "j \<in> set (pending \<sigma>)" "listeners (gw \<sigma>) (job_socket j) = Some l"
  shows "\<exists>x. run_job S l j draw net = Inr x \<and> reply x \<noteq> []
    \<and> (reply x = ''error'' \<or> (\<exists>rq res. sent x = [rq] \<and> read_answer net rq = Some res
                                     \<and> reply x = buildResponseStringBuffer res))"
proof -
  have "throws_only (site_beast S)" "length (job_message j) \<le> max_size" "http_server_port l \<noteq> []"
    using assms by (force simp: site_ok_def job_inv_def job_of_def listener_ok_def)+
  from asyncHttpClient_replies [OF this] show ?thesis unfolding run_job_def by blast
qed

definition count_inv :: "('s, 'v, 'f) event list \<Rightarrow> ('s, 'w, 'v, 'f) system \<Rightarrow> bool" where
  "count_inv tr \<sigma> \<longleftrightarrow> (\<forall>s. messages s tr = awaiting s \<sigma> + length (texts_to s (socket_calls \<sigma>)))"

lemma awaiting_without:
  assumes "i < length xs"
  shows "length (filter P xs) = length (filter P (take i xs @ drop (Suc i) xs)) + (if P (xs ! i) then 1 else 0)"
proof -
  have "filter P xs = filter P (take i xs @ xs ! i # drop (Suc i) xs)"
    by (rule arg_cong [OF id_take_nth_drop [OF assms]])
  then show ?thesis by simp
qed

lemma spawn_length:
  "readMessage l data (int (length data)) now = (l', spawned) \<Longrightarrow>
     length (filter (\<lambda>j. job_socket j = s') (spawn s spawned)) = (if data = [] \<and> s' = s then 1 else 0)"
  by (auto simp: readMessage_frame spawn_def split: if_splits)

lemma count_inv_step:
  assumes "gw_step S e \<sigma> \<sigma>'" "count_inv tr \<sigma>" "job_inv S \<sigma>" "site_ok S"
  shows "count_inv (tr @ [e]) \<sigma>'"
  using assms(1)
proof (cases rule: gw_step.cases)
  case (created s params peer g' calls)
  then show ?thesis
    using assms(2) texts_to_created [OF created(4)] by (simp add: count_inv_def messages_def awaiting_def)
next
  case (frame s l data now l' spawned)
  have "length (filter (\<lambda>j. job_socket j = s') (spawn s spawned)) = (if data = [] \<and> s' = s then 1 else 0)" for s'
    by (rule spawn_length [OF frame(6)])
  then show ?thesis
    using assms(2) frame(1,2) by (auto simp: count_inv_def messages_def awaiting_def)
next
  case (finished i j l r draw net)
  have "j \<in> set (pending \<sigma>)" using finished(3,4) by simp
  from run_job_reply [OF assms(4,3) this finished(5)]
  obtain x where x: "r = Inr x" "reply x \<noteq> []" using finished(6) by blast
  have "awaiting s \<sigma> = awaiting s \<sigma>' + (if job_socket j = s then 1 else 0)" for s
    using awaiting_without [OF finished(3), of "\<lambda>j. job_socket j = s"] finished(2,4) by (simp add: awaiting_def)
  moreover have "length (texts_to s (socket_calls \<sigma>'))
      = length (texts_to s (socket_calls \<sigma>)) + (if job_socket j = s then 1 else 0)" for s
    using x by (simp add: finished(2) result_text_def on_result_def SendMessageCoroutine_def)
  moreover have "messages s (tr @ [e]) = messages s tr" for s
    by (simp add: finished(1) messages_def)
  ultimately show ?thesis using assms(2) by (simp add: count_inv_def)
qed (use assms(2) in \<open>simp_all add: count_inv_def messages_def awaiting_def\<close>)

lemma run_count_inv:
  assumes "site_ok S"
  shows "gw_run S w tr \<sigma> \<Longrightarrow> count_inv tr \<sigma>"
proof (induction rule: gw_run.induct)
  case run_start
  then show ?case by (simp add: count_inv_def idle_system_def messages_def awaiting_def)
next
  case (run_step tr \<sigma> e \<sigma>')
  then show ?case using count_inv_step [OF run_step(2,3) run_job_inv [OF run_step(1)] assms] by simp
qed

section \<open>Requests\<close>

definition wire_inv ::
    "('w, 'v, 'f) site \<Rightarrow> ('f \<Rightarrow> string \<Rightarrow> string option) \<Rightarrow> ('s, 'w, 'v, 'f) system \<Rightarrow> bool" where
  "wire_inv S get \<sigma> \<longleftrightarrow> (\<forall>(s, rq) \<in> set (wire \<sigma>).
     get (rq_fields rq) ''Host'' = Some (http_request_address (site_config S))
     \<and> (\<exists>l. listeners (gw \<sigma>) s = Some l \<and> get (rq_fields rq) ''X-Client-ID'' = Some (clientID l)))"

lemma wire_inv_step:
  assumes "gw_step S e \<sigma> \<sigma>'" "wire_inv S get \<sigma>" "job_inv S \<sigma>" "field_laws (site_beast S) get"
  shows "wire_inv S get \<sigma>'"
proof -
  have later: "get (rq_fields rq) ''Host'' = Some (http_request_address (site_config S))
      \<and> (\<exists>l. listeners (gw \<sigma>') s = Some l \<and> get (rq_fields rq) ''X-Client-ID'' = Some (clientID l))"
    if "(s, rq) \<in> set (wire \<sigma>)" for s rq
    using assms(2) that step_same_ids [OF assms(1)] unfolding wire_inv_def same_ids_def by fastforce
  show ?thesis
    using assms(1)
  proof (cases rule: gw_step.cases)
    case (finished i j l r draw net)
    have "get (rq_fields rq) ''X-Client-ID'' = Some (clientID l)
        \<and> get (rq_fields rq) ''Host'' = Some (http_request_address (site_config S))"
      if "rq \<in> set (requests_of r)" for rq
    proof (cases r)
      case (Inr x)
      with that have "rq \<in> set (sent x)" by (simp add: requests_of_def)
      then have "get (rq_fields rq) ''X-Client-ID'' = Some (clientID l)
          \<and> get (rq_fields rq) ''Host'' = Some (http_server_address l)"
        using asyncHttpClient_names [OF assms(4)] Inr finished(6) unfolding run_job_def by metis
      then show ?thesis using job_invD(1) [OF assms(3) finished(5)] by (simp add: listener_ok_def)
    qed (use that in \<open>simp add: requests_of_def\<close>)
    moreover have "listeners (gw \<sigma>') (job_socket j) = Some (port_written r l)" by (simp add: finished(2))
    ultimately show ?thesis using later finished(2) by (auto simp: wire_inv_def)
  qed (use later in \<open>auto simp: wire_inv_def\<close>)
qed

lemma run_wire_inv:
  assumes "field_laws (site_beast S) get"
  shows "gw_run S w tr \<sigma> \<Longrightarrow> wire_inv S get \<sigma>"
proof (induction rule: gw_run.induct)
  case run_start
  then show ?case by (simp add: wire_inv_def idle_system_def)
next
  case (run_step tr \<sigma> e \<sigma>')
  then show ?case using wire_inv_step [OF run_step(2,3) run_job_inv [OF run_step(1)] assms] by simp
qed

text \<open>A listener serves the id of the connection that was opened on its socket.\<close>

definition opened_under :: "'s \<Rightarrow> string \<Rightarrow> ('s, 'v, 'f) event list \<Rightarrow> bool" where
  "opened_under s k tr \<longleftrightarrow>
     (\<exists>params peer. Created s params peer \<in> set tr \<and> params ''ClientId'' = Some (Some k))"

lemma opened_under_now:
  "params ''ClientId'' = Some (Some k) \<Longrightarrow> opened_under s k (tr @ [Created s params peer])"
  unfolding opened_under_def by fastforce

lemma opened_under_snoc: "opened_under s k tr \<Longrightarrow> opened_under s k (tr @ [e])"
  by (auto simp: opened_under_def)

lemma run_opened_under:
  "gw_run S w tr \<sigma> \<Longrightarrow> listeners (gw \<sigma>) s = Some l \<Longrightarrow> opened_under s (clientID l) tr"
proof (induction arbitrary: l rule: gw_run.induct)
  case run_start
  then show ?case by (simp add: idle_system_def fresh_gateway_def)
next
  case (run_step tr \<sigma> e \<sigma>')
  note earlier = opened_under_snoc [OF run_step.IH, of _ e]
  show ?case
    using run_step(2)
  proof (cases rule: gw_step.cases)
    case (created s' params peer g' calls)
    from created(4) obtain k where k: "params ''ClientId'' = Some (Some k)"
      "listeners g' = (listeners (gw \<sigma>))(s' \<mapsto> WebSocketListener k (http_request_address (site_config S))
         (http_request_port (site_config S)))"
      by (auto simp: onAfterCreate_Inr)
    then show ?thesis
      using run_step.prems earlier opened_under_now [of params k, OF k(1), of s' tr peer] created(1,2)
      by (cases "s' = s") (auto simp: WebSocketListener_def)
  next
    case (frame s' l1 data now l' spawned)
    then show ?thesis
      using run_step.prems earlier readMessage_keeps [OF frame(6)] by (auto split: if_splits)
  next
    case (finished i j l1 r draw net)
    then show ?thesis using run_step.prems earlier by (auto split: if_splits)
  qed (use run_step.prems earlier in \<open>auto simp: onBeforeDestroy_Inr\<close>)
qed

section \<open>The table\<close>

definition safe_ids :: "('s, 'v, 'f) event \<Rightarrow> bool" where
  "safe_ids e \<longleftrightarrow>
     (\<forall>s params peer k. e = Created s params peer \<longrightarrow> params ''ClientId'' = Some (Some k) \<longrightarrow> literal_safe k)"

definition table_inv ::
    "('w, 'v, 'f) site \<Rightarrow> ('w \<Rightarrow> string \<Rightarrow> string option) \<Rightarrow> ('s, 'w, 'v, 'f) system \<Rightarrow> bool" where
  \<comment> \<open>an id leads to a socket exactly if the table names this server for it\<close>
  "table_inv S rows \<sigma> \<longleftrightarrow> (\<forall>s l. listeners (gw \<sigma>) s = Some l \<longrightarrow> literal_safe (clientID l))
     \<and> (\<forall>k. clients (registry (gw \<sigma>)) k \<noteq> None \<longleftrightarrow>
          rows (db (registry (gw \<sigma>))) k = Some (getAppServerName (site_manager S)))"

definition store_ok :: "('w, 'v, 'f) site \<Rightarrow> ('w \<Rightarrow> string \<Rightarrow> string option) \<Rightarrow> bool" where
  \<comment> \<open>the driver behaves as documented and accepts every statement, and the server's name can
     be stored and told from \<open>NA\<close>\<close>
  "store_ok S rows \<longleftrightarrow> cql_driver (site_exec S) rows (site_manager S) \<and> reliable (site_exec S) (site_manager S)
     \<and> literal_safe (getAppServerName (site_manager S)) \<and> getAppServerName (site_manager S) \<noteq> ''NA''"

lemma rows_addClient:
  "store_ok S rows \<Longrightarrow> literal_safe k \<Longrightarrow>
     rows (db (addClient (site_exec S) (site_manager S) k s r))
       = (rows (db r))(k \<mapsto> getAppServerName (site_manager S))"
  using insert_accepted [of "site_exec S" rows "site_manager S" k "getAppServerName (site_manager S)" "db r"]
  by (auto simp: store_ok_def addClient_def)

lemma rows_setClientNotAvailable:
  "store_ok S rows \<Longrightarrow> literal_safe k \<Longrightarrow>
     rows (db (setClientNotAvailable (site_exec S) (site_manager S) k r)) = (rows (db r))(k \<mapsto> ''NA'')"
  using insert_accepted [of "site_exec S" rows "site_manager S" k "''NA''" "db r"] NA_safe
  by (auto simp: store_ok_def setClientNotAvailable_def)

lemma table_inv_step:
  assumes "gw_step S e \<sigma> \<sigma>'" "table_inv S rows \<sigma>" "store_ok S rows" "safe_ids e"
  shows "table_inv S rows \<sigma>'"
  using assms(1)
proof (cases rule: gw_step.cases)
  case (created s params peer g' calls)
  then obtain k where k: "params ''ClientId'' = Some (Some k)" "literal_safe k"
    "registry g' = addClient (site_exec S) (site_manager S) k s (registry (gw \<sigma>))"
    "listeners g' = (listeners (gw \<sigma>))(s \<mapsto> WebSocketListener k (http_request_address (site_config S))
       (http_request_port (site_config S)))"
    using assms(4) by (auto simp: onAfterCreate_Inr safe_ids_def)
  with created(2) show ?thesis
    using assms(2) rows_addClient [OF assms(3) k(2), of s "registry (gw \<sigma>)"]
    by (auto simp: table_inv_def WebSocketListener_def)
next
  case (frame s l data now l' spawned)
  then show ?thesis
    using assms(2) readMessage_keeps [OF frame(6)] by (auto simp: table_inv_def)
next
  case (close_frame s l cc msg)
  then have "literal_safe (clientID l)" using assms(2) by (auto simp: table_inv_def)
  from rows_setClientNotAvailable [OF assms(3) this, of "registry (gw \<sigma>)"] close_frame show ?thesis
    using assms(2,3) by (auto simp: table_inv_def onClose_def store_ok_def)
next
  case (destroyed s g')
  then obtain l where l: "listeners (gw \<sigma>) s = Some l" "listeners g' = listeners (gw \<sigma>)"
    "registry g' = setClientNotAvailable (site_exec S) (site_manager S) (clientID l) (registry (gw \<sigma>))"
    by (auto simp: onBeforeDestroy_Inr)
  then have "literal_safe (clientID l)" using assms(2) by (auto simp: table_inv_def)
  from rows_setClientNotAvailable [OF assms(3) this, of "registry (gw \<sigma>)"] destroyed(2) l show ?thesis
    using assms(2,3) by (auto simp: table_inv_def store_ok_def)
next
  case (finished i j l r draw net)
  then show ?thesis using assms(2) by (auto simp: table_inv_def)
qed (use assms(2) in \<open>simp_all add: table_inv_def\<close>)

lemma run_table_inv:
  assumes "store_ok S rows" "\<forall>k. rows w k \<noteq> Some (getAppServerName (site_manager S))"
  shows "gw_run S w tr \<sigma> \<Longrightarrow> list_all safe_ids tr \<Longrightarrow> table_inv S rows \<sigma>"
proof (induction rule: gw_run.induct)
  case run_start
  then show ?case using assms(2) by (simp add: table_inv_def idle_system_def fresh_gateway_def)
next
  case (run_step tr \<sigma> e \<sigma>')
  then show ?case using table_inv_step [OF run_step(2) _ assms(1)] by simp
qed

section \<open>Draining\<close>

lemma run_drain:
  "gw_run S w tr \<sigma> \<Longrightarrow> n = length (pending \<sigma>) \<Longrightarrow>
     \<exists>\<sigma>'. gw_run S w (tr @ replicate n (Finished 0 draw net)) \<sigma>' \<and> pending \<sigma>' = []"
proof (induction n arbitrary: tr \<sigma>)
  case 0
  then show ?case by auto
next
  case (Suc n)
  have len: "0 < length (pending \<sigma>)" using Suc.prems(2) by linarith
  obtain l where l: "listeners (gw \<sigma>) (job_socket (pending \<sigma> ! 0)) = Some l"
    using job_invD(2) [OF run_job_inv [OF Suc.prems(1)] len] by (auto simp: job_of_def)
  obtain \<sigma>1 where s1: "gw_step S (Finished 0 draw net) \<sigma> \<sigma>1" "pending \<sigma>1 = drop 1 (pending \<sigma>)"
    using gw_step.finished [OF len refl l refl, of S draw net] by fastforce
  have "n = length (pending \<sigma>1)" using Suc.prems(2) s1(2) by simp
  with Suc.IH [OF gw_run.run_step [OF Suc.prems(1) s1(1)]]
  show ?case by simp
qed

lemma messages_finished [simp]: "messages s (tr @ replicate n (Finished i draw net)) = messages s tr"
  by (simp add: messages_def)

section \<open>Sample runs\<close>

lemma first_connection:
  fixes S :: "('w, 'v, 'f) site" and s :: 's
  shows
  "\<exists>\<sigma>. gw_run S w [Created s [''ClientId'' \<mapsto> Some k] None] \<sigma>
     \<and> live \<sigma> = {s} \<and> pending \<sigma> = [] \<and> socket_calls \<sigma> = (if k = [] then [(s, SendClose 2 ''ClientId paramter is empty'')] else [])
     \<and> wire \<sigma> = [] \<and> clients (registry (gw \<sigma>)) k = Some s
     \<and> listeners (gw \<sigma>) s = Some (WebSocketListener k (http_request_address (site_config S))
         (http_request_port (site_config S)))"
proof -
  let ?p = "[''ClientId'' \<mapsto> Some k]" and ?s0 = "idle_system w :: ('s, 'w, 'v, 'f) system"
  obtain g' calls where g: "onAfterCreate (site_exec S) (site_manager S) (site_config S) s ?p None (gw ?s0)
      = Inr (g', calls)"
    by (simp add: onAfterCreate_Inr)
  have new: "listeners (gw ?s0) s = None"
    by (simp add: idle_system_def fresh_gateway_def)
  from gw_run.run_step [OF gw_run.run_start gw_step.created [OF new g]]
  show ?thesis
    using g by (intro exI conjI) (auto simp: onAfterCreate_Inr idle_system_def)
qed

lemma message_arrives:
  assumes "gw_run S w tr \<sigma>" "s \<in> live \<sigma>" "listeners (gw \<sigma>) s = Some l" "m_messageBuffer l = []"
    and "msg \<noteq> []" "length msg \<le> max_size"
  shows "\<exists>\<sigma>'. gw_run S w (tr @ [Frame s msg t1, Frame s [] t2]) \<sigma>' \<and> live \<sigma>' = live \<sigma>
    \<and> listeners (gw \<sigma>') s = Some l \<and> socket_calls \<sigma>' = socket_calls \<sigma> \<and> wire \<sigma>' = wire \<sigma>
    \<and> pending \<sigma>' = pending \<sigma> @ [\<lparr>job_socket = s, job_message = msg, job_time = show_int t2\<rparr>]"
proof -
  let ?l1 = "l\<lparr>m_messageBuffer := msg\<rparr>"
  have r1: "readMessage l msg (int (length msg)) t1 = (?l1, None)"
    using assms(4,5) by (simp add: readMessage_frame)
  obtain \<sigma>1 where s1: "gw_run S w (tr @ [Frame s msg t1]) \<sigma>1" "live \<sigma>1 = live \<sigma>" "pending \<sigma>1 = pending \<sigma>"
    "listeners (gw \<sigma>1) s = Some ?l1" "socket_calls \<sigma>1 = socket_calls \<sigma>" "wire \<sigma>1 = wire \<sigma>"
    using gw_run.run_step [OF assms(1) gw_step.frame [OF assms(2,3) _ r1]] assms(4,6) by (auto simp: spawn_def)
  have r2: "readMessage ?l1 [] (int (length [])) t2 = (l, Some (msg, show_int t2))"
    using assms(4) readMessage_frame [of ?l1 "[]" t2] by simp
  have room: "length (m_messageBuffer ?l1) + length [] \<le> max_size" using assms(6) by simp
  have "s \<in> live \<sigma>1" using assms(2) s1(2) by simp
  from gw_run.run_step [OF s1(1) gw_step.frame [OF this s1(4) room r2]] show ?thesis
    by (intro exI conjI, simp) (simp_all add: s1 spawn_def)
qed

definition down_network :: "('v, 'f) network" where
  \<comment> \<open>a backend whose name does not resolve\<close>
  "down_network = \<lparr>resolve_error = (\<lambda>h p. True), connect_error = (\<lambda>h p. True),
     write_error = (\<lambda>rq. True), read_answer = (\<lambda>rq. None)\<rparr>"

lemma down_reply:
  assumes "site_ok S" "job_inv S \<sigma>" "j \<in> set (pending \<sigma>)" "listeners (gw \<sigma>) (job_socket j) = Some l"
  shows "\<exists>x. run_job S l j draw down_network = Inr x \<and> reply x = ''error''"
  using run_job_reply [OF assms, of draw down_network] by (auto simp: down_network_def)

section \<open>Properties\<close>

text \<open>
  C7. The registry never leads to a socket that is gone: in every run, in whatever order
  connections, closes and destructions come, the socket counter is the number of sockets that
  exist, modulo \<open>2^32\<close>, and every id in the map leads to an existing socket whose listener
  serves that id, so a text for a client goes to that client's socket or nowhere.
\<close>

theorem registry_leads_to_live_socket:
  assumes "gw_run S w tr \<sigma>"
  shows "SOCKETS (gw \<sigma>) = of_nat (card (live \<sigma>))
    \<and> (\<forall>k s. clients (registry (gw \<sigma>)) k = Some s \<longrightarrow>
         s \<in> live \<sigma> \<and> (\<exists>l. listeners (gw \<sigma>) s = Some l \<and> clientID l = k))
    \<and> (\<forall>k msg s c. (s, c) \<in> set (sendTextMessageToClient (registry (gw \<sigma>)) k msg) \<longrightarrow>
         s \<in> live \<sigma> \<and> map_option clientID (listeners (gw \<sigma>) s) = Some k)"
  using run_conn_inv [OF assms]
  by (auto simp: conn_inv_def sendTextMessageToClient_def split: option.splits)

definition sample_site :: "(string \<Rightarrow> string option, string, headers) site" where
  "sample_site = \<lparr>site_exec = cql_exec ''vin'' ''vehicles'', site_manager = default_manager ''gw1'',
     site_config = (Config_of ''gw1'' Map.empty)\<lparr>http_request_address := ''app'', http_request_port := ''8082''\<rparr>,
     site_beast = list_beast, site_order = (\<lambda>hs. hs)\<rparr>"

lemma sample_site_ok: "site_ok sample_site" "field_laws (site_beast sample_site) list_get"
  by (simp_all add: site_ok_def sample_site_def list_throws_only list_field_laws)

lemma sample_created:
  "\<exists>\<sigma>. gw_run sample_site Map.empty [Created (1::nat) [''ClientId'' \<mapsto> Some ''V1''] None] \<sigma>
     \<and> live \<sigma> = {1} \<and> pending \<sigma> = [] \<and> socket_calls \<sigma> = [] \<and> wire \<sigma> = [] \<and> clients (registry (gw \<sigma>)) ''V1'' = Some 1
     \<and> listeners (gw \<sigma>) 1 = Some (WebSocketListener ''V1'' ''app'' ''8082'')"
  using first_connection [of sample_site Map.empty "1 :: nat" "''V1''"]
  by (simp add: sample_site_def del: One_nat_def)

lemma registry_leads_to_live_socket_witness:
  "\<exists>\<sigma>. gw_run sample_site Map.empty [Created (1::nat) [''ClientId'' \<mapsto> Some ''V1''] None] \<sigma>
     \<and> SOCKETS (gw \<sigma>) = 1"
proof -
  obtain \<sigma> where \<sigma>: "gw_run sample_site Map.empty [Created (1::nat) [''ClientId'' \<mapsto> Some ''V1''] None] \<sigma>"
    "live \<sigma> = {1}"
    using sample_created by blast
  show ?thesis using registry_leads_to_live_socket [OF \<sigma>(1)] \<sigma> by auto
qed

text \<open>
  C8. The table tells the truth: on a driver that behaves as documented and accepts every
  statement, if no row names this server at the start and all ids are free of quotes, then
  after every run whose registry operations are not interleaved the table names this server for
  an id exactly if the id leads to an existing socket here.
\<close>

theorem table_tells_truth:
  assumes "store_ok S rows" "\<forall>k. rows w k \<noteq> Some (getAppServerName (site_manager S))"
    and "gw_run S w tr \<sigma>" "list_all safe_ids tr"
  shows "rows (db (registry (gw \<sigma>))) k = Some (getAppServerName (site_manager S)) \<longleftrightarrow>
    (\<exists>s \<in> live \<sigma>. clients (registry (gw \<sigma>)) k = Some s)"
proof -
  have "clients (registry (gw \<sigma>)) k \<noteq> None
      \<longleftrightarrow> rows (db (registry (gw \<sigma>))) k = Some (getAppServerName (site_manager S))"
    using run_table_inv [OF assms(1-4)] by (simp add: table_inv_def)
  moreover have "s \<in> live \<sigma>" if "clients (registry (gw \<sigma>)) k = Some s" for s
    using run_conn_inv [OF assms(3)] that by (simp add: conn_inv_def)
  ultimately show ?thesis by blast
qed

lemma sample_store_ok: "store_ok sample_site (\<lambda>w. w)"
  using reference.cql_driver_axioms reference_reliable
  by (simp add: store_ok_def sample_site_def getAppServerName_def literal_safe_def)

lemma table_tells_truth_witness:
  "\<exists>\<sigma>. gw_run sample_site Map.empty [Created (1::nat) [''ClientId'' \<mapsto> Some ''V1''] None] \<sigma>
     \<and> db (registry (gw \<sigma>)) ''V1'' = Some ''gw1''"
proof -
  obtain \<sigma> where \<sigma>: "gw_run sample_site Map.empty [Created (1::nat) [''ClientId'' \<mapsto> Some ''V1''] None] \<sigma>"
    "live \<sigma> = {1}" "clients (registry (gw \<sigma>)) ''V1'' = Some 1"
    using sample_created by blast
  have "getAppServerName (site_manager sample_site) = ''gw1''"
    by (simp add: sample_site_def getAppServerName_def)
  moreover have "list_all safe_ids [Created (1::nat) [''ClientId'' \<mapsto> Some ''V1''] None]"
    by (simp add: safe_ids_def literal_safe_def)
  ultimately show ?thesis
    using table_tells_truth [OF sample_store_ok _ \<sigma>(1), of "''V1''"] \<sigma> by auto
qed

text \<open>
  Exactly one reply per message: in every run, for each socket, the complete messages
  that arrived are as many as the exchanges still pending plus the texts sent to the
  socket; and from every state the pending exchanges can end, whatever the backend does, after
  which each message has been answered by exactly one text.
\<close>

theorem one_reply_per_message:
  assumes "site_ok S" "gw_run S w tr \<sigma>"
  shows "messages s tr = awaiting s \<sigma> + length (texts_to s (socket_calls \<sigma>))
    \<and> (\<exists>\<sigma>'. gw_run S w (tr @ replicate (length (pending \<sigma>)) (Finished 0 draw net)) \<sigma>'
         \<and> pending \<sigma>' = [] \<and> length (texts_to s (socket_calls \<sigma>')) = messages s tr)"
proof -
  obtain \<sigma>' where d: "gw_run S w (tr @ replicate (length (pending \<sigma>)) (Finished 0 draw net)) \<sigma>'" "pending \<sigma>' = []"
    using run_drain [OF assms(2) refl] by blast
  have "length (texts_to s (socket_calls \<sigma>')) = messages s tr"
    using run_count_inv [OF assms(1) d(1)] d(2) by (simp add: count_inv_def awaiting_def)
  with d show ?thesis using run_count_inv [OF assms] by (auto simp: count_inv_def)
qed

text \<open>
  Who sent it: every request that ever reaches the backend carries in \<open>X-Client-ID\<close> the id
  under which the socket it comes from was registered and in \<open>Host\<close> the configured backend,
  through all frames, closes and reconnections in between.
\<close>

theorem requests_name_their_client:
  assumes "field_laws (site_beast S) get" "gw_run S w tr \<sigma>" "(s, rq) \<in> set (wire \<sigma>)"
  shows "get (rq_fields rq) ''Host'' = Some (http_request_address (site_config S))
    \<and> (\<exists>l. listeners (gw \<sigma>) s = Some l \<and> get (rq_fields rq) ''X-Client-ID'' = Some (clientID l))"
  using run_wire_inv [OF assms(1,2)] assms(3) by (auto simp: wire_inv_def)

definition sample_job :: "string \<Rightarrow> nat job" where
  "sample_job t = \<lparr>job_socket = 1, job_message = sample_message, job_time = t\<rparr>"

definition sample_trace :: "(nat, string, headers) event list" where
  "sample_trace = [Created 1 [''ClientId'' \<mapsto> Some ''V1''] None,
     Frame 1 sample_message 6, Frame 1 [] 7, Frame 1 sample_message 8, Frame 1 [] 9]"

lemma two_messages:
  "\<exists>\<sigma>. gw_run sample_site Map.empty sample_trace \<sigma> \<and> socket_calls \<sigma> = [] \<and> wire \<sigma> = []
     \<and> pending \<sigma> = [sample_job ''7'', sample_job ''9'']
     \<and> listeners (gw \<sigma>) 1 = Some (WebSocketListener ''V1'' ''app'' ''8082'')"
proof -
  let ?l = "WebSocketListener ''V1'' ''app'' ''8082''"
  have l: "m_messageBuffer ?l = []" by (simp add: WebSocketListener_def)
  have msg: "sample_message \<noteq> []" "length sample_message \<le> max_size"
    by (simp_all add: sample_message_def format_request_def header_line_def max_size_def)
  have time: "show_int 7 = ''7''" "show_int 9 = ''9''" by code_simp+
  obtain \<sigma>0 where s0: "gw_run sample_site Map.empty [Created (1::nat) [''ClientId'' \<mapsto> Some ''V1''] None] \<sigma>0"
    "live \<sigma>0 = {1}" "pending \<sigma>0 = []" "socket_calls \<sigma>0 = []" "listeners (gw \<sigma>0) 1 = Some ?l" "wire \<sigma>0 = []"
    using sample_created by blast
  obtain \<sigma>1 where s1: "gw_run sample_site Map.empty ([Created (1::nat) [''ClientId'' \<mapsto> Some ''V1''] None]
        @ [Frame 1 sample_message 6, Frame 1 [] 7]) \<sigma>1" "live \<sigma>1 = live \<sigma>0"
    "listeners (gw \<sigma>1) 1 = Some ?l" "socket_calls \<sigma>1 = socket_calls \<sigma>0" "wire \<sigma>1 = wire \<sigma>0"
    "pending \<sigma>1 = pending \<sigma>0 @ [\<lparr>job_socket = 1, job_message = sample_message, job_time = show_int 7\<rparr>]"
    using message_arrives [OF s0(1) _ s0(5) l msg, of 6 7] s0(2) by blast
  obtain \<sigma>2 where s2: "gw_run sample_site Map.empty (([Created (1::nat) [''ClientId'' \<mapsto> Some ''V1''] None]
        @ [Frame 1 sample_message 6, Frame 1 [] 7]) @ [Frame 1 sample_message 8, Frame 1 [] 9]) \<sigma>2"
    "socket_calls \<sigma>2 = socket_calls \<sigma>1" "wire \<sigma>2 = wire \<sigma>1"
    "listeners (gw \<sigma>2) 1 = Some ?l"
    "pending \<sigma>2 = pending \<sigma>1 @ [\<lparr>job_socket = 1, job_message = sample_message, job_time = show_int 9\<rparr>]"
    using message_arrives [OF s1(1) _ s1(3) l msg, of 8 9] s1(2) s0(2) by blast
  then show ?thesis using s1 s0 time
    by (intro exI [of _ \<sigma>2]) (simp add: sample_job_def sample_trace_def)
qed

lemma one_reply_per_message_witness:
  "\<exists>tr \<sigma>. gw_run sample_site Map.empty tr \<sigma> \<and> messages (1::nat) tr = 2 \<and> pending \<sigma> = []
     \<and> length (texts_to 1 (socket_calls \<sigma>)) = 2"
proof -
  obtain \<sigma> where \<sigma>: "gw_run sample_site Map.empty sample_trace \<sigma>"
    using two_messages by blast
  have "sample_message \<noteq> []" by (simp add: sample_message_def format_request_def)
  then have "messages 1 sample_trace = 2" by (simp add: messages_def sample_trace_def)
  with one_reply_per_message [OF sample_site_ok(1) \<sigma>, of 1 0 down_network] show ?thesis
    using messages_finished by metis
qed

lemma requests_name_their_client_witness:
  "\<exists>tr \<sigma>. gw_run sample_site Map.empty tr \<sigma> \<and> (\<exists>rq. (1::nat, rq) \<in> set (wire \<sigma>)
     \<and> list_get (rq_fields rq) ''Host'' = Some ''app'' \<and> list_get (rq_fields rq) ''X-Client-ID'' \<noteq> None)"
proof -
  obtain \<sigma> where \<sigma>: "gw_run sample_site Map.empty sample_trace \<sigma>"
    "pending \<sigma> = [sample_job ''7'', sample_job ''9'']"
    "listeners (gw \<sigma>) 1 = Some (WebSocketListener ''V1'' ''app'' ''8082'')"
    using two_messages by blast
  then have i: "0 < length (pending \<sigma>)" "listeners (gw \<sigma>) (job_socket (pending \<sigma> ! 0))
      = Some (WebSocketListener ''V1'' ''app'' ''8082'')"
    by (simp_all add: sample_job_def)
  have "run_job sample_site (WebSocketListener ''V1'' ''app'' ''8082'') (sample_job ''7'') 5 sample_network
      = Inr sample_outcome"
    using sample_outcome by (simp add: run_job_def sample_site_def sample_job_def WebSocketListener_def)
  then obtain \<sigma>' where \<sigma>': "gw_step sample_site (Finished 0 5 sample_network) \<sigma> \<sigma>'"
    "wire \<sigma>' = wire \<sigma> @ map (Pair 1) (sent sample_outcome)"
    using gw_step.finished [OF i(1) refl i(2) refl, of sample_site 5 sample_network] \<sigma>(2)
    by (force simp: requests_of_def sample_job_def)
  then have mem: "(1, hd (sent sample_outcome)) \<in> set (wire \<sigma>')" by (simp add: sample_outcome_def)
  from requests_name_their_client [OF sample_site_ok(2) gw_run.run_step [OF \<sigma>(1) \<sigma>'(1)] mem]
  show ?thesis using gw_run.run_step [OF \<sigma>(1) \<sigma>'(1)] mem by (auto simp: sample_site_def)
qed

text \<open>
  Exchanges end in any order: whichever is pending, it may be the next to end, however many older
  messages of the same socket are still unanswered, and its reply is then the next that is
  handed to the executor for that socket. Nothing in a text says which message it answers.
\<close>

theorem replies_in_any_order:
  assumes "site_ok S" "gw_run S w tr \<sigma>" "i < length (pending \<sigma>)"
  shows "\<exists>l x \<sigma>'. listeners (gw \<sigma>) (job_socket (pending \<sigma> ! i)) = Some l
    \<and> run_job S l (pending \<sigma> ! i) draw net = Inr x
    \<and> gw_run S w (tr @ [Finished i draw net]) \<sigma>'
    \<and> texts_to (job_socket (pending \<sigma> ! i)) (socket_calls \<sigma>')
        = texts_to (job_socket (pending \<sigma> ! i)) (socket_calls \<sigma>) @ [reply x]
    \<and> pending \<sigma>' = take i (pending \<sigma>) @ drop (Suc i) (pending \<sigma>)"
proof -
  let ?j = "pending \<sigma> ! i"
  have inv: "job_inv S \<sigma>" by (rule run_job_inv [OF assms(2)])
  obtain l where l: "listeners (gw \<sigma>) (job_socket ?j) = Some l"
    using job_invD(2) [OF inv assms(3)] by (auto simp: job_of_def)
  obtain x where x: "run_job S l ?j draw net = Inr x" "reply x \<noteq> []"
    using run_job_reply [OF assms(1) inv nth_mem [OF assms(3)] l] by blast
  obtain \<sigma>' where "gw_run S w (tr @ [Finished i draw net]) \<sigma>'"
    "pending \<sigma>' = take i (pending \<sigma>) @ drop (Suc i) (pending \<sigma>)"
    "socket_calls \<sigma>' = socket_calls \<sigma> @ on_result (job_socket ?j) (result_text (run_job S l ?j draw net))"
    using gw_run.run_step [OF assms(2) gw_step.finished [OF assms(3) refl l refl, of S draw net]] by force
  then show ?thesis
    using x l by (intro exI [of _ l] exI [of _ x] exI [of _ \<sigma>'])
      (simp add: result_text_def on_result_def SendMessageCoroutine_def)
qed

lemma replies_in_any_order_witness:
  "\<exists>\<sigma>. gw_run sample_site Map.empty (sample_trace @ [Finished 1 0 down_network]) \<sigma>
     \<and> texts_to 1 (socket_calls \<sigma>) = [''error''] \<and> pending \<sigma> = [sample_job ''7'']"
proof -
  obtain \<sigma> where \<sigma>: "gw_run sample_site Map.empty sample_trace \<sigma>" "socket_calls \<sigma> = []"
    "pending \<sigma> = [sample_job ''7'', sample_job ''9'']"
    using two_messages by blast
  then have i: "1 < length (pending \<sigma>)" by simp
  have s: "pending \<sigma> ! 1 = sample_job ''9''" "job_socket (sample_job ''9'') = 1"
    by (simp_all add: \<sigma>(3) sample_job_def)
  obtain l x \<sigma>' where l: "listeners (gw \<sigma>) (job_socket (pending \<sigma> ! 1)) = Some l" and
    x: "run_job sample_site l (pending \<sigma> ! 1) 0 down_network = Inr x"
    "gw_run sample_site Map.empty (sample_trace @ [Finished 1 0 down_network]) \<sigma>'"
    "texts_to 1 (socket_calls \<sigma>') = [reply x]" "pending \<sigma>' = [sample_job ''7'']"
    using replies_in_any_order [OF sample_site_ok(1) \<sigma>(1) i, of 0 down_network] \<sigma>(2,3) s by auto
  from down_reply [OF sample_site_ok(1) run_job_inv [OF \<sigma>(1)] nth_mem [OF i] l, of 0]
  have "reply x = ''error''" using x(1) by auto
  with x show ?thesis by auto
qed

end
