(* ===== verification/Exchange_Steps.thy ===== *)
theory Exchange_Steps
  imports Gateway
begin

text \<open>
  \<open>src/src/utilis/boostBeastClient.h\<close>, the coroutine taken apart at its \<open>co_await\<close>s: it runs from
  one asynchronous operation to the next and is suspended in between, while the gateway and
  the other coroutines go on. A run of this system, in any interleaving, is a run of the theory
  \<open>Gateway\<close>, in which an exchange is one step at its end: same replies, same registry, same
  requests to the backend, but for the order of the requests.
\<close>

section \<open>The coroutine\<close>

datatype ('v, 'f) stage =
    Resolving string "('v, 'f) http_request"
  | Connecting string "('v, 'f) http_request"
  | Sending "('v, 'f) http_request"
  | Reading "('v, 'f) http_request"
  | Ended "string result" "('v, 'f) sent_log"  \<comment> \<open>result, and what was written\<close>

datatype io_answer = Failed | Succeeded | Received http_response

definition caught :: "cxx_error \<Rightarrow> ('v, 'f) stage" where
  \<comment> \<open>the \<open>catch\<close> of the coroutine\<close>
  "caught e = Ended (if is_exception e then Inr ''error'' else Inl e) []"

definition begin_exchange ::
    "('v, 'f) beast \<Rightarrow> (headers \<Rightarrow> headers) \<Rightarrow> nat \<Rightarrow> string \<Rightarrow> string \<Rightarrow> string \<Rightarrow> string
       \<Rightarrow> (string \<times> ('v, 'f) stage) result" where
  \<comment> \<open>up to the first suspension: the new port and the stage\<close>
  "begin_exchange B order draw msg port ident t =
     and_then (pick_port draw port) (\<lambda>port'.
       Inr (port', case build_request B order msg ident t of
                     Inl e \<Rightarrow> caught e
                   | Inr rq \<Rightarrow> Resolving port' rq))"

fun resume ::
    "('v, 'f) beast \<Rightarrow> string \<Rightarrow> ('v, 'f) stage \<Rightarrow> io_answer \<Rightarrow> ('v, 'f) stage option" where
  \<comment> \<open>from one suspension to the next; \<open>None\<close>: no such answer is awaited\<close>
  "resume B host (Resolving port rq) Succeeded = Some (Connecting port rq)"
| "resume B host (Connecting port rq) Succeeded =
     Some (case set_in B ''Host'' host rq of Inl e \<Rightarrow> caught e | Inr rq' \<Rightarrow> Sending rq')"
| "resume B host (Sending rq) Succeeded = Some (Reading rq)"
| "resume B host (Reading rq) (Received res) = Some (Ended (Inr (buildResponseStringBuffer res)) [rq])"
| "resume B host (Resolving port rq) Failed = Some (Ended (Inr ''error'') [])"
| "resume B host (Connecting port rq) Failed = Some (Ended (Inr ''error'') [])"
| "resume B host (Sending rq) Failed = Some (Ended (Inr ''error'') [])"
| "resume B host (Reading rq) Failed = Some (Ended (Inr ''error'') [rq])"
| "resume B host _ _ = None"

fun written :: "('v, 'f) stage \<Rightarrow> ('v, 'f) sent_log" where
  "written (Reading rq) = [rq]"
| "written (Ended r out) = out"
| "written _ = []"

section \<open>What is left to do\<close>

definition read_back ::
    "('v, 'f) network \<Rightarrow> ('v, 'f) http_request \<Rightarrow> (string \<times> ('v, 'f) sent_log) result" where
  "read_back net rq =
     (case read_answer net rq of
        None \<Rightarrow> Inr (''error'', [rq])
      | Some res \<Rightarrow> Inr (buildResponseStringBuffer res, [rq]))"

fun remaining ::
    "('v, 'f) beast \<Rightarrow> ('v, 'f) network \<Rightarrow> string \<Rightarrow> ('v, 'f) stage \<Rightarrow> (string \<times> ('v, 'f) sent_log) result" where
  \<comment> \<open>specification: the result of the rest of the exchange on a network\<close>
  "remaining B net host (Resolving port rq) = exchange B net host port rq"
| "remaining B net host (Connecting port rq) =
     exchange B (net\<lparr>resolve_error := (\<lambda>_ _. False)\<rparr>) host port rq"
| "remaining B net host (Sending rq) =
     (if write_error net rq then Inr (''error'', []) else read_back net rq)"
| "remaining B net host (Reading rq) = read_back net rq"
| "remaining B net host (Ended r out) = and_then r (\<lambda>txt. Inr (txt, out))"

definition finish_as :: "string \<Rightarrow> (string \<times> ('v, 'f) sent_log) result \<Rightarrow> ('v, 'f) outcome result" where
  "finish_as port x =
     (case x of
        Inr (result, out) \<Rightarrow> Inr \<lparr>reply = result, used_port = port, sent = out\<rparr>
      | Inl e \<Rightarrow> if is_exception e then Inr \<lparr>reply = ''error'', used_port = port, sent = []\<rparr> else Inl e)"

lemma finish_caught: "finish_as p (remaining B net host (caught e)) = finish_as p (Inl e)"
  by (simp add: caught_def finish_as_def)

lemma begin_exchange_Inr:
  "begin_exchange B order draw msg port ident t = Inr (port', st) \<longleftrightarrow>
     pick_port draw port = Inr port'
   \<and> st = (case build_request B order msg ident t of Inl e \<Rightarrow> caught e | Inr rq \<Rightarrow> Resolving port' rq)"
  by (auto simp: begin_exchange_def and_then_eq_Inr)

lemma begin_exchange_whole:
  assumes "begin_exchange B order draw msg port ident t = Inr (port', st)"
  shows "asyncHttpClient B net order draw msg host port ident t = finish_as port' (remaining B net host st)"
proof -
  have "asyncHttpClient B net order draw msg host port ident t
      = finish_as port' (and_then (build_request B order msg ident t) (exchange B net host port'))"
    using assms by (simp add: begin_exchange_Inr asyncHttpClient_def finish_as_def)
  then show ?thesis
    using assms by (cases "build_request B order msg ident t") (simp_all add: begin_exchange_Inr finish_caught)
qed

text \<open>Whatever is left after an answer was left before it, on the network that gives that answer.\<close>

lemma resume_remaining:
  assumes "resume B host st a = Some st'"
  shows "\<exists>net'. finish_as p (remaining B net' host st) = finish_as p (remaining B net host st')"
proof -
  consider (resolved) port rq where "st = Resolving port rq" "a = Succeeded" "st' = Connecting port rq"
    | (connected) port rq where "st = Connecting port rq" "a = Succeeded"
        "st' = (case set_in B ''Host'' host rq of Inl e \<Rightarrow> caught e | Inr rq' \<Rightarrow> Sending rq')"
    | (sent) rq where "st = Sending rq" "a = Succeeded" "st' = Reading rq"
    | (got) rq res where "st = Reading rq" "a = Received res"
        "st' = Ended (Inr (buildResponseStringBuffer res)) [rq]"
    | (failed) "a = Failed" "st' = Ended (Inr ''error'') (written st)"
    using assms by (cases "(B, host, st, a)" rule: resume.cases) auto
  then show ?thesis
  proof cases
    case resolved
    then show ?thesis by (intro exI [of _ "net\<lparr>resolve_error := (\<lambda>_ _. False)\<rparr>"]) simp
  next
    case connected
    then show ?thesis
      by (intro exI [of _ "net\<lparr>connect_error := (\<lambda>_ _. False)\<rparr>"], cases "set_in B ''Host'' host rq")
        (simp_all add: finish_caught exchange_def read_back_def)
  next
    case sent
    then show ?thesis by (intro exI [of _ "net\<lparr>write_error := (\<lambda>_. False)\<rparr>"]) (simp add: read_back_def)
  next
    case (got rq res)
    then show ?thesis by (intro exI [of _ "net\<lparr>read_answer := (\<lambda>_. Some res)\<rparr>"]) (simp add: read_back_def)
  next
    case failed
    then show ?thesis
      using assms
      by (intro exI [of _ "\<lparr>resolve_error = (\<lambda>_ _. True), connect_error = (\<lambda>_ _. True),
            write_error = (\<lambda>_. True), read_answer = (\<lambda>_. None)\<rparr>"], cases st)
        (simp_all add: exchange_def read_back_def)
  qed
qed

section \<open>The interleaved gateway\<close>

record ('s, 'w, 'v, 'f) suspended =
  sys :: "('s, 'w, 'v, 'f) system"
  stages :: "('v, 'f) stage option list"  \<comment> \<open>of the pending exchanges; \<open>None\<close>: spawned, not started\<close>

datatype ('s, 'v, 'f) happening =
    Outside "('s, 'v, 'f) event"
  | Begin nat nat
  | Resume nat io_answer
  | Complete nat

fun is_finished :: "('s, 'v, 'f) event \<Rightarrow> bool" where
  "is_finished (Finished i draw net) = True"
| "is_finished _ = False"

definition overwrite_port :: "'s \<Rightarrow> string \<Rightarrow> ('s, 'w, 'v, 'f) system \<Rightarrow> ('s, 'w, 'v, 'f) system" where
  "overwrite_port s port \<sigma> = \<sigma>\<lparr>gw := (gw \<sigma>)\<lparr>listeners :=
     (listeners (gw \<sigma>))(s := map_option (\<lambda>l. l\<lparr>http_server_port := port\<rparr>) (listeners (gw \<sigma>) s))\<rparr>\<rparr>"

definition new_in :: "('v, 'f) stage \<Rightarrow> ('v, 'f) stage \<Rightarrow> ('v, 'f) sent_log" where
  \<comment> \<open>what was written between two suspensions\<close>
  "new_in st st' = drop (length (written st)) (written st')"

inductive ex_step ::
    "('w, 'v, 'f) site \<Rightarrow> ('s, 'v, 'f) happening \<Rightarrow> ('s, 'w, 'v, 'f) suspended \<Rightarrow> ('s, 'w, 'v, 'f) suspended \<Rightarrow> bool"
  for S :: "('w, 'v, 'f) site" where
  from_outside: "gw_step S e (sys \<chi>) \<sigma>' \<Longrightarrow> \<not> is_finished e \<Longrightarrow>
    ex_step S (Outside e) \<chi>
      (\<chi>\<lparr>sys := \<sigma>', stages := stages \<chi> @ replicate (length (pending \<sigma>') - length (pending (sys \<chi>))) None\<rparr>)"
| begins: "i < length (pending (sys \<chi>)) \<Longrightarrow> j = pending (sys \<chi>) ! i \<Longrightarrow> stages \<chi> ! i = None \<Longrightarrow>
    listeners (gw (sys \<chi>)) (job_socket j) = Some l \<Longrightarrow>
    begin_exchange (site_beast S) (site_order S) draw (job_message j) (http_server_port l) (clientID l)
      (job_time j) = Inr (port', st) \<Longrightarrow>
    ex_step S (Begin i draw) \<chi>
      (\<chi>\<lparr>sys := overwrite_port (job_socket j) port' (sys \<chi>), stages := (stages \<chi>)[i := Some st]\<rparr>)"
| goes_on: "i < length (pending (sys \<chi>)) \<Longrightarrow> j = pending (sys \<chi>) ! i \<Longrightarrow> stages \<chi> ! i = Some st \<Longrightarrow>
    listeners (gw (sys \<chi>)) (job_socket j) = Some l \<Longrightarrow>
    resume (site_beast S) (http_server_address l) st a = Some st' \<Longrightarrow>
    ex_step S (Resume i a) \<chi>
      (\<chi>\<lparr>sys := (sys \<chi>)\<lparr>wire := wire (sys \<chi>) @ map (Pair (job_socket j)) (new_in st st')\<rparr>,
         stages := (stages \<chi>)[i := Some st']\<rparr>)"
| completes: "i < length (pending (sys \<chi>)) \<Longrightarrow> j = pending (sys \<chi>) ! i \<Longrightarrow>
    stages \<chi> ! i = Some (Ended r out) \<Longrightarrow>
    ex_step S (Complete i) \<chi>
      (\<chi>\<lparr>sys := (sys \<chi>)\<lparr>
           pending := take i (pending (sys \<chi>)) @ drop (Suc i) (pending (sys \<chi>)),
           socket_calls := socket_calls (sys \<chi>) @ on_result (job_socket j) r\<rparr>,
         stages := take i (stages \<chi>) @ drop (Suc i) (stages \<chi>)\<rparr>)"

inductive ex_run ::
    "('w, 'v, 'f) site \<Rightarrow> 'w \<Rightarrow> ('s, 'v, 'f) happening list \<Rightarrow> ('s, 'w, 'v, 'f) suspended \<Rightarrow> bool"
  for S :: "('w, 'v, 'f) site" and w :: 'w where
  ex_start: "ex_run S w [] \<lparr>sys = idle_system w, stages = []\<rparr>"
| ex_more: "ex_run S w tr \<chi> \<Longrightarrow> ex_step S h \<chi> \<chi>' \<Longrightarrow> ex_run S w (tr @ [h]) \<chi>'"

lemma ex_step_functional: "ex_step S h \<chi> \<chi>1 \<Longrightarrow> ex_step S h \<chi> \<chi>2 \<Longrightarrow> \<chi>1 = \<chi>2"
  by (cases h) (auto elim!: ex_step.cases dest: gw_step_functional)

inductive_cases ex_run_snocE: "ex_run S w (tr @ [h]) \<chi>"
inductive_cases ex_run_NilE: "ex_run S w [] \<chi>"

lemma ex_run_functional: "ex_run S w tr \<chi>1 \<Longrightarrow> ex_run S w tr \<chi>2 \<Longrightarrow> \<chi>1 = \<chi>2"
proof (induction tr arbitrary: \<chi>1 \<chi>2 rule: rev_induct)
  case Nil
  then show ?case by (auto elim!: ex_run_NilE)
next
  case (snoc h tr)
  from snoc.prems(1) obtain \<chi> where s: "ex_run S w tr \<chi>" "ex_step S h \<chi> \<chi>1" by (rule ex_run_snocE) auto
  from snoc.prems(2) obtain \<chi>' where s': "ex_run S w tr \<chi>'" "ex_step S h \<chi>' \<chi>2" by (rule ex_run_snocE) auto
  show ?case using ex_step_functional s(2) s' snoc.IH [OF s(1) s'(1)] by blast
qed

section \<open>The simulation\<close>

definition same_target :: "listener \<Rightarrow> listener \<Rightarrow> bool" where
  \<comment> \<open>as the coroutine sees them: the last character of the port is overwritten\<close>
  "same_target l l' \<longleftrightarrow> clientID l = clientID l' \<and> http_server_address l = http_server_address l'
     \<and> butlast (http_server_port l) = butlast (http_server_port l')
     \<and> length (http_server_port l) = length (http_server_port l')"

definition alike :: "listener \<Rightarrow> listener \<Rightarrow> bool" where
  "alike l l' \<longleftrightarrow> m_messageBuffer l = m_messageBuffer l' \<and> same_target l l'"

lemma same_target_refl [simp]: "same_target l l"
  by (simp add: same_target_def)

lemma alike_refl [simp]: "alike l l"
  by (simp add: alike_def)

definition same_gateway :: "('s, 'w) gateway \<Rightarrow> ('s, 'w) gateway \<Rightarrow> bool" where
  "same_gateway g g' \<longleftrightarrow> SOCKETS g = SOCKETS g' \<and> registry g = registry g'
     \<and> (\<forall>s. rel_option alike (listeners g s) (listeners g' s))"

definition same_view :: "('s, 'w, 'v, 'f) system \<Rightarrow> ('s, 'w, 'v, 'f) system \<Rightarrow> bool" where
  \<comment> \<open>equal but for the last characters of the ports, and the requests\<close>
  "same_view \<sigma> \<sigma>' \<longleftrightarrow> same_gateway (gw \<sigma>) (gw \<sigma>') \<and> live \<sigma> = live \<sigma>' \<and> pending \<sigma> = pending \<sigma>'
     \<and> socket_calls \<sigma> = socket_calls \<sigma>'"

lemma alike_readMessage:
  assumes "alike l k" "readMessage l data n now = (l', spawned)"
  shows "\<exists>k'. readMessage k data n now = (k', spawned) \<and> alike l' k'"
  using assms by (auto simp: readMessage_def alike_def same_target_def split: if_splits)

lemma same_gateway_upd:
  "same_gateway g g' \<Longrightarrow> alike l l' \<Longrightarrow>
     same_gateway (g\<lparr>listeners := (listeners g)(s \<mapsto> l)\<rparr>) (g'\<lparr>listeners := (listeners g')(s \<mapsto> l')\<rparr>)"
  by (auto simp: same_gateway_def)

lemma same_listeners: "same_gateway g g' \<Longrightarrow> rel_option alike (listeners g s) (listeners g' s)"
  by (simp add: same_gateway_def)

lemma same_listener:
  "same_gateway g g' \<Longrightarrow> listeners g s = Some l \<Longrightarrow> \<exists>l'. listeners g' s = Some l' \<and> alike l l'"
  using same_listeners [of g g' s] by (auto simp: option_rel_Some1)

lemma same_none: "same_gateway g g' \<Longrightarrow> listeners g s = None \<Longrightarrow> listeners g' s = None"
  using same_listeners [of g g' s] by simp

lemma simulated_by:
  "gw_step S e \<tau> \<tau>1 \<Longrightarrow> same_view \<sigma>1 \<tau>1 \<Longrightarrow> wire \<tau>1 = wire \<tau> \<Longrightarrow> wire \<sigma>1 = wire \<sigma> \<Longrightarrow>
     \<exists>new. pending \<sigma>1 = pending \<sigma> @ new \<Longrightarrow>
     \<exists>\<tau>1. gw_step S e \<tau> \<tau>1 \<and> same_view \<sigma>1 \<tau>1 \<and> wire \<tau>1 = wire \<tau> \<and> wire \<sigma>1 = wire \<sigma>
       \<and> (\<exists>new. pending \<sigma>1 = pending \<sigma> @ new)"
  by blast

lemma same_viewD:
  assumes "same_view \<sigma> \<tau>"
  shows "same_gateway (gw \<sigma>) (gw \<tau>)" "live \<sigma> = live \<tau>" "pending \<sigma> = pending \<tau>" "socket_calls \<sigma> = socket_calls \<tau>"
  using assms by (simp_all add: same_view_def)

lemma created_simulated:
  assumes "gw_step S e \<sigma> \<sigma>1" "e = Created s params peer" "same_view \<sigma> \<tau>"
  shows "\<exists>\<tau>1. gw_step S e \<tau> \<tau>1 \<and> same_view \<sigma>1 \<tau>1 \<and> wire \<tau>1 = wire \<tau> \<and> wire \<sigma>1 = wire \<sigma>
    \<and> (\<exists>new. pending \<sigma>1 = pending \<sigma> @ new)"
proof -
  note sg = same_viewD(1) [OF assms(3)] and view = same_viewD(2-4) [OF assms(3)]
  show ?thesis
    using assms(1)
  proof (cases rule: gw_step.cases)
    case (created s params peer g' calls)
    from created(4) obtain k where k: "params ''ClientId'' = Some (Some k)" "peer_readable (site_config S) peer"
      "g' = (gw \<sigma>)\<lparr>SOCKETS := SOCKETS (gw \<sigma>) + 1,
         registry := addClient (site_exec S) (site_manager S) k s (registry (gw \<sigma>)),
         listeners := (listeners (gw \<sigma>))(s \<mapsto>
           WebSocketListener k (http_request_address (site_config S)) (http_request_port (site_config S)))\<rparr>"
      "calls = (if k = [] then [(s, SendClose 2 ''ClientId paramter is empty'')] else [])"
      by (auto simp: onAfterCreate_Inr)
    let ?h = "(gw \<tau>)\<lparr>SOCKETS := SOCKETS (gw \<tau>) + 1,
         registry := addClient (site_exec S) (site_manager S) k s (registry (gw \<tau>)),
         listeners := (listeners (gw \<tau>))(s \<mapsto>
           WebSocketListener k (http_request_address (site_config S)) (http_request_port (site_config S)))\<rparr>"
    have "onAfterCreate (site_exec S) (site_manager S) (site_config S) s params peer (gw \<tau>) = Inr (?h, calls)"
      using k(1,2,4) by (simp add: onAfterCreate_Inr)
    from gw_step.created [OF same_none [OF sg created(3)] this]
    have step: "gw_step S e \<tau> (\<tau>\<lparr>gw := ?h, live := insert s (live \<tau>), socket_calls := socket_calls \<tau> @ calls\<rparr>)"
      by (simp add: created(1))
    have "same_gateway g' ?h" using sg by (simp add: k(3) same_gateway_def)
    then show ?thesis
      by (intro simulated_by [OF step]) (simp_all add: created(2) view same_view_def)
  qed (use assms(2) in auto)
qed

lemma frame_simulated:
  assumes "gw_step S e \<sigma> \<sigma>1" "e = Frame s data now" "same_view \<sigma> \<tau>"
  shows "\<exists>\<tau>1. gw_step S e \<tau> \<tau>1 \<and> same_view \<sigma>1 \<tau>1 \<and> wire \<tau>1 = wire \<tau> \<and> wire \<sigma>1 = wire \<sigma>
    \<and> (\<exists>new. pending \<sigma>1 = pending \<sigma> @ new)"
proof -
  note sg = same_viewD(1) [OF assms(3)] and view = same_viewD(2-4) [OF assms(3)]
  show ?thesis
    using assms(1)
  proof (cases rule: gw_step.cases)
    case (frame s l data now l' spawned)
    obtain k where k: "listeners (gw \<tau>) s = Some k" "alike l k"
      using same_listener [OF sg frame(4)] by blast
    obtain k' where k': "readMessage k data (int (length data)) now = (k', spawned)" "alike l' k'"
      using alike_readMessage [OF k(2) frame(6)] by blast
    have "s \<in> live \<tau>" "length (m_messageBuffer k) + length data \<le> max_size"
      using frame(3,5) view k(2) by (simp_all add: alike_def)
    from gw_step.frame [OF this(1) k(1) this(2) k'(1)]
    have step: "gw_step S e \<tau> (\<tau>\<lparr>gw := (gw \<tau>)\<lparr>listeners := (listeners (gw \<tau>))(s \<mapsto> k')\<rparr>,
        pending := pending \<tau> @ spawn s spawned\<rparr>)"
      by (simp add: frame(1))
    show ?thesis
      using same_gateway_upd [OF sg k'(2)]
      by (intro simulated_by [OF step]) (simp_all add: frame(2) view same_view_def)
  qed (use assms(2) in auto)
qed

lemma close_simulated:
  assumes "gw_step S e \<sigma> \<sigma>1" "e = Close s cc msg" "same_view \<sigma> \<tau>"
  shows "\<exists>\<tau>1. gw_step S e \<tau> \<tau>1 \<and> same_view \<sigma>1 \<tau>1 \<and> wire \<tau>1 = wire \<tau> \<and> wire \<sigma>1 = wire \<sigma>
    \<and> (\<exists>new. pending \<sigma>1 = pending \<sigma> @ new)"
proof -
  note sg = same_viewD(1) [OF assms(3)] and view = same_viewD(2-4) [OF assms(3)]
  show ?thesis
    using assms(1)
  proof (cases rule: gw_step.cases)
    case (close_frame s l cc msg)
    obtain k where k: "listeners (gw \<tau>) s = Some k" "alike l k"
      using same_listener [OF sg close_frame(4)] by blast
    have "s \<in> live \<tau>" using close_frame(3) view by simp
    from gw_step.close_frame [OF this k(1)]
    have step: "gw_step S e \<tau> (\<tau>\<lparr>gw := (gw \<tau>)\<lparr>registry :=
        onClose (site_exec S) (site_manager S) k cc msg (registry (gw \<tau>))\<rparr>\<rparr>)"
      by (simp add: close_frame(1))
    show ?thesis
      using sg k(2)
      by (intro simulated_by [OF step])
        (simp_all add: close_frame(2) view same_view_def same_gateway_def onClose_def alike_def same_target_def)
  qed (use assms(2) in auto)
qed

lemma destroyed_simulated:
  assumes "gw_step S e \<sigma> \<sigma>1" "e = Destroyed s" "same_view \<sigma> \<tau>"
  shows "\<exists>\<tau>1. gw_step S e \<tau> \<tau>1 \<and> same_view \<sigma>1 \<tau>1 \<and> wire \<tau>1 = wire \<tau> \<and> wire \<sigma>1 = wire \<sigma>
    \<and> (\<exists>new. pending \<sigma>1 = pending \<sigma> @ new)"
proof -
  note sg = same_viewD(1) [OF assms(3)] and view = same_viewD(2-4) [OF assms(3)]
  show ?thesis
    using assms(1)
  proof (cases rule: gw_step.cases)
    case (destroyed s g')
    then obtain l where l: "listeners (gw \<sigma>) s = Some l"
      "g' = (gw \<sigma>)\<lparr>SOCKETS := SOCKETS (gw \<sigma>) - 1,
         registry := setClientNotAvailable (site_exec S) (site_manager S) (clientID l) (registry (gw \<sigma>))\<rparr>"
      by (auto simp: onBeforeDestroy_Inr)
    obtain k where k: "listeners (gw \<tau>) s = Some k" "alike l k"
      using same_listener [OF sg l(1)] by blast
    let ?h = "(gw \<tau>)\<lparr>SOCKETS := SOCKETS (gw \<tau>) - 1,
         registry := setClientNotAvailable (site_exec S) (site_manager S) (clientID k) (registry (gw \<tau>))\<rparr>"
    have "onBeforeDestroy (site_exec S) (site_manager S) s (gw \<tau>) = Inr ?h"
      using k(1) by (simp add: onBeforeDestroy_Inr)
    moreover have "s \<in> live \<tau>" using destroyed(3) view by simp
    ultimately have step: "gw_step S e \<tau> (\<tau>\<lparr>gw := ?h, live := live \<tau> - {s}\<rparr>)"
      using gw_step.destroyed by (simp add: destroyed(1))
    have "same_gateway g' ?h" using sg k(2) by (simp add: l(2) same_gateway_def alike_def same_target_def)
    then show ?thesis
      by (intro simulated_by [OF step]) (simp_all add: destroyed(2) view same_view_def)
  qed (use assms(2) in auto)
qed

lemma outside_simulated:
  assumes "gw_step S e \<sigma> \<sigma>1" "\<not> is_finished e" "same_view \<sigma> \<tau>"
  shows "\<exists>\<tau>1. gw_step S e \<tau> \<tau>1 \<and> same_view \<sigma>1 \<tau>1 \<and> wire \<tau>1 = wire \<tau> \<and> wire \<sigma>1 = wire \<sigma>
    \<and> (\<exists>new. pending \<sigma>1 = pending \<sigma> @ new)"
proof (cases e)
  case (Ping s msg)
  then have step: "gw_step S e \<tau> (\<tau>\<lparr>socket_calls := socket_calls \<tau> @ onPing s msg\<rparr>)"
    and \<sigma>1: "\<sigma>1 = \<sigma>\<lparr>socket_calls := socket_calls \<sigma> @ onPing s msg\<rparr>"
    using assms(1) same_viewD(2) [OF assms(3)] by (auto simp: gw_step_simps)
  show ?thesis
    using assms(3) by (intro simulated_by [OF step]) (simp_all add: \<sigma>1 same_view_def)
next
  case (Pong s msg)
  then have step: "gw_step S e \<tau> (\<tau>\<lparr>socket_calls := socket_calls \<tau> @ onPong s msg\<rparr>)"
    and \<sigma>1: "\<sigma>1 = \<sigma>\<lparr>socket_calls := socket_calls \<sigma> @ onPong s msg\<rparr>"
    using assms(1) same_viewD(2) [OF assms(3)] by (auto simp: gw_step_simps)
  show ?thesis
    using assms(3) by (intro simulated_by [OF step]) (simp_all add: \<sigma>1 same_view_def)
next
  case (Finished i draw net)
  with assms(2) show ?thesis by simp
qed (rule created_simulated frame_simulated close_simulated destroyed_simulated, rule assms, assumption, rule assms)+

lemma same_target_trans: "same_target l l' \<Longrightarrow> same_target l' l'' \<Longrightarrow> same_target l l''"
  by (simp add: same_target_def)

lemma pick_port_same:
  "butlast p = butlast p' \<Longrightarrow> length p = length p' \<Longrightarrow> pick_port draw p = pick_port draw p'"
  by (auto simp: pick_port_def)

lemma run_job_same: "same_target l l' \<Longrightarrow> run_job S l j draw net = run_job S l' j draw net"
  using pick_port_same [of "http_server_port l" "http_server_port l'" draw]
  by (simp add: run_job_def asyncHttpClient_def same_target_def)

lemma port_written_same: "r = run_job S l j draw net \<Longrightarrow> same_target l (port_written r l)"
  using run_job_port [of S l j draw net] by (auto simp: same_target_def port_written_def split: sum.splits)

lemma step_same_target:
  assumes "gw_step S e \<sigma> \<sigma>'" "listeners (gw \<sigma>) s = Some l"
  shows "\<exists>l'. listeners (gw \<sigma>') s = Some l' \<and> same_target l l'"
  using assms(1)
proof (cases rule: gw_step.cases)
  case (frame s' l1 data now l' spawned)
  then show ?thesis using assms(2) readMessage_keeps [OF frame(6)] by (auto simp: same_target_def)
next
  case (finished i j l1 r draw net)
  then show ?thesis using assms(2) port_written_same [OF finished(6)] by auto
qed (use assms(2) in \<open>auto simp: onAfterCreate_Inr onBeforeDestroy_Inr\<close>)

lemma pending_lengths:
  "gw_step S e \<sigma> \<sigma>' \<Longrightarrow> \<not> is_finished e \<Longrightarrow> \<exists>new. pending \<sigma>' = pending \<sigma> @ new"
  by (erule gw_step.cases) auto

section \<open>What an exchange may come to\<close>

definition possible :: "('w, 'v, 'f) site \<Rightarrow> listener \<Rightarrow> 's job \<Rightarrow> ('v, 'f) stage \<Rightarrow> bool" where
  \<comment> \<open>however the exchange goes on from the stage, it might as well have been one step\<close>
  "possible S l j st \<longleftrightarrow>
     (\<exists>draw port. \<forall>net. \<exists>net'. run_job S l j draw net'
        = finish_as port (remaining (site_beast S) net (http_server_address l) st))
   \<and> (\<forall>e out. st = Ended (Inl e) out \<longrightarrow> \<not> is_exception e \<and> out = [])"

lemma possible_same: "same_target l l' \<Longrightarrow> possible S l j st \<Longrightarrow> possible S l' j st"
  using run_job_same [of l l' S j] by (simp add: possible_def same_target_def)

lemma possible_begin:
  assumes "begin_exchange (site_beast S) (site_order S) draw (job_message j) (http_server_port l) (clientID l)
      (job_time j) = Inr (port', st)"
  shows "possible S l j st"
proof -
  have "run_job S l j draw net = finish_as port' (remaining (site_beast S) net (http_server_address l) st)" for net
    using begin_exchange_whole [OF assms] by (simp add: run_job_def)
  moreover have "\<not> is_exception e \<and> out = []" if "st = Ended (Inl e) out" for e out
    using assms that by (auto simp: begin_exchange_Inr caught_def split: sum.splits if_splits)
  ultimately show ?thesis unfolding possible_def by blast
qed

lemma resume_Inl: "resume B host st a = Some (Ended (Inl e) out) \<Longrightarrow> \<not> is_exception e \<and> out = []"
  by (cases "(B, host, st, a)" rule: resume.cases) (auto simp: caught_def split: sum.splits if_splits)

lemma possible_resume:
  assumes "possible S l j st" "resume (site_beast S) (http_server_address l) st a = Some st'"
  shows "possible S l j st'"
proof -
  obtain draw port where d: "\<forall>net. \<exists>net'. run_job S l j draw net'
      = finish_as port (remaining (site_beast S) net (http_server_address l) st)"
    using assms(1) unfolding possible_def by blast
  have "\<exists>net'. run_job S l j draw net'
      = finish_as port (remaining (site_beast S) net (http_server_address l) st')" for net
    using resume_remaining [OF assms(2), of port net] d by metis
  then show ?thesis using assms(2) resume_Inl unfolding possible_def by blast
qed

lemma possible_ended:
  assumes "possible S l j (Ended r out)"
  shows "\<exists>draw net. result_text (run_job S l j draw net) = r \<and> requests_of (run_job S l j draw net) = out"
proof -
  obtain draw port net where d: "run_job S l j draw net = finish_as port (and_then r (\<lambda>txt. Inr (txt, out)))"
    using assms by (auto simp: possible_def)
  show ?thesis
  proof (cases r)
    case (Inl e)
    then have "\<not> is_exception e" "out = []" using assms by (auto simp: possible_def)
    with Inl d show ?thesis
      by (intro exI [of _ draw] exI [of _ net]) (simp add: finish_as_def result_text_def requests_of_def)
  next
    case (Inr answer)
    with d show ?thesis
      by (intro exI [of _ draw] exI [of _ net]) (simp add: finish_as_def result_text_def requests_of_def)
  qed
qed

lemma possible_written:
  assumes "possible S l j st" "rq \<in> set (written st)"
  shows "\<exists>draw net x. run_job S l j draw net = Inr x \<and> rq \<in> set (sent x)"
proof (cases st)
  case (Reading rq')
  then obtain draw port net where "run_job S l j draw net = finish_as port (read_back down_network rq)"
    using assms unfolding possible_def by fastforce
  then show ?thesis by (force simp: read_back_def finish_as_def down_network_def)
next
  case (Ended r out)
  then obtain draw net where "requests_of (run_job S l j draw net) = out" "rq \<in> set out"
    using possible_ended assms by fastforce
  then show ?thesis by (cases "run_job S l j draw net") (auto simp: requests_of_def)
qed (use assms(2) in auto)

section \<open>Requests under way\<close>

definition under_way :: "'s job \<Rightarrow> ('v, 'f) stage option \<Rightarrow> ('s \<times> ('v, 'f) http_request) multiset" where
  "under_way j st = (case st of None \<Rightarrow> {#} | Some st \<Rightarrow> mset (map (Pair (job_socket j)) (written st)))"

definition in_flight :: "('s, 'w, 'v, 'f) suspended \<Rightarrow> ('s \<times> ('v, 'f) http_request) multiset" where
  \<comment> \<open>the requests on the wire whose exchanges have not ended\<close>
  "in_flight \<chi> = sum2 under_way (pending (sys \<chi>)) (stages \<chi>)"

lemma written_new: "resume B host st a = Some st' \<Longrightarrow> written st' = written st @ new_in st st'"
  by (cases "(B, host, st, a)" rule: resume.cases) (auto simp: new_in_def caught_def split: sum.splits)

lemma written_begin:
  "begin_exchange B order draw msg port ident t = Inr (port', st) \<Longrightarrow> written st = []"
  by (auto simp: begin_exchange_Inr caught_def split: sum.splits)

definition stages_ok :: "('w, 'v, 'f) site \<Rightarrow> ('s, 'w, 'v, 'f) suspended \<Rightarrow> bool" where
  "stages_ok S \<chi> \<longleftrightarrow> length (stages \<chi>) = length (pending (sys \<chi>))
     \<and> (\<forall>(j, st) \<in> set (zip (pending (sys \<chi>)) (stages \<chi>)). \<forall>st'. st = Some st' \<longrightarrow>
          (\<exists>l. listeners (gw (sys \<chi>)) (job_socket j) = Some l \<and> possible S l j st'))"

definition simulates :: "('w, 'v, 'f) site \<Rightarrow> ('s, 'w, 'v, 'f) suspended \<Rightarrow> ('s, 'w, 'v, 'f) system \<Rightarrow> bool" where
  "simulates S \<chi> \<tau> \<longleftrightarrow> same_view (sys \<chi>) \<tau> \<and> stages_ok S \<chi>
     \<and> mset (wire (sys \<chi>)) = mset (wire \<tau>) + in_flight \<chi>"

definition keeps_targets :: "('s, 'w) gateway \<Rightarrow> ('s, 'w) gateway \<Rightarrow> bool" where
  "keeps_targets g g' \<longleftrightarrow>
     (\<forall>s l. listeners g s = Some l \<longrightarrow> (\<exists>l'. listeners g' s = Some l' \<and> same_target l l'))"

lemma stages_okD:
  assumes "stages_ok S \<chi>" "i < length (pending (sys \<chi>))" "stages \<chi> ! i = Some st"
    and "listeners (gw (sys \<chi>)) (job_socket (pending (sys \<chi>) ! i)) = Some l"
  shows "possible S l (pending (sys \<chi>) ! i) st"
proof -
  have "(pending (sys \<chi>) ! i, Some st) \<in> set (zip (pending (sys \<chi>)) (stages \<chi>))"
    using assms(1-3) by (auto simp: stages_ok_def set_zip)
  then show ?thesis using assms(1,4) by (fastforce simp: stages_ok_def)
qed

lemma stages_ok_mono:
  \<comment> \<open>stages that were possible stay so when listeners keep their targets\<close>
  assumes "stages_ok S \<chi>" "keeps_targets (gw (sys \<chi>)) (gw (sys \<chi>'))"
    and "length (stages \<chi>') = length (pending (sys \<chi>'))"
    and "\<And>j st. (j, Some st) \<in> set (zip (pending (sys \<chi>')) (stages \<chi>')) \<Longrightarrow>
      (j, Some st) \<in> set (zip (pending (sys \<chi>)) (stages \<chi>))
      \<or> (\<exists>l. listeners (gw (sys \<chi>')) (job_socket j) = Some l \<and> possible S l j st)"
  shows "stages_ok S \<chi>'"
proof -
  have "\<exists>l. listeners (gw (sys \<chi>')) (job_socket j) = Some l \<and> possible S l j st"
    if "(j, Some st) \<in> set (zip (pending (sys \<chi>')) (stages \<chi>'))" for j st
    using assms(4) [OF that]
  proof
    assume "(j, Some st) \<in> set (zip (pending (sys \<chi>)) (stages \<chi>))"
    then obtain l where "listeners (gw (sys \<chi>)) (job_socket j) = Some l" "possible S l j st"
      using assms(1) by (fastforce simp: stages_ok_def)
    then show ?thesis using assms(2) possible_same unfolding keeps_targets_def by metis
  qed
  with assms(3) show ?thesis by (auto simp: stages_ok_def)
qed

section \<open>Each step is simulated\<close>

lemma outside_step_simulated:
  assumes "simulates S \<chi> \<tau>" "gw_step S e (sys \<chi>) \<sigma>'" "\<not> is_finished e"
  shows "\<exists>\<tau>'. gw_step S e \<tau> \<tau>' \<and> simulates S (\<chi>\<lparr>sys := \<sigma>',
      stages := stages \<chi> @ replicate (length (pending \<sigma>') - length (pending (sys \<chi>))) None\<rparr>) \<tau>'"
proof -
  have view: "same_view (sys \<chi>) \<tau>" using assms(1) by (simp add: simulates_def)
  obtain \<tau>' new where t: "gw_step S e \<tau> \<tau>'" "same_view \<sigma>' \<tau>'" "wire \<tau>' = wire \<tau>"
    "wire \<sigma>' = wire (sys \<chi>)" "pending \<sigma>' = pending (sys \<chi>) @ new"
    using outside_simulated [OF assms(2,3) view] by blast
  let ?x = "\<chi>\<lparr>sys := \<sigma>', stages := stages \<chi> @ replicate (length new) None\<rparr>"
  have len: "length (stages \<chi>) = length (pending (sys \<chi>))" and ok: "stages_ok S \<chi>"
    using assms(1) by (simp_all add: simulates_def stages_ok_def)
  have "in_flight ?x = in_flight \<chi>"
    using len by (simp add: in_flight_def t(5) sum2_append sum2_none under_way_def)
  moreover have "keeps_targets (gw (sys \<chi>)) (gw \<sigma>')"
    using step_same_target [OF assms(2)] by (simp add: keeps_targets_def)
  then have "stages_ok S ?x"
    using len by (intro stages_ok_mono [OF ok]) (auto simp: t(5) set_zip_leftD zip_append set_replicate_conv_if
        dest!: set_zip_rightD split: if_splits)
  ultimately have "simulates S ?x \<tau>'" using t assms(1) by (simp add: simulates_def)
  with t(1,5) show ?thesis by auto
qed

lemma overwrite_port_rest [simp]:
  "pending (overwrite_port s p \<sigma>) = pending \<sigma>" "wire (overwrite_port s p \<sigma>) = wire \<sigma>"
  by (simp_all add: overwrite_port_def)

lemma overwrite_port_target:
  assumes "listeners (gw \<sigma>) s = Some l" "pick_port draw (http_server_port l) = Inr port'"
  shows "keeps_targets (gw \<sigma>) (gw (overwrite_port s port' \<sigma>))" "same_view (overwrite_port s port' \<sigma>) \<sigma>"
proof -
  have "butlast port' = butlast (http_server_port l)" "length port' = length (http_server_port l)"
    using assms(2) by (auto simp: pick_port_def split: if_splits)
  then show "keeps_targets (gw \<sigma>) (gw (overwrite_port s port' \<sigma>))" "same_view (overwrite_port s port' \<sigma>) \<sigma>"
    using assms(1)
    by (auto simp: keeps_targets_def overwrite_port_def same_target_def same_view_def same_gateway_def alike_def
        option.rel_refl)
qed

lemma same_view_trans:
  assumes "same_view \<sigma> \<sigma>'" "same_view \<sigma>' \<sigma>''"
  shows "same_view \<sigma> \<sigma>''"
proof -
  have "transp (rel_option alike)"
    by (rule option.rel_transp) (auto simp: transp_def alike_def same_target_def)
  from transpD [OF this] have "rel_option alike (listeners (gw \<sigma>) s) (listeners (gw \<sigma>'') s)" for s
    using assms unfolding same_view_def same_gateway_def by blast
  then show ?thesis using assms by (simp add: same_view_def same_gateway_def)
qed

lemma begin_simulated:
  assumes "simulates S \<chi> \<tau>" "i < length (pending (sys \<chi>))" "stages \<chi> ! i = None"
    and "listeners (gw (sys \<chi>)) (job_socket (pending (sys \<chi>) ! i)) = Some l"
    and "begin_exchange (site_beast S) (site_order S) draw (job_message (pending (sys \<chi>) ! i))
      (http_server_port l) (clientID l) (job_time (pending (sys \<chi>) ! i)) = Inr (port', st)"
  shows "simulates S (\<chi>\<lparr>sys := overwrite_port (job_socket (pending (sys \<chi>) ! i)) port' (sys \<chi>),
      stages := (stages \<chi>)[i := Some st]\<rparr>) \<tau>" (is "simulates S ?x \<tau>")
proof -
  let ?j = "pending (sys \<chi>) ! i"
  have view: "same_view (sys \<chi>) \<tau>" and ok: "stages_ok S \<chi>"
    and len: "length (pending (sys \<chi>)) = length (stages \<chi>)"
    using assms(1) by (simp_all add: simulates_def stages_ok_def)
  have "pick_port draw (http_server_port l) = Inr port'" using assms(5) by (simp add: begin_exchange_Inr)
  note target = overwrite_port_target [OF assms(4) this]
  have same: "pending (sys ?x) = pending (sys \<chi>)" "wire (sys ?x) = wire (sys \<chi>)"
    by (simp_all add: overwrite_port_def)
  have "in_flight ?x = in_flight \<chi>"
    using sum2_update [OF assms(2) len, of under_way "Some st"] written_begin [OF assms(5)] assms(3)
    by (simp add: in_flight_def under_way_def)
  moreover have "\<exists>l'. listeners (gw (sys ?x)) (job_socket ?j) = Some l' \<and> possible S l' ?j st"
    using target(1) assms(4) possible_same possible_begin [OF assms(5)] by (fastforce simp: keeps_targets_def)
  then have "stages_ok S ?x"
    using len target(1) by (intro stages_ok_mono [OF ok]) (auto dest!: set_zip_update)
  ultimately show ?thesis
    using assms(1) same_view_trans [OF target(2) view] by (simp add: simulates_def)
qed

lemma resume_simulated:
  assumes "simulates S \<chi> \<tau>" "i < length (pending (sys \<chi>))" "stages \<chi> ! i = Some st"
    and "listeners (gw (sys \<chi>)) (job_socket (pending (sys \<chi>) ! i)) = Some l"
    and "resume (site_beast S) (http_server_address l) st a = Some st'"
  shows "simulates S (\<chi>\<lparr>sys := (sys \<chi>)\<lparr>wire := wire (sys \<chi>)
        @ map (Pair (job_socket (pending (sys \<chi>) ! i))) (new_in st st')\<rparr>,
      stages := (stages \<chi>)[i := Some st']\<rparr>) \<tau>" (is "simulates S ?x \<tau>")
proof -
  let ?j = "pending (sys \<chi>) ! i"
  have view: "same_view (sys \<chi>) \<tau>" and ok: "stages_ok S \<chi>"
    and len: "length (pending (sys \<chi>)) = length (stages \<chi>)"
    using assms(1) by (simp_all add: simulates_def stages_ok_def)
  have "in_flight ?x = in_flight \<chi> + mset (map (Pair (job_socket ?j)) (new_in st st'))"
    using sum2_update [OF assms(2) len, of under_way "Some st'"] written_new [OF assms(5)] assms(3)
    by (simp add: in_flight_def under_way_def)
  moreover have "possible S l ?j st'"
    using possible_resume [OF stages_okD [OF ok assms(2-4)] assms(5)] .
  then have "stages_ok S ?x"
    using len assms(4) by (intro stages_ok_mono [OF ok]) (auto dest!: set_zip_update simp: keeps_targets_def)
  moreover have "same_view (sys ?x) \<tau>" using view by (simp add: same_view_def)
  ultimately show ?thesis using assms(1) by (simp add: simulates_def)
qed

lemma complete_simulated:
  assumes "simulates S \<chi> \<tau>" "i < length (pending (sys \<chi>))" "stages \<chi> ! i = Some (Ended r out)"
    and j: "j = pending (sys \<chi>) ! i"
  shows "\<exists>draw net \<tau>'. gw_step S (Finished i draw net) \<tau> \<tau>' \<and> simulates S (\<chi>\<lparr>sys := (sys \<chi>)\<lparr>
           pending := take i (pending (sys \<chi>)) @ drop (Suc i) (pending (sys \<chi>)),
           socket_calls := socket_calls (sys \<chi>) @ on_result (job_socket j) r\<rparr>,
         stages := take i (stages \<chi>) @ drop (Suc i) (stages \<chi>)\<rparr>) \<tau>'"
    (is "\<exists>draw net \<tau>'. _ \<and> simulates S ?x \<tau>'")
proof -
  have view: "same_gateway (gw (sys \<chi>)) (gw \<tau>)" "live \<tau> = live (sys \<chi>)" "pending \<tau> = pending (sys \<chi>)"
    "socket_calls \<tau> = socket_calls (sys \<chi>)" and ok: "stages_ok S \<chi>"
    and len: "length (pending (sys \<chi>)) = length (stages \<chi>)"
    using assms(1) by (simp_all add: simulates_def stages_ok_def same_view_def)
  have "(j, Some (Ended r out)) \<in> set (zip (pending (sys \<chi>)) (stages \<chi>))"
    using assms(2,3) len by (auto simp: in_set_zip j)
  then obtain l where l: "listeners (gw (sys \<chi>)) (job_socket j) = Some l" "possible S l j (Ended r out)"
    using ok by (fastforce simp: stages_ok_def)
  obtain k where k: "listeners (gw \<tau>) (job_socket j) = Some k" "alike l k"
    using same_listener [OF view(1) l(1)] by blast
  obtain draw net where d: "result_text (run_job S k j draw net) = r" "requests_of (run_job S k j draw net) = out"
    using possible_ended [OF possible_same [OF _ l(2)]] k(2) by (fastforce simp: alike_def)
  let ?w = "port_written (run_job S k j draw net) k"
  let ?t = "\<tau>\<lparr>gw := (gw \<tau>)\<lparr>listeners := (listeners (gw \<tau>))(job_socket j \<mapsto> ?w)\<rparr>,
     pending := take i (pending \<tau>) @ drop (Suc i) (pending \<tau>),
     socket_calls := socket_calls \<tau> @ on_result (job_socket j) r,
     wire := wire \<tau> @ map (Pair (job_socket j)) out\<rparr>"
  have step: "gw_step S (Finished i draw net) \<tau> ?t"
    using gw_step.finished [of i \<tau> j k _ S draw net] assms(2) k(1) d by (simp add: view(3) j [symmetric])
  have "alike l ?w"
    using k(2) port_written_same [OF refl, of k S j draw net] same_target_trans by (auto simp: alike_def)
  then have "rel_option alike (listeners (gw (sys \<chi>)) s) (((listeners (gw \<tau>))(job_socket j \<mapsto> ?w)) s)" for s
    using same_listeners [OF view(1)] l(1) by simp
  then have "same_view (sys ?x) ?t" using view by (simp add: same_view_def same_gateway_def)
  moreover have "in_flight ?x + mset (map (Pair (job_socket j)) out) = in_flight \<chi>"
    using sum2_remove [OF assms(2) len, of under_way] assms(3) by (simp add: in_flight_def under_way_def j)
  moreover have "stages_ok S ?x"
    using len set_zip_remove [OF len, of i] by (intro stages_ok_mono [OF ok]) (auto simp: keeps_targets_def)
  ultimately have "simulates S ?x ?t" using assms(1) by (simp add: simulates_def ac_simps)
  with step show ?thesis by blast
qed

section \<open>Runs\<close>

definition outside_events :: "('s, 'v, 'f) happening list \<Rightarrow> ('s, 'v, 'f) event list" where
  "outside_events tr = concat (map (\<lambda>h. case h of Outside e \<Rightarrow> [e] | _ \<Rightarrow> []) tr)"

lemma outside_events_snoc [simp]:
  "outside_events [] = []"
  "outside_events (tr @ [h]) = outside_events tr @ (case h of Outside e \<Rightarrow> [e] | _ \<Rightarrow> [])"
  by (simp_all add: outside_events_def)

lemma step_simulated:
  assumes "ex_step S h \<chi> \<chi>'" "simulates S \<chi> \<tau>" "gw_run S w tr \<tau>"
  shows "\<exists>tr' \<tau>'. gw_run S w (tr @ tr') \<tau>' \<and> simulates S \<chi>' \<tau>'
    \<and> filter (\<lambda>e. \<not> is_finished e) tr' = (case h of Outside e \<Rightarrow> [e] | _ \<Rightarrow> [])"
  using assms(1)
proof (cases rule: ex_step.cases)
  case (from_outside e \<sigma>')
  obtain \<tau>' where "gw_step S e \<tau> \<tau>'" "simulates S \<chi>' \<tau>'"
    using outside_step_simulated [OF assms(2) from_outside(3,4)] from_outside(2) by blast
  then show ?thesis
    using gw_run.run_step [OF assms(3)] from_outside(1,4) by (intro exI [of _ "[e]"] exI [of _ \<tau>']) simp
next
  case (begins i j l draw port' st)
  have "simulates S \<chi>' \<tau>"
    using begin_simulated [OF assms(2) begins(3,5)] begins(2,4,6,7) by blast
  then show ?thesis using assms(3) begins(1) by (intro exI [of _ "[]"] exI [of _ \<tau>]) simp
next
  case (goes_on i j st l a st')
  have "simulates S \<chi>' \<tau>"
    using resume_simulated [OF assms(2) goes_on(3,5)] goes_on(2,4,6,7) by blast
  then show ?thesis using assms(3) goes_on(1) by (intro exI [of _ "[]"] exI [of _ \<tau>]) simp
next
  case (completes i j r out)
  obtain draw net \<tau>' where "gw_step S (Finished i draw net) \<tau> \<tau>'" "simulates S \<chi>' \<tau>'"
    using complete_simulated [OF assms(2) completes(3,5,4)] completes(2) by blast
  then show ?thesis
    using gw_run.run_step [OF assms(3)] completes(1)
    by (intro exI [of _ "[Finished i draw net]"] exI [of _ \<tau>']) simp
qed

lemma run_simulated:
  "ex_run S w tr \<chi> \<Longrightarrow> \<exists>atr \<tau>. gw_run S w atr \<tau> \<and> simulates S \<chi> \<tau>
     \<and> filter (\<lambda>e. \<not> is_finished e) atr = outside_events tr"
proof (induction rule: ex_run.induct)
  case ex_start
  show ?case
    by (rule exI [of _ "[]"], rule exI [of _ "idle_system w"], intro conjI, rule gw_run.run_start)
      (simp_all add: simulates_def same_view_def same_gateway_def option.rel_refl stages_ok_def
        in_flight_def idle_system_def)
next
  case (ex_more tr \<chi> h \<chi>')
  then obtain atr \<tau> where a: "gw_run S w atr \<tau>" "simulates S \<chi> \<tau>"
    "filter (\<lambda>e. \<not> is_finished e) atr = outside_events tr" by blast
  obtain atr' \<tau>' where "gw_run S w (atr @ atr') \<tau>'" "simulates S \<chi>' \<tau>'"
    "filter (\<lambda>e. \<not> is_finished e) atr' = (case h of Outside e \<Rightarrow> [e] | _ \<Rightarrow> [])"
    using step_simulated [OF ex_more(2) a(2,1)] by blast
  then show ?case using a(3) by (intro exI [of _ "atr @ atr'"] exI [of _ \<tau>']) simp
qed

text \<open>What a run of the theory \<open>Gateway\<close> guarantees of its outside events carries over.\<close>

lemma messages_outside: "messages s tr = messages s (filter (\<lambda>e. \<not> is_finished e) tr)"
  by (induction tr) (auto simp: messages_def)

lemma opened_outside: "opened_under s k tr \<Longrightarrow> opened_under s k (filter (\<lambda>e. \<not> is_finished e) tr)"
  by (fastforce simp: opened_under_def)

lemma in_flight_possible:
  assumes "stages_ok S \<chi>" "(s, rq) \<in># in_flight \<chi>"
  shows "\<exists>l j draw net x. listeners (gw (sys \<chi>)) s = Some l \<and> job_socket j = s \<and> run_job S l j draw net = Inr x \<and> rq \<in> set (sent x)"
proof -
  obtain j st where j: "(j, Some st) \<in> set (zip (pending (sys \<chi>)) (stages \<chi>))" "job_socket j = s"
    "rq \<in> set (written st)"
    using assms(2) by (fastforce simp: in_flight_def sum2_def under_way_def set_mset_sum_list split: option.splits)
  then obtain l where "listeners (gw (sys \<chi>)) s = Some l" "possible S l j st"
    using assms(1) by (fastforce simp: stages_ok_def)
  then show ?thesis using possible_written j(2,3) by blast
qed

lemma run_serves:
  assumes "site_ok S" "field_laws (site_beast S) get" "ex_run S w tr \<chi>"
  shows "messages s (outside_events tr) = awaiting s (sys \<chi>) + length (texts_to s (socket_calls (sys \<chi>)))"
    and "(s, rq) \<in> set (wire (sys \<chi>)) \<Longrightarrow> get (rq_fields rq) ''Host'' = Some (http_request_address (site_config S))
      \<and> (\<exists>vin. opened_under s vin (outside_events tr) \<and> get (rq_fields rq) ''X-Client-ID'' = Some vin)"
proof -
  obtain atr \<tau> where a: "gw_run S w atr \<tau>" "simulates S \<chi> \<tau>"
    "filter (\<lambda>e. \<not> is_finished e) atr = outside_events tr"
    using run_simulated [OF assms(3)] by blast
  have view: "same_gateway (gw (sys \<chi>)) (gw \<tau>)" "pending \<tau> = pending (sys \<chi>)"
    "socket_calls \<tau> = socket_calls (sys \<chi>)" "stages_ok S \<chi>"
    using a(2) by (simp_all add: simulates_def same_view_def)
  show "messages s (outside_events tr) = awaiting s (sys \<chi>) + length (texts_to s (socket_calls (sys \<chi>)))"
    using run_count_inv [OF assms(1) a(1)] messages_outside [of s atr] view a(3)
    by (simp add: count_inv_def awaiting_def)
  assume rq: "(s, rq) \<in> set (wire (sys \<chi>))"
  have opened: "opened_under s (clientID l) (outside_events tr)" if "listeners (gw \<tau>) s = Some l" for l
    using opened_outside [OF run_opened_under [OF a(1) that]] a(3) by simp
  have "(s, rq) \<in> set (wire \<tau>) \<or> (s, rq) \<in># in_flight \<chi>"
    using rq a(2) by (metis simulates_def set_mset_mset union_iff)
  then show "get (rq_fields rq) ''Host'' = Some (http_request_address (site_config S))
      \<and> (\<exists>vin. opened_under s vin (outside_events tr) \<and> get (rq_fields rq) ''X-Client-ID'' = Some vin)"
  proof
    assume "(s, rq) \<in> set (wire \<tau>)"
    then show ?thesis using run_wire_inv [OF assms(2) a(1)] opened by (fastforce simp: wire_inv_def)
  next
    assume "(s, rq) \<in># in_flight \<chi>"
    then obtain l j draw net x where l: "listeners (gw (sys \<chi>)) s = Some l"
      "run_job S l j draw net = Inr x" "rq \<in> set (sent x)" "job_socket j = s"
      using in_flight_possible [OF view(4)] by blast
    obtain k where k: "listeners (gw \<tau>) s = Some k" "alike l k"
      using same_listener [OF view(1) l(1)] by blast
    have "http_server_address k = http_request_address (site_config S)"
      using job_invD(1) [OF run_job_inv [OF a(1)] k(1)] by (simp add: listener_ok_def)
    then show ?thesis
      using asyncHttpClient_names [OF assms(2) l(2) [unfolded run_job_def] l(3)] opened [OF k(1)] k(2)
      by (auto simp: alike_def same_target_def)
  qed
qed

section \<open>Work\<close>

fun steps_left :: "('v, 'f) stage option \<Rightarrow> nat" where
  "steps_left None = 6"
| "steps_left (Some (Resolving port rq)) = 5"
| "steps_left (Some (Connecting port rq)) = 4"
| "steps_left (Some (Sending rq)) = 3"
| "steps_left (Some (Reading rq)) = 2"
| "steps_left (Some (Ended r out)) = 1"

definition work :: "('s, 'w, 'v, 'f) suspended \<Rightarrow> nat" where
  "work \<chi> = sum2 (\<lambda>j. steps_left) (pending (sys \<chi>)) (stages \<chi>)"

lemma resume_steps: "resume B host st a = Some st' \<Longrightarrow> steps_left (Some st') < steps_left (Some st)"
  by (cases "(B, host, st, a)" rule: resume.cases) (auto simp: caught_def split: sum.splits)

lemma begin_steps:
  "begin_exchange B order draw msg port ident t = Inr (port', st) \<Longrightarrow> steps_left (Some st) < steps_left None"
  by (auto simp: begin_exchange_Inr caught_def split: sum.splits)

lemma steps_left_le: "steps_left st \<le> 6"
  by (cases st rule: steps_left.cases) simp_all

lemma resume_Failed: "\<nexists>r out. st = Ended r out \<Longrightarrow> \<exists>st'. resume B host st Failed = Some st'"
  by (cases st) simp_all

lemma sum2_le: "length xs = length ys \<Longrightarrow> (\<And>x y. f x y \<le> (n :: nat)) \<Longrightarrow> sum2 f xs ys \<le> n * length xs"
  by (induction xs ys rule: list_induct2) (simp_all add: add_mono)

lemma step_works:
  assumes "ex_step S h \<chi> \<chi>'" "\<And>e. h \<noteq> Outside e" "length (stages \<chi>) = length (pending (sys \<chi>))"
  shows "work \<chi>' < work \<chi>"
  using assms(1)
proof (cases rule: ex_step.cases)
  case (begins i j l draw port' st)
  then show ?thesis
    using begin_steps [OF begins(7)] sum2_update [OF begins(3) assms(3) [symmetric], of "\<lambda>j. steps_left" "Some st"]
    by (simp add: work_def)
next
  case (goes_on i j st l a st')
  then show ?thesis
    using resume_steps [OF goes_on(7)] sum2_update [OF goes_on(3) assms(3) [symmetric], of "\<lambda>j. steps_left" "Some st'"]
    by (simp add: work_def)
next
  case (completes i j r out)
  then show ?thesis
    using sum2_remove [OF completes(3) assms(3) [symmetric], of "\<lambda>j. steps_left"] by (simp add: work_def)
qed (use assms(2) in auto)

section \<open>Sample runs\<close>

lemma outside_run:
  "gw_run S w tr \<sigma> \<Longrightarrow> list_all (\<lambda>e. \<not> is_finished e) tr \<Longrightarrow>
     ex_run S w (map Outside tr) \<lparr>sys = \<sigma>, stages = replicate (length (pending \<sigma>)) None\<rparr>"
proof (induction rule: gw_run.induct)
  case run_start
  then show ?case using ex_run.ex_start by (simp add: idle_system_def)
next
  case (run_step tr \<sigma> e \<sigma>')
  then have e: "\<not> is_finished e" and r: "ex_run S w (map Outside tr)
      \<lparr>sys = \<sigma>, stages = replicate (length (pending \<sigma>)) None\<rparr>" by simp_all
  obtain new where "pending \<sigma>' = pending \<sigma> @ new" using pending_lengths [OF run_step(2) e] by blast
  then show ?case
    using ex_run.ex_more [OF r ex_step.from_outside, of e \<sigma>'] run_step(2) e by (simp add: replicate_add)
qed

lemma exchange_goes_on:
  \<comment> \<open>the operation an exchange waits for succeeds\<close>
  assumes "ex_run S w tr \<chi>" "i < length (pending (sys \<chi>))" "length (stages \<chi>) = length (pending (sys \<chi>))"
    and "listeners (gw (sys \<chi>)) (job_socket (pending (sys \<chi>) ! i)) = Some l" "stages \<chi> ! i = Some st"
    and "resume (site_beast S) (http_server_address l) st Succeeded = Some st'"
  obtains \<chi>' where "ex_run S w (tr @ [Resume i Succeeded]) \<chi>'" "pending (sys \<chi>') = pending (sys \<chi>)"
    "listeners (gw (sys \<chi>')) = listeners (gw (sys \<chi>))" "stages \<chi>' = (stages \<chi>)[i := Some st']"
    "wire (sys \<chi>') = wire (sys \<chi>) @ map (Pair (job_socket (pending (sys \<chi>) ! i))) (new_in st st')"
  using that [OF ex_run.ex_more [OF assms(1) ex_step.goes_on [OF assms(2) refl assms(5,4,6)]]] by simp

lemma exchange_to_wire:
  assumes "ex_run S w tr \<chi>" "i < length (pending (sys \<chi>))" "stages \<chi> ! i = None"
    and "length (stages \<chi>) = length (pending (sys \<chi>))"
    and "j = pending (sys \<chi>) ! i" "listeners (gw (sys \<chi>)) (job_socket j) = Some l"
    and "begin_exchange (site_beast S) (site_order S) draw (job_message j) (http_server_port l) (clientID l)
      (job_time j) = Inr (port', Resolving port' rq)"
    and "set_in (site_beast S) ''Host'' (http_server_address l) rq = Inr rq'"
  shows "\<exists>tr' \<chi>'. ex_run S w (tr @ tr') \<chi>' \<and> outside_events tr' = [] \<and> pending (sys \<chi>') = pending (sys \<chi>)
    \<and> stages \<chi>' = (stages \<chi>)[i := Some (Reading rq')]
    \<and> wire (sys \<chi>') = wire (sys \<chi>) @ [(job_socket j, rq')]"
proof -
  note j = assms(5) [symmetric] and i = assms(2)
  have old: "i < length (stages \<chi>)" using assms(2,4) by simp
  obtain \<chi>1 where 1: "ex_run S w (tr @ [Begin i draw]) \<chi>1" "pending (sys \<chi>1) = pending (sys \<chi>)"
    "stages \<chi>1 = (stages \<chi>)[i := Some (Resolving port' rq)]"
    "listeners (gw (sys \<chi>1)) (job_socket j) = Some (l\<lparr>http_server_port := port'\<rparr>)" "wire (sys \<chi>1) = wire (sys \<chi>)"
    using ex_run.ex_more [OF assms(1) ex_step.begins [OF assms(2,5,3,6,7)]] assms(6)
    by (fastforce simp: overwrite_port_def)
  obtain \<chi>2 where 2: "ex_run S w ((tr @ [Begin i draw]) @ [Resume i Succeeded]) \<chi>2"
    "pending (sys \<chi>2) = pending (sys \<chi>)" "stages \<chi>2 = (stages \<chi>)[i := Some (Connecting port' rq)]"
    "listeners (gw (sys \<chi>2)) = listeners (gw (sys \<chi>1))" "wire (sys \<chi>2) = wire (sys \<chi>)"
    by (rule exchange_goes_on [OF 1(1), of i]) (use 1(2-5) i old assms(4) in \<open>auto simp: j new_in_def\<close>)
  obtain \<chi>3 where 3: "ex_run S w (((tr @ [Begin i draw]) @ [Resume i Succeeded]) @ [Resume i Succeeded]) \<chi>3"
    "pending (sys \<chi>3) = pending (sys \<chi>)" "stages \<chi>3 = (stages \<chi>)[i := Some (Sending rq')]"
    "listeners (gw (sys \<chi>3)) = listeners (gw (sys \<chi>1))" "wire (sys \<chi>3) = wire (sys \<chi>)"
    by (rule exchange_goes_on [OF 2(1), of i]) (use 1(4) 2(2-5) i old assms(4,8) in \<open>auto simp: j new_in_def\<close>)
  obtain \<chi>4 where "ex_run S w ((((tr @ [Begin i draw]) @ [Resume i Succeeded]) @ [Resume i Succeeded])
      @ [Resume i Succeeded]) \<chi>4"
    "pending (sys \<chi>4) = pending (sys \<chi>)" "stages \<chi>4 = (stages \<chi>)[i := Some (Reading rq')]"
    "wire (sys \<chi>4) = wire (sys \<chi>) @ [(job_socket j, rq')]"
    by (rule exchange_goes_on [OF 3(1), of i]) (use 1(4) 3(2-5) i old assms(4) in \<open>auto simp: j new_in_def\<close>)
  then show ?thesis
    by (intro exI [of _ "[Begin i draw, Resume i Succeeded, Resume i Succeeded, Resume i Succeeded]"] exI [of _ \<chi>4])
      (simp add: outside_events_def)
qed

section \<open>Progress\<close>

lemma exchange_listener:
  \<comment> \<open>the listener of a pending exchange is there\<close>
  assumes "site_ok S" "ex_run S w tr \<chi>" "i < length (pending (sys \<chi>))"
  shows "\<exists>l. listeners (gw (sys \<chi>)) (job_socket (pending (sys \<chi>) ! i)) = Some l \<and> http_server_port l \<noteq> []"
proof -
  obtain atr \<tau> where a: "gw_run S w atr \<tau>" "simulates S \<chi> \<tau>" using run_simulated [OF assms(2)] by blast
  have view: "same_gateway (gw (sys \<chi>)) (gw \<tau>)" "pending \<tau> = pending (sys \<chi>)"
    using a(2) by (simp_all add: simulates_def same_view_def)
  let ?j = "pending (sys \<chi>) ! i"
  have inv: "job_inv S \<tau>" by (rule run_job_inv [OF a(1)])
  then obtain k where k: "listeners (gw \<tau>) (job_socket ?j) = Some k" "listener_ok S k"
    using job_invD [OF inv] assms(3) view(2) by (metis job_of_def option.exhaust)
  obtain l where l: "listeners (gw (sys \<chi>)) (job_socket ?j) = Some l" "alike l k"
    using same_listeners [OF view(1), of "job_socket ?j"] k(1) by (auto simp: option_rel_Some2)
  have "http_server_port l \<noteq> []"
    using l(2) k(2) assms(1) by (auto simp: alike_def same_target_def listener_ok_def site_ok_def)
  with l(1) show ?thesis by blast
qed

lemma exchange_progress:
  \<comment> \<open>an exchange can begin, fail at the operation it waits for, or hand over its result\<close>
  assumes "site_ok S" "ex_run S w tr \<chi>" "i < length (pending (sys \<chi>))"
  shows "\<exists>h \<chi>'. h \<in> {Begin i draw, Resume i Failed, Complete i} \<and> ex_step S h \<chi> \<chi>'"
proof -
  note i = assms(3)
  let ?j = "pending (sys \<chi>) ! i"
  obtain l where l: "listeners (gw (sys \<chi>)) (job_socket ?j) = Some l" and port: "http_server_port l \<noteq> []"
    using exchange_listener [OF assms] by blast
  show ?thesis
  proof (cases "stages \<chi> ! i")
    case None
    obtain port' st where "begin_exchange (site_beast S) (site_order S) draw (job_message ?j)
        (http_server_port l) (clientID l) (job_time ?j) = Inr (port', st)"
      using port by (simp add: begin_exchange_Inr pick_port_def)
    from ex_step.begins [OF i refl None l this] show ?thesis by blast
  next
    case (Some st)
    show ?thesis
    proof (cases "\<exists>r out. st = Ended r out")
      case True
      with Some ex_step.completes [OF i refl, of _ _ S] show ?thesis by blast
    next
      case False
      then obtain st' where "resume (site_beast S) (http_server_address l) st Failed = Some st'"
        using resume_Failed by blast
      from ex_step.goes_on [OF i refl Some l this] show ?thesis by blast
    qed
  qed
qed

lemma ex_run_stages: "ex_run S w tr \<chi> \<Longrightarrow> length (stages \<chi>) = length (pending (sys \<chi>))"
  using run_simulated by (fastforce simp: simulates_def stages_ok_def)

section \<open>Properties\<close>

text \<open>
  C9. Taking an exchange as one step loses nothing: for every run in which the coroutines
  are interleaved at their suspensions there is a run of \<open>Gateway\<close> with the same outside events
  in the same order, which ends with the same registry, sockets, pending exchanges and replies,
  and with the same requests on the wire but for those whose exchanges have not ended.
\<close>

theorem interleaving_refines_gateway:
  assumes "ex_run S w tr \<chi>"
  shows "\<exists>atr \<tau>. gw_run S w atr \<tau> \<and> filter (\<lambda>e. \<not> is_finished e) atr = outside_events tr
    \<and> SOCKETS (gw \<tau>) = SOCKETS (gw (sys \<chi>)) \<and> registry (gw \<tau>) = registry (gw (sys \<chi>))
    \<and> live \<tau> = live (sys \<chi>) \<and> pending \<tau> = pending (sys \<chi>) \<and> socket_calls \<tau> = socket_calls (sys \<chi>)
    \<and> mset (wire (sys \<chi>)) = mset (wire \<tau>) + in_flight \<chi>"
proof -
  obtain atr \<tau> where a: "gw_run S w atr \<tau>" "simulates S \<chi> \<tau>"
    "filter (\<lambda>e. \<not> is_finished e) atr = outside_events tr"
    using run_simulated [OF assms] by blast
  show ?thesis
    by (rule exI [of _ atr], rule exI [of _ \<tau>])
      (use a in \<open>simp add: simulates_def same_view_def same_gateway_def\<close>)
qed

lemma sample_in_flight:
  "\<exists>tr \<chi> rq. ex_run sample_site Map.empty tr \<chi> \<and> outside_events tr = sample_trace
     \<and> wire (sys \<chi>) = [(1, rq)] \<and> in_flight \<chi> = {#(1, rq)#} \<and> length (pending (sys \<chi>)) = 2
     \<and> stages \<chi> = [Some (Reading rq), None] \<and> job_socket (pending (sys \<chi>) ! 0) = 1"
proof -
  let ?l = "WebSocketListener ''V1'' ''app'' ''8082''"
  obtain \<sigma> where \<sigma>: "gw_run sample_site Map.empty sample_trace \<sigma>" "wire \<sigma> = []"
    "pending \<sigma> = [sample_job ''7'', sample_job ''9'']" "listeners (gw \<sigma>) 1 = Some ?l"
    using two_messages by blast
  let ?x = "\<lparr>sys = \<sigma>, stages = [None, None]\<rparr>"
  have "ex_run sample_site Map.empty (map Outside sample_trace) ?x"
    using outside_run [OF \<sigma>(1)] \<sigma>(3) by (simp add: sample_trace_def numeral_2_eq_2)
  note run = this
  obtain rq f where rq: "build_request list_beast (\<lambda>hs. hs) sample_message ''V1'' ''7'' = Inr rq"
    "set_field list_beast (rq_fields rq) ''Host'' ''app'' = Inr f"
    using asyncHttpClient_sent [OF sample_outcome, of "hd (sent sample_outcome)"]
    by (auto simp: sample_outcome_def)
  let ?rq = "rq\<lparr>rq_fields := f\<rparr>"
  have host: "set_in (site_beast sample_site) ''Host'' (http_server_address ?l) rq = Inr ?rq"
    using rq(2) by (simp add: set_in_def sample_site_def WebSocketListener_def)
  have "pick_port 5 ''8082'' = Inr ''8083''" by code_simp
  then have first: "begin_exchange (site_beast sample_site) (site_order sample_site) 5 (job_message (sample_job ''7''))
      (http_server_port ?l) (clientID ?l) (job_time (sample_job ''7'')) = Inr (''8083'', Resolving ''8083'' rq)"
    using rq(1) by (simp add: begin_exchange_Inr sample_site_def sample_job_def WebSocketListener_def)
  have job: "job_socket (sample_job ''7'') = 1" by (simp add: sample_job_def)
  obtain tr' \<chi> where x: "ex_run sample_site Map.empty (map Outside sample_trace @ tr') \<chi>"
    "outside_events tr' = []" "pending (sys \<chi>) = pending \<sigma>" "wire (sys \<chi>) = [(1, ?rq)]"
    "stages \<chi> = [Some (Reading ?rq), None]"
    using exchange_to_wire [OF run _ _ _ _ _ first host, of 0] \<sigma>(2-4) job by fastforce
  have "in_flight \<chi> = {#(1, ?rq)#}" by (simp add: in_flight_def under_way_def x(3,5) \<sigma>(3) job)
  moreover have "outside_events (map Outside sample_trace @ tr') = sample_trace"
    using x(2) by (simp add: outside_events_def sample_trace_def)
  moreover have "length (pending (sys \<chi>)) = 2" by (simp add: x(3) \<sigma>(3))
  moreover have "job_socket (pending (sys \<chi>) ! 0) = 1" by (simp add: x(3) \<sigma>(3) job)
  ultimately show ?thesis using x(1,4,5) by blast
qed

lemma sample_answered:
  "\<exists>tr (\<chi> :: (nat, string \<Rightarrow> string option, string, headers) suspended) rq.
     ex_run sample_site Map.empty tr \<chi> \<and> outside_events tr = sample_trace \<and> wire (sys \<chi>) = [(1, rq)]
     \<and> buildResponseStringBuffer sample_answer \<in> set (texts_to 1 (socket_calls (sys \<chi>)))"
proof -
  obtain tr \<chi> rq where x: "ex_run sample_site Map.empty tr \<chi>" "outside_events tr = sample_trace"
    "wire (sys \<chi>) = [(1 :: nat, rq)]" "length (pending (sys \<chi>)) = 2" "stages \<chi> = [Some (Reading rq), None]"
    "job_socket (pending (sys \<chi>) ! 0) = 1"
    using sample_in_flight by blast
  let ?t = "buildResponseStringBuffer sample_answer"
  have i: "0 < length (pending (sys \<chi>))" using x(4) by simp
  obtain l where l: "listeners (gw (sys \<chi>)) (job_socket (pending (sys \<chi>) ! 0)) = Some l"
    using exchange_listener [OF sample_site_ok(1) x(1) i] by blast
  have "resume (site_beast sample_site) (http_server_address l) (Reading rq) (Received sample_answer)
      = Some (Ended (Inr ?t) [rq])" by simp
  from ex_step.goes_on [OF i refl _ l this] obtain \<chi>1 where
    y: "ex_step sample_site (Resume 0 (Received sample_answer)) \<chi> \<chi>1" "pending (sys \<chi>1) = pending (sys \<chi>)"
      "wire (sys \<chi>1) = wire (sys \<chi>)" "stages \<chi>1 = [Some (Ended (Inr ?t) [rq]), None]"
    using x(5) by (fastforce simp: new_in_def)
  have i1: "0 < length (pending (sys \<chi>1))" using i y(2) by simp
  from ex_step.completes [OF i1 refl, of "Inr ?t" "[rq]" sample_site] obtain \<chi>2 where
    z: "ex_step sample_site (Complete 0) \<chi>1 \<chi>2" "wire (sys \<chi>2) = wire (sys \<chi>)"
      "socket_calls (sys \<chi>2) = socket_calls (sys \<chi>1) @ on_result (job_socket (pending (sys \<chi>1) ! 0)) (Inr ?t)"
    using y(3,4) by fastforce
  have "?t \<in> set (texts_to 1 (socket_calls (sys \<chi>2)))"
    using x(6) buildResponse_nonempty [of sample_answer]
    by (simp add: z(3) y(2) on_result_def SendMessageCoroutine_def)
  moreover have "ex_run sample_site Map.empty ((tr @ [Resume 0 (Received sample_answer)]) @ [Complete 0]) \<chi>2"
    using ex_run.ex_more [OF ex_run.ex_more [OF x(1) y(1)] z(1)] .
  moreover have "outside_events ((tr @ [Resume 0 (Received sample_answer)]) @ [Complete 0]) = sample_trace"
    using x(2) by (simp add: outside_events_def)
  ultimately show ?thesis using x(3) z(2) by metis
qed

lemma interleaving_refines_gateway_witness:
  "\<exists>tr \<chi> atr \<tau>. ex_run sample_site Map.empty tr (\<chi> :: (nat, string \<Rightarrow> string option, string, headers) suspended)
     \<and> gw_run sample_site Map.empty atr \<tau> \<and> length (wire (sys \<chi>)) = 1 \<and> wire \<tau> = [] \<and> pending \<tau> = pending (sys \<chi>)"
proof -
  obtain tr \<chi> rq where x: "ex_run sample_site Map.empty tr \<chi>" "wire (sys \<chi>) = [(1 :: nat, rq)]"
    "in_flight \<chi> = {#(1, rq)#}"
    using sample_in_flight by blast
  obtain atr \<tau> where "gw_run sample_site Map.empty atr \<tau>" "pending \<tau> = pending (sys \<chi>)"
    "mset (wire (sys \<chi>)) = mset (wire \<tau>) + in_flight \<chi>"
    using interleaving_refines_gateway [OF x(1)] by blast
  with x show ?thesis by (intro exI [of _ tr] exI [of _ \<chi>] exI [of _ atr] exI [of _ \<tau>]) simp
qed

text \<open>
  Every exchange ends: in every run, each step of an exchange leaves less to do, at most
  six steps for each pending exchange, and none is ever stuck, since it can begin, fail at the
  operation it waits for, or hand over its result.
\<close>

theorem exchanges_end:
  assumes "site_ok S" "ex_run S w tr \<chi>"
  shows "(\<forall>h \<chi>'. ex_step S h \<chi> \<chi>' \<and> (\<forall>e. h \<noteq> Outside e) \<longrightarrow> work \<chi>' < work \<chi>)
    \<and> work \<chi> \<le> 6 * length (pending (sys \<chi>))
    \<and> (\<forall>i < length (pending (sys \<chi>)).
         \<exists>h \<chi>'. h \<in> {Begin i draw, Resume i Failed, Complete i} \<and> ex_step S h \<chi> \<chi>')"
proof -
  have "work \<chi> \<le> 6 * length (pending (sys \<chi>))"
    unfolding work_def by (rule sum2_le [OF ex_run_stages [OF assms(2), symmetric] steps_left_le])
  then show ?thesis using step_works [OF _ _ ex_run_stages [OF assms(2)]] exchange_progress [OF assms] by blast
qed

lemma exchanges_end_witness:
  "\<exists>tr \<chi> h \<chi>'. ex_run sample_site Map.empty tr (\<chi> :: (nat, string \<Rightarrow> string option, string, headers) suspended)
     \<and> length (pending (sys \<chi>)) = 2 \<and> ex_step sample_site h \<chi> \<chi>' \<and> h \<in> {Begin 1 0, Resume 1 Failed, Complete 1}
     \<and> work \<chi>' < work \<chi>"
proof -
  obtain tr and \<chi> :: "(nat, string \<Rightarrow> string option, string, headers) suspended" where
    x: "ex_run sample_site Map.empty tr \<chi>" "length (pending (sys \<chi>)) = 2"
    using sample_in_flight by blast
  have i: "1 < length (pending (sys \<chi>))" using x(2) by simp
  obtain h \<chi>' where h: "h \<in> {Begin 1 0, Resume 1 Failed, Complete 1}" "ex_step sample_site h \<chi> \<chi>'"
    using exchanges_end [OF sample_site_ok(1) x(1), of 0] i by blast
  have "h \<noteq> Outside e" for e using h(1) by auto
  then have "work \<chi>' < work \<chi>" using exchanges_end [OF sample_site_ok(1) x(1), of 0] h(2) by blast
  with x h show ?thesis by blast
qed

end
