(* ===== verification/Whole_Gateway.thy ===== *)
theory Whole_Gateway
  imports Connection_Steps Exchange_Steps
begin

text \<open>
  The gateway with all its concurrency at once: the callbacks of \<open>Connection_Steps\<close>, each taken
  apart at the steps of its registry operation, and the coroutines of \<open>Exchange_Steps\<close>, each taken
  apart at its suspensions, share the listeners of the sockets. A run of this system is
  simulated by one of \<open>Exchange_Steps\<close>, in which a callback is one step at its start, as far as
  messages, requests and replies go, and its registry and callbacks are a run of
  \<open>Connection_Steps\<close>: what is shown of either holds of the whole.
\<close>

section \<open>The system\<close>

record ('s, 'w, 'v, 'f) whole =
  conc :: "('s, 'w) concurrent"
  hooks :: "'s \<Rightarrow> listener option"  \<comment> \<open>the listener that \<open>setListener\<close> gave to the socket\<close>
  queue :: "'s job list"
  coroutines :: "('v, 'f) stage option list"
  calls_made :: "('s \<times> socket_call) list"
  to_backend :: "('s \<times> ('v, 'f) http_request) list"

definition exchanges_of :: "('s, 'w, 'v, 'f) whole \<Rightarrow> ('s, 'w, 'v, 'f) suspended" where
  \<comment> \<open>what the coroutines and the callbacks for frames see\<close>
  "exchanges_of \<omega> =
     \<lparr>sys = \<lparr>gw = \<lparr>SOCKETS = socket_count (conc \<omega>), registry = the_registry (reg (conc \<omega>)), listeners = hooks \<omega>\<rparr>,
             live = {s. counted (phase_of (conc \<omega>) s)}, pending = queue \<omega>,
             socket_calls = calls_made \<omega>, wire = to_backend \<omega>\<rparr>,
      stages = coroutines \<omega>\<rparr>"

definition with_exchanges ::
    "('s, 'w, 'v, 'f) suspended \<Rightarrow> ('s, 'w, 'v, 'f) whole \<Rightarrow> ('s, 'w, 'v, 'f) whole" where
  "with_exchanges \<chi> \<omega> = \<omega>\<lparr>hooks := listeners (gw (sys \<chi>)), queue := pending (sys \<chi>), coroutines := stages \<chi>,
     calls_made := socket_calls (sys \<chi>), to_backend := wire (sys \<chi>)\<rparr>"

datatype ('s, 'v, 'f) activity = Callback 's | Happens "('s, 'v, 'f) happening"

fun may_happen :: "('s \<Rightarrow> phase) \<Rightarrow> ('s, 'v, 'f) happening \<Rightarrow> bool" where
  \<comment> \<open>frames are read between the other callbacks of the socket\<close>
  "may_happen ph (Outside (Frame s data now)) = (\<exists>k. ph s = Serving k)"
| "may_happen ph (Outside (Ping s msg)) = (\<exists>k. ph s = Serving k)"
| "may_happen ph (Outside (Pong s msg)) = (\<exists>k. ph s = Serving k)"
| "may_happen ph (Outside e) = False"
| "may_happen ph _ = True"

definition hooks_after ::
    "config \<Rightarrow> 's \<Rightarrow> ('s, 'w) concurrent \<Rightarrow> ('s, 'w) concurrent \<Rightarrow> ('s \<Rightarrow> listener option) \<Rightarrow> ('s \<Rightarrow> listener option)" where
  \<comment> \<open>\<open>onAfterCreate_NonBlocking\<close> ends with \<open>setListener\<close>\<close>
  "hooks_after cfg s \<kappa> \<kappa>' hk =
     (case phase_of \<kappa> s of
        Opening k \<Rightarrow> if phase_of \<kappa>' s = Serving k
          then hk(s \<mapsto> WebSocketListener k (http_request_address cfg) (http_request_port cfg)) else hk
      | _ \<Rightarrow> hk)"

definition calls_in :: "'s \<Rightarrow> ('s, 'w) concurrent \<Rightarrow> ('s, 'w) concurrent \<Rightarrow> ('s \<times> socket_call) list" where
  \<comment> \<open>and begins with a close for an empty id\<close>
  "calls_in s \<kappa> \<kappa>' = (if phase_of \<kappa> s = Absent \<and> phase_of \<kappa>' s = Opening []
     then [(s, SendClose 2 ''ClientId paramter is empty'')] else [])"

inductive whole_step ::
    "('w, 'v, 'f) site \<Rightarrow> ('s, 'v, 'f) activity \<Rightarrow> ('s, 'w, 'v, 'f) whole \<Rightarrow> ('s, 'w, 'v, 'f) whole \<Rightarrow> bool"
  for S :: "('w, 'v, 'f) site" where
  callback: "conn_step (site_exec S) (site_manager S) (site_config S) s (conc \<omega>) \<kappa> \<Longrightarrow>
    whole_step S (Callback s) \<omega> (\<omega>\<lparr>conc := \<kappa>, hooks := hooks_after (site_config S) s (conc \<omega>) \<kappa> (hooks \<omega>),
      calls_made := calls_made \<omega> @ calls_in s (conc \<omega>) \<kappa>\<rparr>)"
| happens: "ex_step S h (exchanges_of \<omega>) \<chi> \<Longrightarrow> may_happen (phase_of (conc \<omega>)) h \<Longrightarrow>
    whole_step S (Happens h) \<omega> (with_exchanges \<chi> \<omega>)"

definition idle_whole :: "'w \<Rightarrow> ('s, 'w, 'v, 'f) whole" where
  "idle_whole w = \<lparr>conc = no_connections w, hooks = Map.empty, queue = [], coroutines = [], calls_made = [],
     to_backend = []\<rparr>"

inductive whole_run ::
    "('w, 'v, 'f) site \<Rightarrow> 'w \<Rightarrow> ('s, 'v, 'f) activity list \<Rightarrow> ('s, 'w, 'v, 'f) whole \<Rightarrow> bool"
  for S :: "('w, 'v, 'f) site" and w :: 'w where
  whole_start: "whole_run S w [] (idle_whole w)"
| whole_more: "whole_run S w tr \<omega> \<Longrightarrow> whole_step S a \<omega> \<omega>' \<Longrightarrow> whole_run S w (tr @ [a]) \<omega>'"

lemma exchanges_of_simps [simp]:
  "pending (sys (exchanges_of \<omega>)) = queue \<omega>" "stages (exchanges_of \<omega>) = coroutines \<omega>"
  "socket_calls (sys (exchanges_of \<omega>)) = calls_made \<omega>" "wire (sys (exchanges_of \<omega>)) = to_backend \<omega>"
  "live (sys (exchanges_of \<omega>)) = {s. counted (phase_of (conc \<omega>) s)}"
  "listeners (gw (sys (exchanges_of \<omega>))) = hooks \<omega>"
  by (simp_all add: exchanges_of_def)

lemma with_exchanges_simps [simp]:
  "conc (with_exchanges \<chi> \<omega>) = conc \<omega>" "hooks (with_exchanges \<chi> \<omega>) = listeners (gw (sys \<chi>))"
  "queue (with_exchanges \<chi> \<omega>) = pending (sys \<chi>)" "coroutines (with_exchanges \<chi> \<omega>) = stages \<chi>"
  "calls_made (with_exchanges \<chi> \<omega>) = socket_calls (sys \<chi>)" "to_backend (with_exchanges \<chi> \<omega>) = wire (sys \<chi>)"
  by (simp_all add: with_exchanges_def)

section \<open>The registry\<close>

text \<open>Nothing but the callbacks touches the registry.\<close>

lemma whole_conn_run:
  "whole_run S w tr \<omega> \<Longrightarrow> \<exists>past. conn_run (site_exec S) (site_manager S) (site_config S) w past (conc \<omega>)"
proof (induction rule: whole_run.induct)
  case whole_start
  then show ?case using conn_run.conn_start by (fastforce simp: idle_whole_def)
next
  case (whole_more tr \<omega> a \<omega>')
  then obtain past where past: "conn_run (site_exec S) (site_manager S) (site_config S) w past (conc \<omega>)" by blast
  show ?case
    using whole_more(2)
  proof (cases rule: whole_step.cases)
    case (callback s \<kappa>)
    then show ?thesis using conn_run.conn_more [OF past callback(3)] by auto
  next
    case (happens h \<chi>)
    then show ?thesis using past by auto
  qed
qed

section \<open>The exchanges\<close>

definition hk :: "('s, 'w, 'v, 'f) suspended \<Rightarrow> 's \<Rightarrow> listener option" where
  "hk \<chi> = listeners (gw (sys \<chi>))"

definition sees :: "'s set \<Rightarrow> ('s, 'w, 'v, 'f) suspended \<Rightarrow> ('s, 'w, 'v, 'f) suspended \<Rightarrow> bool" where
  \<comment> \<open>equal but for the registry, and for the listeners of the sockets that are being opened\<close>
  "sees X \<chi> \<alpha> \<longleftrightarrow> live (sys \<chi>) = live (sys \<alpha>) \<and> pending (sys \<chi>) = pending (sys \<alpha>) \<and> stages \<chi> = stages \<alpha>
     \<and> socket_calls (sys \<chi>) = socket_calls (sys \<alpha>) \<and> wire (sys \<chi>) = wire (sys \<alpha>)
     \<and> (\<forall>s. hk \<chi> s = (if s \<in> X then None else hk \<alpha> s))"

definition follows :: "'s set \<Rightarrow> ('s, 'w, 'v, 'f) suspended \<Rightarrow> ('s, 'w, 'v, 'f) suspended
    \<Rightarrow> ('s, 'w, 'v, 'f) suspended \<Rightarrow> ('s, 'w, 'v, 'f) suspended \<Rightarrow> bool" where
  "follows X \<chi> \<chi>' \<alpha> \<alpha>' \<longleftrightarrow> sees X \<chi>' \<alpha>' \<and> (\<forall>s \<in> X. hk \<alpha>' s = hk \<alpha> s)
     \<and> (\<forall>s. map_option clientID (hk \<alpha>' s) = map_option clientID (hk \<alpha> s))
     \<and> live (sys \<chi>') = live (sys \<chi>)
     \<and> (\<forall>(s, rq) \<in> set (wire (sys \<chi>')). (s, rq) \<in> set (wire (sys \<chi>)) \<or> hk \<chi> s \<noteq> None)"

lemma sees_hook: "sees X \<chi> \<alpha> \<Longrightarrow> listeners (gw (sys \<chi>)) s = Some l \<Longrightarrow> listeners (gw (sys \<alpha>)) s = Some l \<and> s \<notin> X"
  unfolding sees_def hk_def by (metis option.distinct(1))

lemma frames_seenI:
  "gw_step S e (sys \<alpha>) \<tau> \<Longrightarrow> \<not> is_finished e \<Longrightarrow>
     follows X \<chi> \<chi>' \<alpha> (\<alpha>\<lparr>sys := \<tau>, stages := stages \<alpha> @
       replicate (length (pending \<tau>) - length (pending (sys \<alpha>))) None\<rparr>) \<Longrightarrow>
     \<exists>\<alpha>'. ex_step S (Outside e) \<alpha> \<alpha>' \<and> follows X \<chi> \<chi>' \<alpha> \<alpha>'"
  using ex_step.from_outside by blast

lemma frames_seen:
  assumes "gw_step S e (sys \<chi>) \<sigma>" "sees X \<chi> \<alpha>" "may_happen ph (Outside e)"
    and "\<chi>' = \<chi>\<lparr>sys := \<sigma>, stages := stages \<chi> @ replicate (length (pending \<sigma>) - length (pending (sys \<chi>))) None\<rparr>"
  shows "\<exists>\<alpha>'. ex_step S (Outside e) \<alpha> \<alpha>' \<and> follows X \<chi> \<chi>' \<alpha> \<alpha>'"
proof -
  have eqs: "live (sys \<chi>) = live (sys \<alpha>)" "pending (sys \<chi>) = pending (sys \<alpha>)"
    using assms(2) by (simp_all add: sees_def)
  show ?thesis
    using assms(1)
  proof (cases rule: gw_step.cases)
    case (frame s l data now l' spawned)
    note l = sees_hook [OF assms(2) frame(4)]
    have "gw_step S e (sys \<alpha>) ((sys \<alpha>)\<lparr>gw := (gw (sys \<alpha>))\<lparr>listeners := (listeners (gw (sys \<alpha>)))(s \<mapsto> l')\<rparr>,
        pending := pending (sys \<alpha>) @ spawn s spawned\<rparr>)"
      unfolding frame(1) using frame(3,5,6) l eqs by (intro gw_step.frame) auto
    then show ?thesis
      by (rule frames_seenI) (use assms(2,4) frame(1,2,4) l readMessage_keeps [OF frame(6)] in \<open>auto simp: follows_def sees_def hk_def split: if_splits\<close>)
  next
    case (ping s msg)
    have "gw_step S e (sys \<alpha>) ((sys \<alpha>)\<lparr>socket_calls := socket_calls (sys \<alpha>) @ onPing s msg\<rparr>)"
      unfolding ping(1) using ping(3) eqs by (intro gw_step.ping) simp
    then show ?thesis
      by (rule frames_seenI) (use assms(2,4) ping(1,2) in \<open>auto simp: follows_def sees_def hk_def\<close>)
  next
    case (pong s msg)
    have "gw_step S e (sys \<alpha>) ((sys \<alpha>)\<lparr>socket_calls := socket_calls (sys \<alpha>) @ onPong s msg\<rparr>)"
      unfolding pong(1) using pong(3) eqs by (intro gw_step.pong) simp
    then show ?thesis
      by (rule frames_seenI) (use assms(2,4) pong(1,2) in \<open>auto simp: follows_def sees_def hk_def\<close>)
  qed (use assms(3) in auto)
qed

lemma happens_seen:
  assumes "ex_step S h \<chi> \<chi>'" "sees X \<chi> \<alpha>" "may_happen ph h"
  shows "\<exists>\<alpha>'. ex_step S h \<alpha> \<alpha>' \<and> follows X \<chi> \<chi>' \<alpha> \<alpha>'"
proof -
  have eqs: "pending (sys \<chi>) = pending (sys \<alpha>)" "stages \<chi> = stages \<alpha>" using assms(2) by (simp_all add: sees_def)
  show ?thesis
    using assms(1)
  proof (cases rule: ex_step.cases)
    case (from_outside e \<sigma>)
    show ?thesis
      unfolding from_outside(1) by (rule frames_seen [OF from_outside(3) assms(2) _ from_outside(2)])
        (use assms(3) from_outside(1) in simp)
  next
    case (begins i j l draw port' st)
    note l = sees_hook [OF assms(2) begins(6)]
    have "ex_step S h \<alpha> (\<alpha>\<lparr>sys := overwrite_port (job_socket j) port' (sys \<alpha>), stages := (stages \<alpha>)[i := Some st]\<rparr>)"
      unfolding begins(1) using begins(3-7) l by (intro ex_step.begins [where j = j and l = l]) (simp_all add: eqs)
    moreover have "follows X \<chi> \<chi>' \<alpha>
        (\<alpha>\<lparr>sys := overwrite_port (job_socket j) port' (sys \<alpha>), stages := (stages \<alpha>)[i := Some st]\<rparr>)"
      using assms(2) begins(2,6) l
      by (auto simp: follows_def sees_def hk_def overwrite_port_def option.map_comp comp_def)
    ultimately show ?thesis by blast
  next
    case (goes_on i j st l a st')
    note l = sees_hook [OF assms(2) goes_on(6)]
    have "ex_step S h \<alpha> (\<alpha>\<lparr>sys := (sys \<alpha>)\<lparr>wire := wire (sys \<alpha>) @ map (Pair (job_socket j)) (new_in st st')\<rparr>,
        stages := (stages \<alpha>)[i := Some st']\<rparr>)"
      unfolding goes_on(1) using goes_on(3-7) l by (intro ex_step.goes_on [where j = j and l = l]) (simp_all add: eqs)
    moreover have "follows X \<chi> \<chi>' \<alpha> (\<alpha>\<lparr>sys := (sys \<alpha>)\<lparr>wire := wire (sys \<alpha>) @ map (Pair (job_socket j)) (new_in st st')\<rparr>,
        stages := (stages \<alpha>)[i := Some st']\<rparr>)"
      using assms(2) goes_on(2,6) l by (auto simp: follows_def sees_def hk_def)
    ultimately show ?thesis by blast
  next
    case (completes i j r out)
    have "ex_step S h \<alpha> (\<alpha>\<lparr>sys := (sys \<alpha>)\<lparr>pending := take i (pending (sys \<alpha>)) @ drop (Suc i) (pending (sys \<alpha>)),
           socket_calls := socket_calls (sys \<alpha>) @ on_result (job_socket j) r\<rparr>,
         stages := take i (stages \<alpha>) @ drop (Suc i) (stages \<alpha>)\<rparr>)"
      unfolding completes(1) using completes(3-5) by (intro ex_step.completes [where j = j]) (simp_all add: eqs)
    moreover have "follows X \<chi> \<chi>' \<alpha> (\<alpha>\<lparr>sys := (sys \<alpha>)\<lparr>pending := take i (pending (sys \<alpha>)) @ drop (Suc i) (pending (sys \<alpha>)),
           socket_calls := socket_calls (sys \<alpha>) @ on_result (job_socket j) r\<rparr>,
         stages := take i (stages \<alpha>) @ drop (Suc i) (stages \<alpha>)\<rparr>)"
      using assms(2) completes(2) by (auto simp: follows_def sees_def hk_def)
    ultimately show ?thesis by blast
  qed
qed

section \<open>Frames\<close>

fun frame_of :: "'s \<Rightarrow> ('s, 'v, 'f) event \<Rightarrow> string list" where
  "frame_of s (Frame s' data now) = (if s' = s then [data] else [])"
| "frame_of s e = []"

definition frames_of :: "'s \<Rightarrow> ('s, 'v, 'f) event list \<Rightarrow> string list" where
  \<comment> \<open>the frames of a socket, in the order of their arrival\<close>
  "frames_of s es = concat (map (frame_of s) es)"

lemma frames_of_simps [simp]:
  "frames_of s [] = []" "frames_of s [e] = frame_of s e"
  "frames_of s (es @ es') = frames_of s es @ frames_of s es'"
  by (simp_all add: frames_of_def)

lemma messages_frames: "messages s es = length (filter (\<lambda>d. d = []) (frames_of s es))"
proof -
  have "length (filter (\<lambda>d. d = []) (frame_of s e)) = (if \<exists>now. e = Frame s [] now then 1 else 0)" for e :: "('a, 'b, 'c) event"
    by (cases e) auto
  then show ?thesis by (induction es) (simp_all add: messages_def frames_of_def)
qed

section \<open>The simulation\<close>

fun is_opening :: "phase \<Rightarrow> bool" where
  "is_opening (Opening k) = True"
| "is_opening _ = False"

definition being_opened :: "('s, 'w) concurrent \<Rightarrow> 's set" where
  "being_opened \<kappa> = {s. is_opening (phase_of \<kappa> s)}"

definition fresh_listener :: "('w, 'v, 'f) site \<Rightarrow> string \<Rightarrow> listener" where
  "fresh_listener S k =
     WebSocketListener k (http_request_address (site_config S)) (http_request_port (site_config S))"

definition hooks_ok :: "('w, 'v, 'f) site \<Rightarrow> ('s \<Rightarrow> phase) \<Rightarrow> ('s \<Rightarrow> listener option) \<Rightarrow> bool" where
  "hooks_ok S ph h \<longleftrightarrow> (\<forall>s. h s = None \<longleftrightarrow> ph s = Absent)
     \<and> (\<forall>s k. ph s = Opening k \<longrightarrow> h s = Some (fresh_listener S k))
     \<and> (\<forall>s k. phase_id (ph s) = Some k \<longrightarrow> map_option clientID (h s) = Some k)"

definition matches ::
    "('w, 'v, 'f) site \<Rightarrow> ('s, 'w, 'v, 'f) whole \<Rightarrow> ('s, 'w, 'v, 'f) suspended \<Rightarrow> ('s, 'v, 'f) event list \<Rightarrow> bool" where
  "matches S \<omega> \<alpha> es \<longleftrightarrow> sees (being_opened (conc \<omega>)) (exchanges_of \<omega>) \<alpha> \<and> hooks_ok S (phase_of (conc \<omega>)) (hk \<alpha>)
     \<and> (\<forall>(s, rq) \<in> set (to_backend \<omega>). hooks \<omega> s \<noteq> None)
     \<and> (\<forall>s k. opened_under s k es \<longrightarrow> map_option clientID (hk \<alpha> s) = Some k)"

lemma fresh_listener_id [simp]: "clientID (fresh_listener S k) = k"
  by (simp add: fresh_listener_def WebSocketListener_def)

lemma opened_under_snoc_iff:
  "opened_under s k (es @ [e]) \<longleftrightarrow> opened_under s k es
     \<or> (\<exists>params peer. e = Created s params peer \<and> params ''ClientId'' = Some (Some k))"
  by (auto simp: opened_under_def)

lemma happens_matched:
  assumes "ex_step S h (exchanges_of \<omega>) \<chi>" "may_happen (phase_of (conc \<omega>)) h" "matches S \<omega> \<alpha> es"
  shows "\<exists>\<alpha>'. ex_step S h \<alpha> \<alpha>'
    \<and> matches S (with_exchanges \<chi> \<omega>) \<alpha>' (es @ (case h of Outside e \<Rightarrow> [e] | _ \<Rightarrow> []))"
proof -
  have sees: "sees (being_opened (conc \<omega>)) (exchanges_of \<omega>) \<alpha>" using assms(3) by (simp add: matches_def)
  obtain \<alpha>' where a: "ex_step S h \<alpha> \<alpha>'" "follows (being_opened (conc \<omega>)) (exchanges_of \<omega>) \<chi> \<alpha> \<alpha>'"
    using happens_seen [OF assms(1) sees assms(2)] by blast
  have ids: "map_option clientID (hk \<alpha>' s) = map_option clientID (hk \<alpha> s)" for s
    using a(2) by (simp add: follows_def)
  then have none: "hk \<alpha>' s = None \<longleftrightarrow> hk \<alpha> s = None" for s by (metis option.map_disc_iff)
  have sees': "sees (being_opened (conc \<omega>)) \<chi> \<alpha>'" using a(2) by (simp add: follows_def)
  then have "sees (being_opened (conc \<omega>)) (exchanges_of (with_exchanges \<chi> \<omega>)) \<alpha>'"
    using a(2) by (simp add: sees_def follows_def hk_def)
  moreover have "hooks_ok S (phase_of (conc \<omega>)) (hk \<alpha>')"
    using assms(3) a(2) none ids unfolding matches_def hooks_ok_def follows_def being_opened_def by simp
  moreover have "listeners (gw (sys \<chi>)) s \<noteq> None" if "(s, rq) \<in> set (wire (sys \<chi>))" for s rq
  proof -
    have "hooks \<omega> s \<noteq> None" using that a(2) assms(3) by (fastforce simp: follows_def matches_def hk_def)
    moreover have "hooks \<omega> s = (if s \<in> being_opened (conc \<omega>) then None else hk \<alpha> s)"
      using sees by (simp add: sees_def hk_def)
    moreover have "hk \<chi> s = (if s \<in> being_opened (conc \<omega>) then None else hk \<alpha>' s)"
      using sees' by (simp add: sees_def)
    ultimately show ?thesis using none unfolding hk_def by metis
  qed
  moreover have "map_option clientID (hk \<alpha>' s) = Some k"
    if "opened_under s k (es @ (case h of Outside e \<Rightarrow> [e] | _ \<Rightarrow> []))" for s k
  proof -
    have "opened_under s k es" using that assms(2) by (cases h) (auto simp: opened_under_snoc_iff)
    then show ?thesis using assms(3) ids by (simp add: matches_def)
  qed
  ultimately have "matches S (with_exchanges \<chi> \<omega>) \<alpha>' (es @ (case h of Outside e \<Rightarrow> [e] | _ \<Rightarrow> []))"
    unfolding matches_def with_exchanges_simps by blast
  with a(1) show ?thesis by blast
qed

lemma callback_matchedI:
  assumes "matches S \<omega> \<alpha> es"
    and "\<omega>' = \<omega>\<lparr>conc := \<kappa>, hooks := hooks', calls_made := calls_made \<omega> @ calls\<rparr>"
    and "live (sys \<alpha>') = {t. counted (phase_of \<kappa> t)}" "pending (sys \<alpha>') = pending (sys \<alpha>)" "stages \<alpha>' = stages \<alpha>"
    and "socket_calls (sys \<alpha>') = socket_calls (sys \<alpha>) @ calls" "wire (sys \<alpha>') = wire (sys \<alpha>)"
    and "\<And>t. hooks' t = (if t \<in> being_opened \<kappa> then None else hk \<alpha>' t)"
    and "\<And>t. hooks \<omega> t \<noteq> None \<Longrightarrow> hooks' t \<noteq> None"
    and "hooks_ok S (phase_of \<kappa>) (hk \<alpha>')"
    and "\<And>t k. opened_under t k es' \<Longrightarrow> map_option clientID (hk \<alpha>' t) = Some k"
  shows "matches S \<omega>' \<alpha>' es'"
  unfolding matches_def
proof (intro conjI)
  have sees: "sees (being_opened (conc \<omega>)) (exchanges_of \<omega>) \<alpha>" using assms(1) by (simp add: matches_def)
  show "sees (being_opened (conc \<omega>')) (exchanges_of \<omega>') \<alpha>'"
    using sees assms(3-8) by (simp add: sees_def assms(2) hk_def [of "exchanges_of _"])
  show "hooks_ok S (phase_of (conc \<omega>')) (hk \<alpha>')" using assms(10) unfolding assms(2) by simp
  show "\<forall>(s, rq)\<in>set (to_backend \<omega>'). hooks \<omega>' s \<noteq> None"
    using assms(1,9) unfolding assms(2) by (fastforce simp: matches_def)
  show "\<forall>t k. opened_under t k es' \<longrightarrow> map_option clientID (hk \<alpha>' t) = Some k" using assms(11) by blast
qed

lemma hooks_seen: "matches S \<omega> \<alpha> es \<Longrightarrow> hooks \<omega> t = (if t \<in> being_opened (conc \<omega>) then None else hk \<alpha> t)"
  by (simp add: matches_def sees_def hk_def)

lemma outside_step:
  assumes "gw_step S e (sys \<alpha>) \<sigma>" "\<not> is_finished e" "pending \<sigma> = pending (sys \<alpha>)"
  shows "ex_step S (Outside e) \<alpha> (\<alpha>\<lparr>sys := \<sigma>\<rparr>)"
  using ex_step.from_outside [of S e \<alpha> \<sigma>] assms by simp

lemma later_callback_matched:
  \<comment> \<open>of a socket that has its listener\<close>
  assumes "matches S \<omega> \<alpha> es"
    and "\<omega>' = \<omega>\<lparr>conc := \<kappa>, hooks := hooks_after (site_config S) s (conc \<omega>) \<kappa> (hooks \<omega>),
      calls_made := calls_made \<omega> @ calls_in s (conc \<omega>) \<kappa>\<rparr>"
    and "phase_of \<kappa> = (phase_of (conc \<omega>))(s := p)" "phase_of (conc \<omega>) s \<noteq> Absent" "p \<noteq> Absent"
    and "\<not> is_opening (phase_of (conc \<omega>) s)" "\<not> is_opening p"
    and "phase_id p = phase_id (phase_of (conc \<omega>) s) \<or> phase_id p = None"
    and "hk \<alpha>' = hk \<alpha>" "live (sys \<alpha>') = {t. counted (phase_of \<kappa> t)}" "pending (sys \<alpha>') = pending (sys \<alpha>)"
    and "stages \<alpha>' = stages \<alpha>" "socket_calls (sys \<alpha>') = socket_calls (sys \<alpha>)" "wire (sys \<alpha>') = wire (sys \<alpha>)"
    and "\<And>t k. opened_under t k es' \<Longrightarrow> opened_under t k es"
  shows "matches S \<omega>' \<alpha>' es'"
proof (rule callback_matchedI [OF assms(1,2)], unfold assms(9))
  have keep: "hooks_after (site_config S) s (conc \<omega>) \<kappa> (hooks \<omega>) = hooks \<omega>" "calls_in s (conc \<omega>) \<kappa> = []"
    using assms(4,6) by (auto simp: hooks_after_def calls_in_def split: phase.splits)
  show "hooks_after (site_config S) s (conc \<omega>) \<kappa> (hooks \<omega>) t = (if t \<in> being_opened \<kappa> then None else hk \<alpha> t)" for t
    using hooks_seen [OF assms(1), of t] assms(3,6,7) by (simp add: keep being_opened_def)
  have "hooks_ok S (phase_of (conc \<omega>)) (hk \<alpha>)" using assms(1) by (simp add: matches_def)
  then show "hooks_ok S (phase_of \<kappa>) (hk \<alpha>)" using assms(3-8) by (auto simp: hooks_ok_def)
  show "socket_calls (sys \<alpha>') = socket_calls (sys \<alpha>) @ calls_in s (conc \<omega>) \<kappa>" using assms(13) by (simp add: keep)
  show "map_option clientID (hk \<alpha> t) = Some k" if "opened_under t k es'" for t k
    using assms(1) assms(15) [OF that] by (simp add: matches_def)
  show "hooks_after (site_config S) s (conc \<omega>) \<kappa> (hooks \<omega>) t \<noteq> None" if "hooks \<omega> t \<noteq> None" for t
    using that by (simp add: keep)
qed (use assms(10-14) in simp_all)

lemma opening_matched:
  assumes "matches S \<omega> \<alpha> es" "phase_of (conc \<omega>) s = Absent" "params ''ClientId'' = Some (Some k)"
    and "peer_common_name (site_config S) peer = Inr cn" "phase_of \<kappa> = (phase_of (conc \<omega>))(s := Opening k)"
    and "\<omega>' = \<omega>\<lparr>conc := \<kappa>, hooks := hooks_after (site_config S) s (conc \<omega>) \<kappa> (hooks \<omega>),
      calls_made := calls_made \<omega> @ calls_in s (conc \<omega>) \<kappa>\<rparr>"
  shows "\<exists>\<alpha>'. ex_step S (Outside (Created s params peer)) \<alpha> \<alpha>' \<and> matches S \<omega>' \<alpha>' (es @ [Created s params peer])"
proof -
  have hooks: "hooks_ok S (phase_of (conc \<omega>)) (hk \<alpha>)" and lv: "live (sys \<alpha>) = {t. counted (phase_of (conc \<omega>) t)}"
    and ids: "\<And>t k. opened_under t k es \<Longrightarrow> map_option clientID (hk \<alpha> t) = Some k"
    using assms(1) by (simp_all add: matches_def sees_def)
  have free: "hk \<alpha> s = None" using hooks assms(2) by (simp add: hooks_ok_def)
  have peer: "peer_readable (site_config S) peer" using assms(4) peer_common_name_Inr by blast
  obtain g' calls where g: "onAfterCreate (site_exec S) (site_manager S) (site_config S) s params peer (gw (sys \<alpha>))
      = Inr (g', calls)" "listeners g' = (hk \<alpha>)(s \<mapsto> fresh_listener S k)"
    "calls = (if k = [] then [(s, SendClose 2 ''ClientId paramter is empty'')] else [])"
    using assms(3) peer by (auto simp: onAfterCreate_Inr fresh_listener_def hk_def)
  let ?e = "Created s params peer"
  let ?\<sigma> = "(sys \<alpha>)\<lparr>gw := g', live := insert s (live (sys \<alpha>)), socket_calls := socket_calls (sys \<alpha>) @ calls\<rparr>"
  have "gw_step S ?e (sys \<alpha>) ?\<sigma>" using free g(1) by (intro gw_step.created) (simp_all add: hk_def)
  then have "ex_step S (Outside ?e) \<alpha> (\<alpha>\<lparr>sys := ?\<sigma>\<rparr>)" by (rule outside_step) simp_all
  moreover have hk': "hk (\<alpha>\<lparr>sys := ?\<sigma>\<rparr>) = (hk \<alpha>)(s \<mapsto> fresh_listener S k)" by (simp add: hk_def g(2))
  have "matches S \<omega>' (\<alpha>\<lparr>sys := ?\<sigma>\<rparr>) (es @ [?e])"
  proof (rule callback_matchedI [OF assms(1,6)], unfold hk')
    show "hooks_after (site_config S) s (conc \<omega>) \<kappa> (hooks \<omega>) t
        = (if t \<in> being_opened \<kappa> then None else ((hk \<alpha>)(s \<mapsto> fresh_listener S k)) t)" for t
      using assms(2,5) hooks_seen [OF assms(1), of t] free by (simp add: hooks_after_def being_opened_def)
    show "hooks_ok S (phase_of \<kappa>) ((hk \<alpha>)(s \<mapsto> fresh_listener S k))"
      using hooks assms(5) by (auto simp: hooks_ok_def)
    show "map_option clientID (((hk \<alpha>)(s \<mapsto> fresh_listener S k)) t) = Some j" if "opened_under t j (es @ [?e])" for t j
      using that ids [of t j] assms(3) free by (auto simp: opened_under_snoc_iff)
  qed (use assms(2,5) lv g(3) in \<open>auto simp: hooks_after_def calls_in_def\<close>)
  ultimately show ?thesis by blast
qed

lemma serving_listener:
  assumes "matches S \<omega> \<alpha> es" "phase_of (conc \<omega>) s = Serving k"
  shows "\<exists>l. listeners (gw (sys \<alpha>)) s = Some l" "s \<in> live (sys \<alpha>)"
proof -
  have "hooks_ok S (phase_of (conc \<omega>)) (hk \<alpha>)" "live (sys \<alpha>) = {t. counted (phase_of (conc \<omega>) t)}"
    using assms(1) by (simp_all add: matches_def sees_def)
  with assms(2) show "\<exists>l. listeners (gw (sys \<alpha>)) s = Some l" "s \<in> live (sys \<alpha>)"
    by (cases "listeners (gw (sys \<alpha>)) s"; auto simp: hooks_ok_def hk_def)+
qed

lemma closing_matched:
  assumes "phase_of (conc \<omega>) s = Serving k" "matches S \<omega> \<alpha> es"
    and "\<omega>' = \<omega>\<lparr>conc := \<kappa>, hooks := hooks_after (site_config S) s (conc \<omega>) \<kappa> (hooks \<omega>),
      calls_made := calls_made \<omega> @ calls_in s (conc \<omega>) \<kappa>\<rparr>"
    and "phase_of \<kappa> = (phase_of (conc \<omega>))(s := Closing k)"
  shows "\<exists>e \<alpha>'. ex_step S (Outside e) \<alpha> \<alpha>' \<and> matches S \<omega>' \<alpha>' (es @ [e]) \<and> (\<forall>t. frames_of t [e] = [])"
proof -
  have lv: "live (sys \<alpha>) = {t. counted (phase_of (conc \<omega>) t)}" using assms(2) by (simp add: matches_def sees_def)
  obtain l where l: "listeners (gw (sys \<alpha>)) s = Some l" using serving_listener(1) [OF assms(2,1)] by blast
  let ?\<sigma> = "(sys \<alpha>)\<lparr>gw := (gw (sys \<alpha>))\<lparr>registry :=
    onClose (site_exec S) (site_manager S) l 0 [] (registry (gw (sys \<alpha>)))\<rparr>\<rparr>"
  have "gw_step S (Close s 0 []) (sys \<alpha>) ?\<sigma>"
    by (rule gw_step.close_frame [OF serving_listener(2) [OF assms(2,1)] l])
  then have "ex_step S (Outside (Close s 0 [])) \<alpha> (\<alpha>\<lparr>sys := ?\<sigma>\<rparr>)" by (rule outside_step) simp_all
  moreover have "matches S \<omega>' (\<alpha>\<lparr>sys := ?\<sigma>\<rparr>) (es @ [Close s 0 []])"
    by (rule later_callback_matched [OF assms(2,3), of "Closing k"])
      (use assms(1,4) lv in \<open>auto simp: hk_def opened_under_snoc_iff\<close>)
  moreover have "frames_of t [Close s 0 []] = []" for t by simp
  ultimately show ?thesis by blast
qed

lemma destroying_matched:
  assumes "phase_of (conc \<omega>) s = Serving k" "matches S \<omega> \<alpha> es"
    and "\<omega>' = \<omega>\<lparr>conc := \<kappa>, hooks := hooks_after (site_config S) s (conc \<omega>) \<kappa> (hooks \<omega>),
      calls_made := calls_made \<omega> @ calls_in s (conc \<omega>) \<kappa>\<rparr>"
    and "phase_of \<kappa> = (phase_of (conc \<omega>))(s := Destroying k)"
  shows "\<exists>e \<alpha>'. ex_step S (Outside e) \<alpha> \<alpha>' \<and> matches S \<omega>' \<alpha>' (es @ [e]) \<and> (\<forall>t. frames_of t [e] = [])"
proof -
  have lv: "live (sys \<alpha>) = {t. counted (phase_of (conc \<omega>) t)}" using assms(2) by (simp add: matches_def sees_def)
  obtain g' where g: "onBeforeDestroy (site_exec S) (site_manager S) s (gw (sys \<alpha>)) = Inr g'"
    "listeners g' = listeners (gw (sys \<alpha>))" using serving_listener(1) [OF assms(2,1)] by (auto simp: onBeforeDestroy_Inr)
  let ?\<sigma> = "(sys \<alpha>)\<lparr>gw := g', live := live (sys \<alpha>) - {s}\<rparr>"
  have "gw_step S (Destroyed s) (sys \<alpha>) ?\<sigma>"
    by (rule gw_step.destroyed [OF serving_listener(2) [OF assms(2,1)] g(1)])
  then have "ex_step S (Outside (Destroyed s)) \<alpha> (\<alpha>\<lparr>sys := ?\<sigma>\<rparr>)" by (rule outside_step) simp_all
  moreover have "matches S \<omega>' (\<alpha>\<lparr>sys := ?\<sigma>\<rparr>) (es @ [Destroyed s])"
    by (rule later_callback_matched [OF assms(2,3), of "Destroying k"])
      (use assms(1,4) lv g(2) in \<open>auto simp: hk_def opened_under_snoc_iff\<close>)
  moreover have "frames_of t [Destroyed s] = []" for t by simp
  ultimately show ?thesis by blast
qed

lemma callback_matched:
  assumes "conn_step (site_exec S) (site_manager S) (site_config S) s (conc \<omega>) \<kappa>" "matches S \<omega> \<alpha> es"
    and "\<omega>' = \<omega>\<lparr>conc := \<kappa>, hooks := hooks_after (site_config S) s (conc \<omega>) \<kappa> (hooks \<omega>),
      calls_made := calls_made \<omega> @ calls_in s (conc \<omega>) \<kappa>\<rparr>"
  shows "matches S \<omega>' \<alpha> es
    \<or> (\<exists>e \<alpha>'. ex_step S (Outside e) \<alpha> \<alpha>' \<and> matches S \<omega>' \<alpha>' (es @ [e]) \<and> (\<forall>t. frames_of t [e] = []))"
proof -
  have hooks: "hooks_ok S (phase_of (conc \<omega>)) (hk \<alpha>)" and lv: "live (sys \<alpha>) = {t. counted (phase_of (conc \<omega>) t)}"
    and ids: "\<And>t k. opened_under t k es \<Longrightarrow> map_option clientID (hk \<alpha> t) = Some k"
    using assms(2) by (simp_all add: matches_def sees_def)
  note seen = hooks_seen [OF assms(2)]
  show ?thesis
    using assms(1)
  proof (cases rule: conn_step.cases)
    case (opens params k peer cn)
    have "phase_of \<kappa> = (phase_of (conc \<omega>))(s := Opening k)" using opens(1) by simp
    moreover have "frames_of t [Created s params peer] = []" for t by simp
    ultimately show ?thesis
      using opening_matched [where params = params and k = k, OF assms(2) opens(2-4) _ assms(3)] by blast
  next
    case (works st)
    have "matches S \<omega>' \<alpha> es"
    proof (rule callback_matchedI [OF assms(2,3)])
      show "hooks_after (site_config S) s (conc \<omega>) \<kappa> (hooks \<omega>) t = (if t \<in> being_opened \<kappa> then None else hk \<alpha> t)" for t
        using works(1) seen [of t] by (simp add: hooks_after_def being_opened_def split: phase.splits)
    qed (use works(1) hooks lv ids in \<open>simp_all add: hooks_after_def calls_in_def split: phase.splits\<close>)
    then show ?thesis by simp
  next
    case (opened k)
    have "matches S \<omega>' \<alpha> es"
    proof (rule callback_matchedI [OF assms(2,3)])
      have "hk \<alpha> s = Some (fresh_listener S k)" using hooks opened(2) by (simp add: hooks_ok_def)
      then show "hooks_after (site_config S) s (conc \<omega>) \<kappa> (hooks \<omega>) t = (if t \<in> being_opened \<kappa> then None else hk \<alpha> t)" for t
        using opened seen [of t] by (simp add: hooks_after_def being_opened_def fresh_listener_def)
      show "hooks_ok S (phase_of \<kappa>) (hk \<alpha>)" using hooks opened by (auto simp: hooks_ok_def)
    qed (use opened lv ids in \<open>auto simp: hooks_after_def calls_in_def\<close>)
    then show ?thesis by simp
  next
    case (closed k)
    have "matches S \<omega>' \<alpha> es"
      by (rule later_callback_matched [OF assms(2,3), of "Serving k"]) (use closed lv in auto)
    then show ?thesis by simp
  next
    case (destroyed k)
    have "matches S \<omega>' \<alpha> es"
      by (rule later_callback_matched [OF assms(2,3), of Gone]) (use destroyed lv in auto)
    then show ?thesis by simp
  next
    case (closes k)
    then show ?thesis using closing_matched [OF closes(2) assms(2,3)] by simp
  next
    case (destroys k)
    then show ?thesis using destroying_matched [OF destroys(2) assms(2,3)] by simp
  qed
qed

section \<open>Runs\<close>

fun arrival :: "('s, 'v, 'f) activity \<Rightarrow> ('s, 'v, 'f) event list" where
  "arrival (Happens (Outside e)) = [e]"
| "arrival _ = []"

definition arrived :: "('s, 'v, 'f) activity list \<Rightarrow> ('s, 'v, 'f) event list" where
  \<comment> \<open>the frames, pings and pongs of a run\<close>
  "arrived tr = concat (map arrival tr)"

definition received ::
    "('w, 'v, 'f) site \<Rightarrow> 'w \<Rightarrow> ('s, 'v, 'f) happening list \<Rightarrow> 's \<Rightarrow> http_response \<Rightarrow> bool" where
  \<comment> \<open>a response came in for an exchange of the socket\<close>
  "received S w tr s res \<longleftrightarrow> (\<exists>pre i post \<chi>. tr = pre @ Resume i (Received res) # post
     \<and> ex_run S w pre \<chi> \<and> i < length (pending (sys \<chi>)) \<and> job_socket (pending (sys \<chi>) ! i) = s)"

definition whole_received ::
    "('w, 'v, 'f) site \<Rightarrow> 'w \<Rightarrow> ('s, 'v, 'f) activity list \<Rightarrow> 's \<Rightarrow> http_response \<Rightarrow> bool" where
  "whole_received S w tr s res \<longleftrightarrow> (\<exists>pre i post \<omega>. tr = pre @ Happens (Resume i (Received res)) # post
     \<and> whole_run S w pre \<omega> \<and> i < length (queue \<omega>) \<and> job_socket (queue \<omega> ! i) = s)"

lemma received_later:
  assumes "received S w tr s res"
  shows "received S w (tr @ [h]) s res"
proof -
  obtain pre i post \<chi> where "tr = pre @ Resume i (Received res) # post" "ex_run S w pre \<chi>"
    "i < length (pending (sys \<chi>))" "job_socket (pending (sys \<chi>) ! i) = s"
    using assms by (auto simp: received_def)
  then show ?thesis unfolding received_def by (intro exI [of _ pre] exI [of _ i] exI [of _ "post @ [h]"]) auto
qed

lemma received_now:
  "ex_run S w tr \<chi> \<Longrightarrow> i < length (pending (sys \<chi>)) \<Longrightarrow>
    received S w (tr @ [Resume i (Received res)]) (job_socket (pending (sys \<chi>) ! i)) res"
  unfolding received_def by blast

lemma whole_received_later:
  assumes "whole_received S w tr s res"
  shows "whole_received S w (tr @ [a]) s res"
proof -
  obtain pre i post \<omega> where "tr = pre @ Happens (Resume i (Received res)) # post" "whole_run S w pre \<omega>"
    "i < length (queue \<omega>)" "job_socket (queue \<omega> ! i) = s"
    using assms by (auto simp: whole_received_def)
  then show ?thesis unfolding whole_received_def by (intro exI [of _ pre] exI [of _ i] exI [of _ "post @ [a]"]) auto
qed

lemma received_snocD:
  assumes "received S w (tr @ [h]) s res" "ex_run S w tr \<chi>"
  shows "received S w tr s res
    \<or> (\<exists>i. h = Resume i (Received res) \<and> i < length (pending (sys \<chi>)) \<and> job_socket (pending (sys \<chi>) ! i) = s)"
proof -
  obtain pre i post \<chi>' where r: "tr @ [h] = pre @ Resume i (Received res) # post" "ex_run S w pre \<chi>'"
    "i < length (pending (sys \<chi>'))" "job_socket (pending (sys \<chi>') ! i) = s"
    using assms(1) by (auto simp: received_def)
  show ?thesis
  proof (cases post rule: rev_cases)
    case Nil
    then show ?thesis using r ex_run_functional [OF assms(2)] by auto
  next
    case (snoc post' h')
    then show ?thesis using r by (auto simp: received_def)
  qed
qed

lemma received_matched:
  assumes "\<forall>s res. received S w atr s res \<longrightarrow> whole_received S w tr s res" "ex_run S w atr \<alpha>" "whole_run S w tr \<omega>"
    and "pending (sys \<alpha>) = queue \<omega>"
  shows "received S w (atr @ [Outside e]) s res \<Longrightarrow> whole_received S w (tr @ [a]) s res"
    and "received S w (atr @ [h]) s res \<Longrightarrow> whole_received S w (tr @ [Happens h]) s res"
proof -
  show "whole_received S w (tr @ [a]) s res" if "received S w (atr @ [Outside e]) s res"
    using received_snocD [OF that assms(2)] assms(1) by (auto intro: whole_received_later)
  show "whole_received S w (tr @ [Happens h]) s res" if "received S w (atr @ [h]) s res"
    using received_snocD [OF that assms(2)]
  proof (elim disjE exE conjE)
    assume "received S w atr s res"
    then show ?thesis using assms(1) by (auto intro: whole_received_later)
  next
    fix i
    assume "h = Resume i (Received res)" "i < length (pending (sys \<alpha>))" "job_socket (pending (sys \<alpha>) ! i) = s"
    then show ?thesis using assms(3,4) by (fastforce simp: whole_received_def)
  qed
qed

lemma whole_simulated:
  "whole_run S w tr \<omega> \<Longrightarrow> \<exists>atr \<alpha>. ex_run S w atr \<alpha> \<and> matches S \<omega> \<alpha> (outside_events atr)
     \<and> (\<forall>s. frames_of s (outside_events atr) = frames_of s (arrived tr))
     \<and> (\<forall>s res. received S w atr s res \<longrightarrow> whole_received S w tr s res)"
proof (induction rule: whole_run.induct)
  case whole_start
  have "matches S (idle_whole w) \<lparr>sys = idle_system w, stages = []\<rparr> (outside_events [])"
    by (simp add: matches_def sees_def hooks_ok_def hk_def idle_whole_def idle_system_def fresh_gateway_def
        no_connections_def being_opened_def opened_under_def)
  with ex_run.ex_start show ?case by (fastforce simp: arrived_def received_def)
next
  case (whole_more tr \<omega> a \<omega>')
  then obtain atr \<alpha> where a: "ex_run S w atr \<alpha>" "matches S \<omega> \<alpha> (outside_events atr)"
    "\<forall>s. frames_of s (outside_events atr) = frames_of s (arrived tr)"
    "\<forall>s res. received S w atr s res \<longrightarrow> whole_received S w tr s res" by blast
  have same: "pending (sys \<alpha>) = queue \<omega>" using a(2) by (simp add: matches_def sees_def)
  note came = received_matched [OF a(4,1) whole_more(1) same]
  show ?case
    using whole_more(2)
  proof (cases rule: whole_step.cases)
    case (callback s \<kappa>)
    have arr: "arrived (tr @ [a]) = arrived tr" by (simp add: arrived_def callback(1))
    from callback_matched [OF callback(3) a(2) callback(2)] show ?thesis
    proof (elim disjE exE conjE)
      assume "matches S \<omega>' \<alpha> (outside_events atr)"
      with a(1,3,4) whole_received_later [of S w tr _ _ a] show ?thesis unfolding arr by blast
    next
      fix e \<alpha>'
      assume e: "ex_step S (Outside e) \<alpha> \<alpha>'" "matches S \<omega>' \<alpha>' (outside_events atr @ [e])" "\<forall>t. frames_of t [e] = []"
      then have "matches S \<omega>' \<alpha>' (outside_events (atr @ [Outside e]))"
        "\<forall>s. frames_of s (outside_events (atr @ [Outside e])) = frames_of s (arrived tr)"
        using a(3) by simp_all
      moreover have "\<forall>s res. received S w (atr @ [Outside e]) s res \<longrightarrow> whole_received S w (tr @ [a]) s res"
        using came(1) by blast
      ultimately show ?thesis using ex_run.ex_more [OF a(1) e(1)] unfolding arr by blast
    qed
  next
    case (happens h \<chi>)
    obtain \<alpha>' where a': "ex_step S h \<alpha> \<alpha>'"
      "matches S \<omega>' \<alpha>' (outside_events atr @ (case h of Outside e \<Rightarrow> [e] | _ \<Rightarrow> []))"
      using happens_matched [OF happens(3,4) a(2)] happens(2) by blast
    have "arrived (tr @ [a]) = arrived tr @ (case h of Outside e \<Rightarrow> [e] | _ \<Rightarrow> [])"
      by (cases h) (simp_all add: arrived_def happens(1))
    then have "\<forall>s. frames_of s (outside_events (atr @ [h])) = frames_of s (arrived (tr @ [a]))"
      using a(3) by simp
    moreover have "\<forall>s res. received S w (atr @ [h]) s res \<longrightarrow> whole_received S w (tr @ [a]) s res"
      using came(2) happens(1) by blast
    moreover have "matches S \<omega>' \<alpha>' (outside_events (atr @ [h]))" using a'(2) by simp
    ultimately show ?thesis using ex_run.ex_more [OF a(1) a'(1)] by blast
  qed
qed

definition waiting :: "'s \<Rightarrow> ('s, 'w, 'v, 'f) whole \<Rightarrow> nat" where
  \<comment> \<open>the messages of a socket whose exchange has not ended\<close>
  "waiting s \<omega> = length (filter (\<lambda>j. job_socket j = s) (queue \<omega>))"

lemma whole_serves:
  assumes "whole_run S w tr \<omega>" "site_ok S" "field_laws (site_beast S) get"
  shows "messages s (arrived tr) = waiting s \<omega> + length (texts_to s (calls_made \<omega>))"
    and "(s, rq) \<in> set (to_backend \<omega>) \<Longrightarrow> get (rq_fields rq) ''Host'' = Some (http_request_address (site_config S))
      \<and> (\<exists>l. hooks \<omega> s = Some l \<and> get (rq_fields rq) ''X-Client-ID'' = Some (clientID l))"
proof -
  obtain atr \<alpha> where a: "ex_run S w atr \<alpha>" "matches S \<omega> \<alpha> (outside_events atr)"
    "\<forall>s. frames_of s (outside_events atr) = frames_of s (arrived tr)"
    using whole_simulated [OF assms(1)] by blast
  have eqs: "pending (sys \<alpha>) = queue \<omega>" "socket_calls (sys \<alpha>) = calls_made \<omega>" "wire (sys \<alpha>) = to_backend \<omega>"
    using a(2) by (simp_all add: matches_def sees_def)
  show "messages s (arrived tr) = waiting s \<omega> + length (texts_to s (calls_made \<omega>))"
    using run_serves(1) [OF assms(2,3) a(1), of s] a(3) by (simp add: eqs awaiting_def waiting_def messages_frames)
  assume rq: "(s, rq) \<in> set (to_backend \<omega>)"
  then obtain vin where vin: "get (rq_fields rq) ''Host'' = Some (http_request_address (site_config S))"
    "opened_under s vin (outside_events atr)" "get (rq_fields rq) ''X-Client-ID'' = Some vin"
    using run_serves(2) [OF assms(2,3) a(1), of s rq] by (auto simp: eqs)
  have "hooks \<omega> s \<noteq> None" using a(2) rq by (fastforce simp: matches_def)
  then have "hooks \<omega> s = hk \<alpha> s" using hooks_seen [OF a(2), of s] by (simp split: if_splits)
  moreover have "map_option clientID (hk \<alpha> s) = Some vin" using a(2) vin(2) by (simp add: matches_def)
  ultimately show "get (rq_fields rq) ''Host'' = Some (http_request_address (site_config S))
      \<and> (\<exists>l. hooks \<omega> s = Some l \<and> get (rq_fields rq) ''X-Client-ID'' = Some (clientID l))"
    using vin by auto
qed

lemma hook_id:
  assumes "whole_run S w tr \<omega>" "hooks \<omega> s = Some l"
  shows "phase_of (conc \<omega>) s \<in> {Serving (clientID l), Closing (clientID l), Destroying (clientID l), Gone}"
proof -
  obtain atr \<alpha> where a: "matches S \<omega> \<alpha> (outside_events atr)" using whole_simulated [OF assms(1)] by blast
  then have "\<not> is_opening (phase_of (conc \<omega>) s)" and l: "hk \<alpha> s = Some l"
    using hooks_seen [OF a, of s] assms(2) by (simp_all add: being_opened_def split: if_splits)
  moreover have ok: "hooks_ok S (phase_of (conc \<omega>)) (hk \<alpha>)" using a by (simp add: matches_def)
  have "phase_of (conc \<omega>) s \<noteq> Absent" using ok l unfolding hooks_ok_def by (metis option.distinct(1))
  moreover have "clientID l = k" if "phase_id (phase_of (conc \<omega>) s) = Some k" for k
    using ok l that unfolding hooks_ok_def by (metis option.inject option.simps(9))
  ultimately show ?thesis by (cases "phase_of (conc \<omega>) s") simp_all
qed

section \<open>Exchanges of the whole\<close>

fun is_exchange :: "('s, 'v, 'f) activity \<Rightarrow> bool" where
  \<comment> \<open>a step of a coroutine\<close>
  "is_exchange (Happens (Outside e)) = False"
| "is_exchange (Happens h) = True"
| "is_exchange (Callback s) = False"

definition exchange_steps :: "('s, 'v, 'f) activity list \<Rightarrow> nat" where
  "exchange_steps tr = length (filter is_exchange tr)"

definition all_messages :: "('s, 'v, 'f) event list \<Rightarrow> nat" where
  "all_messages es = length (filter (\<lambda>e. \<exists>s now. e = Frame s [] now) es)"

lemma queue_hooks: "whole_run S w tr \<omega> \<Longrightarrow> \<forall>j \<in> set (queue \<omega>). hooks \<omega> (job_socket j) \<noteq> None"
proof (induction rule: whole_run.induct)
  case whole_start
  then show ?case by (simp add: idle_whole_def)
next
  case (whole_more tr \<omega> a \<omega>')
  show ?case
    using whole_more(2)
  proof (cases rule: whole_step.cases)
    case (callback s \<kappa>)
    have "hooks \<omega> t \<noteq> None \<Longrightarrow> hooks_after (site_config S) s (conc \<omega>) \<kappa> (hooks \<omega>) t \<noteq> None" for t
      by (simp add: hooks_after_def split: phase.splits)
    then show ?thesis using whole_more.IH callback(2) by simp
  next
    case (happens h \<chi>)
    show ?thesis
      using happens(3)
    proof (cases rule: ex_step.cases)
      case (from_outside e \<sigma>)
      from from_outside(3) show ?thesis
      proof (cases rule: gw_step.cases)
        case (frame s l data now l' spawned)
        then show ?thesis
          using whole_more.IH happens(2) from_outside(2) by (auto simp: spawn_def split: option.splits)
      qed (use happens(2,4) from_outside(1,2) whole_more.IH in auto)
    next
      case (begins i j l draw port' st)
      then show ?thesis using whole_more.IH happens(2) by (auto simp: overwrite_port_def)
    next
      case (goes_on i j st l a st')
      then show ?thesis using whole_more.IH happens(2) by simp
    next
      case (completes i j r out)
      then show ?thesis using whole_more.IH happens(2) by (auto dest: in_set_takeD in_set_dropD)
    qed
  qed
qed

lemma exchange_back:
  \<comment> \<open>a coroutine that can go on in the simulation can go on here\<close>
  assumes "ex_step S h \<alpha> \<alpha>'" "h \<in> {Begin i draw, Resume i a, Complete i}" "sees X \<chi> \<alpha>"
    and "\<forall>j \<in> set (pending (sys \<chi>)). hk \<chi> (job_socket j) \<noteq> None"
  shows "\<exists>\<chi>'. ex_step S h \<chi> \<chi>'"
proof -
  have eqs: "pending (sys \<alpha>) = pending (sys \<chi>)" "stages \<alpha> = stages \<chi>" using assms(3) by (simp_all add: sees_def)
  have same: "listeners (gw (sys \<chi>)) (job_socket (pending (sys \<chi>) ! n)) = Some l"
    if "listeners (gw (sys \<alpha>)) (job_socket (pending (sys \<chi>) ! n)) = Some l" "n < length (pending (sys \<chi>))" for n l
  proof -
    have "hk \<chi> (job_socket (pending (sys \<chi>) ! n)) \<noteq> None" using assms(4) that(2) nth_mem by blast
    then show ?thesis using assms(3) that(1) by (simp add: sees_def hk_def split: if_splits)
  qed
  show ?thesis
    using assms(1)
  proof (cases rule: ex_step.cases)
    case (begins n j l d port' st)
    then show ?thesis using ex_step.begins [of n \<chi> j l S d port' st] same by (auto simp: eqs)
  next
    case (goes_on n j st l b st')
    then show ?thesis using ex_step.goes_on [of n \<chi> j st l S b st'] same by (auto simp: eqs)
  next
    case (completes n j r out)
    then show ?thesis using ex_step.completes [of n \<chi> j r out S] by (auto simp: eqs)
  qed (use assms(2) in auto)
qed

lemma whole_progress:
  assumes "site_ok S" "whole_run S w tr \<omega>" "i < length (queue \<omega>)"
  shows "\<exists>h \<omega>'. h \<in> {Begin i draw, Resume i Failed, Complete i} \<and> whole_step S (Happens h) \<omega> \<omega>'"
proof -
  obtain atr \<alpha> where a: "ex_run S w atr \<alpha>" "matches S \<omega> \<alpha> (outside_events atr)"
    using whole_simulated [OF assms(2)] by blast
  have sees: "sees (being_opened (conc \<omega>)) (exchanges_of \<omega>) \<alpha>" using a(2) by (simp add: matches_def)
  then have "i < length (pending (sys \<alpha>))" using assms(3) by (simp add: sees_def)
  from exchange_progress [OF assms(1) a(1) this]
  obtain h \<alpha>' where h: "h \<in> {Begin i draw, Resume i Failed, Complete i}" "ex_step S h \<alpha> \<alpha>'" by blast
  have "\<forall>j \<in> set (pending (sys (exchanges_of \<omega>))). hk (exchanges_of \<omega>) (job_socket j) \<noteq> None"
    using queue_hooks [OF assms(2)] by (simp add: hk_def)
  from exchange_back [OF h(2,1) sees this] obtain \<chi>' where x: "ex_step S h (exchanges_of \<omega>) \<chi>'" by blast
  have "may_happen (phase_of (conc \<omega>)) h" using h(1) by auto
  from whole_step.happens [OF x this] h(1) show ?thesis by blast
qed

lemma work_with [simp]: "work (exchanges_of (with_exchanges \<chi> \<omega>)) = work \<chi>"
  by (simp add: work_def)

lemma frame_work:
  assumes "gw_step S e (sys \<chi>) \<sigma>" "may_happen ph (Outside e)" "length (stages \<chi>) = length (pending (sys \<chi>))"
    and "\<chi>' = \<chi>\<lparr>sys := \<sigma>, stages := stages \<chi> @ replicate (length (pending \<sigma>) - length (pending (sys \<chi>))) None\<rparr>"
  shows "work \<chi>' \<le> work \<chi> + 6 * all_messages [e]"
  using assms(1)
proof (cases rule: gw_step.cases)
  case (frame s l data now l' spawned)
  then show ?thesis
    using assms(3,4) by (auto simp: work_def all_messages_def readMessage_frame spawn_def sum2_append split: if_splits)
qed (use assms in \<open>auto simp: work_def\<close>)

lemma whole_work:
  "whole_run S w tr \<omega> \<Longrightarrow> exchange_steps tr + work (exchanges_of \<omega>) \<le> 6 * all_messages (arrived tr)"
proof (induction rule: whole_run.induct)
  case whole_start
  then show ?case by (simp add: exchange_steps_def idle_whole_def work_def)
next
  case (whole_more tr \<omega> a \<omega>')
  have "length (coroutines \<omega>) = length (queue \<omega>)"
  proof -
    obtain atr \<alpha> where "ex_run S w atr \<alpha>" "matches S \<omega> \<alpha> (outside_events atr)"
      using whole_simulated [OF whole_more(1)] by blast
    then show ?thesis using ex_run_stages by (fastforce simp: matches_def sees_def)
  qed
  then have len: "length (stages (exchanges_of \<omega>)) = length (pending (sys (exchanges_of \<omega>)))" by simp
  show ?case
    using whole_more(2)
  proof (cases rule: whole_step.cases)
    case (callback s \<kappa>)
    then show ?thesis using whole_more.IH by (simp add: exchange_steps_def arrived_def work_def)
  next
    case (happens h \<chi>)
    show ?thesis
    proof (cases "\<exists>e. h = Outside e")
      case True
      then obtain e where e: "h = Outside e" by blast
      have "work \<chi> \<le> work (exchanges_of \<omega>) + 6 * all_messages [e]"
        using happens(3) unfolding e
      proof (cases rule: ex_step.cases)
        case (from_outside \<sigma>)
        show ?thesis by (rule frame_work [OF from_outside(2) happens(4) [unfolded e] len from_outside(1)])
      qed
      then show ?thesis
        using whole_more.IH by (simp add: e happens(1,2) exchange_steps_def arrived_def all_messages_def)
    next
      case False
      then have "work \<chi> < work (exchanges_of \<omega>)" using step_works [OF happens(3) _ len] by blast
      moreover have "exchange_steps (tr @ [a]) = Suc (exchange_steps tr)" "arrived (tr @ [a]) = arrived tr"
        using False happens(1) by (cases h; simp add: exchange_steps_def arrived_def)+
      ultimately show ?thesis using whole_more.IH by (simp add: happens(2))
    qed
  qed
qed

end
