(* ===== verification/Whole_Runs.thy ===== *)
theory Whole_Runs
  imports Whole_Gateway
begin

text \<open>
  Runs of the whole gateway in which the callbacks do not overlap: they are the runs of
  \<open>Exchange_Steps\<close>, so that the two models allow the same behaviour. Then the properties of the
  whole gateway.
\<close>

section \<open>Callbacks as steps\<close>

text \<open>
  Conversely, every run of \<open>Exchange_Steps\<close>, where a callback is one step, is a run of the whole
  in which the callbacks happen not to overlap, with the same registry and the same database.
\<close>

fun settled :: "phase \<Rightarrow> string option \<Rightarrow> bool" where
  "settled Absent i = (i = None)"
| "settled (Serving k) i = (i = Some k)"
| "settled Gone i = (i \<noteq> None)"
| "settled _ i = False"

definition at_ease :: "('s, 'w, 'v, 'f) whole \<Rightarrow> bool" where
  "at_ease \<omega> \<longleftrightarrow> (\<forall>s. pc (reg (conc \<omega>)) s = Idle) \<and> \<not> clientMapLock (reg (conc \<omega>))
     \<and> (\<forall>s. settled (phase_of (conc \<omega>) s) (map_option clientID (hooks \<omega> s)))"

lemma whole_eqI:
  "socket_count (conc \<omega>) = SOCKETS (gw (sys \<chi>)) \<Longrightarrow> the_registry (reg (conc \<omega>)) = registry (gw (sys \<chi>)) \<Longrightarrow>
     hooks \<omega> = listeners (gw (sys \<chi>)) \<Longrightarrow> {s. counted (phase_of (conc \<omega>) s)} = live (sys \<chi>) \<Longrightarrow>
     queue \<omega> = pending (sys \<chi>) \<Longrightarrow> calls_made \<omega> = socket_calls (sys \<chi>) \<Longrightarrow> to_backend \<omega> = wire (sys \<chi>) \<Longrightarrow>
     coroutines \<omega> = stages \<chi> \<Longrightarrow> exchanges_of \<omega> = \<chi>"
  by (simp add: exchanges_of_def)

lemma quiet_whole:
  assumes "(quiet_step (site_exec S) (site_manager S) (site_config S) s)\<^sup>+\<^sup>+ (conc \<omega>) \<kappa>" "whole_run S w tr \<omega>"
  shows "\<exists>n. whole_run S w (tr @ replicate n (Callback s)) (\<omega>\<lparr>conc := \<kappa>\<rparr>) \<and> phase_of \<kappa> = phase_of (conc \<omega>)"
proof -
  have step: "whole_step S (Callback s) \<omega>1 (\<omega>1\<lparr>conc := \<kappa>1\<rparr>)"
    if q: "quiet_step (site_exec S) (site_manager S) (site_config S) s (conc \<omega>1) \<kappa>1" for \<omega>1 \<kappa>1
  proof -
    have ph: "phase_of \<kappa>1 = phase_of (conc \<omega>1)" and c: "conn_step (site_exec S) (site_manager S) (site_config S) s (conc \<omega>1) \<kappa>1"
      using q by (simp_all add: quiet_step_def)
    have "hooks_after (site_config S) s (conc \<omega>1) \<kappa>1 (hooks \<omega>1) = hooks \<omega>1" "calls_in s (conc \<omega>1) \<kappa>1 = []"
      by (simp_all add: hooks_after_def calls_in_def ph split: phase.splits)
    then show ?thesis using whole_step.callback [OF c] by simp
  qed
  show ?thesis
    using assms(1)
  proof (induction rule: tranclp_induct)
    case (base \<kappa>)
    show ?case
      using whole_run.whole_more [OF assms(2) step [OF base]] base by (intro exI [of _ 1]) (simp add: quiet_step_def)
  next
    case (step \<kappa>1 \<kappa>2)
    then obtain n where n: "whole_run S w (tr @ replicate n (Callback s)) (\<omega>\<lparr>conc := \<kappa>1\<rparr>)"
      "phase_of \<kappa>1 = phase_of (conc \<omega>)" by blast
    have "whole_step S (Callback s) (\<omega>\<lparr>conc := \<kappa>1\<rparr>) (\<omega>\<lparr>conc := \<kappa>2\<rparr>)"
      using \<open>\<And>\<omega>1 \<kappa>1. quiet_step (site_exec S) (site_manager S) (site_config S) s (conc \<omega>1) \<kappa>1 \<Longrightarrow>
        whole_step S (Callback s) \<omega>1 (\<omega>1\<lparr>conc := \<kappa>1\<rparr>)\<close> [of "\<omega>\<lparr>conc := \<kappa>1\<rparr>" \<kappa>2] step(2) by simp
    from whole_run.whole_more [OF n(1) this] n(2) step(2) show ?case
      by (intro exI [of _ "Suc n"]) (simp add: replicate_append_same quiet_step_def)
  qed
qed

lemma operation_whole:
  \<comment> \<open>the operation of a callback on the registry, undisturbed\<close>
  assumes "whole_run S w tr \<omega>" "pc (reg (conc \<omega>)) s = Spinning op" "\<not> clientMapLock (reg (conc \<omega>))"
  obtains n \<kappa> where "whole_run S w (tr @ replicate n (Callback s)) (\<omega>\<lparr>conc := \<kappa>\<rparr>)"
    "phase_of \<kappa> = phase_of (conc \<omega>)" "socket_count \<kappa> = socket_count (conc \<omega>)"
    "pc (reg \<kappa>) = (pc (reg (conc \<omega>)))(s := Idle)" "\<not> clientMapLock (reg \<kappa>)"
    "clients (the_registry (reg \<kappa>)) = map_effect op (clients (the_registry (reg (conc \<omega>))))"
    "db (the_registry (reg \<kappa>)) = db_effect (site_exec S) (site_manager S) op (db (the_registry (reg (conc \<omega>))))"
proof -
  obtain \<kappa> where k: "(quiet_step (site_exec S) (site_manager S) (site_config S) s)\<^sup>+\<^sup>+ (conc \<omega>) \<kappa>"
    "pc (reg \<kappa>) = (pc (reg (conc \<omega>)))(s := Idle)" "\<not> clientMapLock (reg \<kappa>)" "socket_count \<kappa> = socket_count (conc \<omega>)"
    "clients (the_registry (reg \<kappa>)) = map_effect op (clients (the_registry (reg (conc \<omega>))))"
    "db (the_registry (reg \<kappa>)) = db_effect (site_exec S) (site_manager S) op (db (the_registry (reg (conc \<omega>))))"
    using operation_path [OF assms(2,3), of "site_exec S" "site_manager S" "site_config S"] by blast
  obtain n where "whole_run S w (tr @ replicate n (Callback s)) (\<omega>\<lparr>conc := \<kappa>\<rparr>)" "phase_of \<kappa> = phase_of (conc \<omega>)"
    using quiet_whole [OF k(1) assms(1)] by blast
  with k(2-6) show thesis by (intro that)
qed

lemma opening_path:
  \<comment> \<open>the callback for a new socket, undisturbed\<close>
  assumes "whole_run S w tr \<omega>" "at_ease \<omega>" "phase_of (conc \<omega>) s = Absent"
    and "params ''ClientId'' = Some (Some k)" "peer_readable (site_config S) peer"
  obtains n \<omega>' where "whole_run S w (tr @ replicate n (Callback s)) \<omega>'"
    "phase_of (conc \<omega>') = (phase_of (conc \<omega>))(s := Serving k)" "socket_count (conc \<omega>') = socket_count (conc \<omega>) + 1"
    "\<forall>t. pc (reg (conc \<omega>')) t = Idle" "\<not> clientMapLock (reg (conc \<omega>'))"
    "the_registry (reg (conc \<omega>')) = addClient (site_exec S) (site_manager S) k s (the_registry (reg (conc \<omega>)))"
    "hooks \<omega>' = (hooks \<omega>)(s \<mapsto> fresh_listener S k)" "queue \<omega>' = queue \<omega>" "coroutines \<omega>' = coroutines \<omega>"
    "to_backend \<omega>' = to_backend \<omega>"
    "calls_made \<omega>' = calls_made \<omega> @ (if k = [] then [(s, SendClose 2 ''ClientId paramter is empty'')] else [])"
proof -
  have ease: "\<forall>t. pc (reg (conc \<omega>)) t = Idle" "\<not> clientMapLock (reg (conc \<omega>))"
    using assms(2) by (simp_all add: at_ease_def)
  obtain cn where cn: "peer_common_name (site_config S) peer = Inr cn" using assms(5) peer_common_name_Inr by blast
  let ?\<kappa>1 = "(conc \<omega>)\<lparr>socket_count := socket_count (conc \<omega>) + 1, phase_of := (phase_of (conc \<omega>))(s := Opening k),
    reg := call_op s (Add k s) (reg (conc \<omega>))\<rparr>"
  from whole_run.whole_more [OF assms(1) whole_step.callback [OF conn_step.opens [where params = params, OF assms(3,4) cn]]]
  obtain \<omega>1 where 1: "whole_run S w (tr @ [Callback s]) \<omega>1" "conc \<omega>1 = ?\<kappa>1" "hooks \<omega>1 = hooks \<omega>"
    "queue \<omega>1 = queue \<omega>" "coroutines \<omega>1 = coroutines \<omega>" "to_backend \<omega>1 = to_backend \<omega>"
    "calls_made \<omega>1 = calls_made \<omega> @ (if k = [] then [(s, SendClose 2 ''ClientId paramter is empty'')] else [])"
    using assms(3) by (auto simp: hooks_after_def calls_in_def)
  obtain n \<kappa>2 where 2: "whole_run S w ((tr @ [Callback s]) @ replicate n (Callback s)) (\<omega>1\<lparr>conc := \<kappa>2\<rparr>)"
    "phase_of \<kappa>2 = (phase_of (conc \<omega>))(s := Opening k)" "socket_count \<kappa>2 = socket_count (conc \<omega>) + 1"
    "\<forall>t. pc (reg \<kappa>2) t = Idle" "\<not> clientMapLock (reg \<kappa>2)"
    "clients (the_registry (reg \<kappa>2)) = map_effect (Add k s) (clients (the_registry (reg (conc \<omega>))))"
    "db (the_registry (reg \<kappa>2)) = db_effect (site_exec S) (site_manager S) (Add k s) (db (the_registry (reg (conc \<omega>))))"
    by (rule operation_whole [OF 1(1), of s "Add k s"]) (use 1(2) ease in \<open>auto simp: call_op_def\<close>)
  let ?\<kappa>3 = "\<kappa>2\<lparr>phase_of := (phase_of \<kappa>2)(s := Serving k)\<rparr>"
  have "conn_step (site_exec S) (site_manager S) (site_config S) s (conc (\<omega>1\<lparr>conc := \<kappa>2\<rparr>)) ?\<kappa>3"
    using conn_step.opened [of \<kappa>2 s k] 2(2,4) by simp
  from whole_run.whole_more [OF 2(1) whole_step.callback [OF this]]
  have 3: "whole_run S w (tr @ replicate (Suc (Suc n)) (Callback s)) (\<omega>1\<lparr>conc := ?\<kappa>3, hooks := (hooks \<omega>)(s \<mapsto> fresh_listener S k)\<rparr>)"
    using 1(3) 2(2) by (simp add: hooks_after_def calls_in_def fresh_listener_def replicate_append_same)
  have "the_registry (reg \<kappa>2) = addClient (site_exec S) (site_manager S) k s (the_registry (reg (conc \<omega>)))"
    using 2(6,7) by (simp add: pieces_make_operations del: map_effect.simps db_effect.simps)
  with 1(4-7) 2(2-5) show thesis by (intro that [OF 3]) simp_all
qed

lemma created_whole:
  assumes "whole_run S w tr \<omega>" "at_ease \<omega>" "gw_step S (Created s params peer) (sys (exchanges_of \<omega>)) \<sigma>"
  shows "\<exists>n \<omega>'. whole_run S w (tr @ replicate n (Callback s)) \<omega>' \<and> at_ease \<omega>'
    \<and> exchanges_of \<omega>' = (exchanges_of \<omega>)\<lparr>sys := \<sigma>\<rparr>"
proof -
  from assms(3) obtain k where k: "hooks \<omega> s = None" "params ''ClientId'' = Some (Some k)"
    "peer_readable (site_config S) peer"
    and \<sigma>: "\<sigma> = (sys (exchanges_of \<omega>))\<lparr>gw := (gw (sys (exchanges_of \<omega>)))\<lparr>SOCKETS := socket_count (conc \<omega>) + 1,
        registry := addClient (site_exec S) (site_manager S) k s (the_registry (reg (conc \<omega>))),
        listeners := (hooks \<omega>)(s \<mapsto> fresh_listener S k)\<rparr>,
      live := insert s {t. counted (phase_of (conc \<omega>) t)},
      socket_calls := calls_made \<omega> @ (if k = [] then [(s, SendClose 2 ''ClientId paramter is empty'')] else [])\<rparr>"
    by (auto simp: gw_step_simps onAfterCreate_Inr fresh_listener_def) (auto simp: exchanges_of_def)
  have set: "settled (phase_of (conc \<omega>) t) (map_option clientID (hooks \<omega> t))" for t
    using assms(2) by (simp add: at_ease_def)
  have absent: "phase_of (conc \<omega>) s = Absent"
    using set [of s] k(1) by (cases "phase_of (conc \<omega>) s") simp_all
  obtain n \<omega>' where o: "whole_run S w (tr @ replicate n (Callback s)) \<omega>'"
    "phase_of (conc \<omega>') = (phase_of (conc \<omega>))(s := Serving k)" "socket_count (conc \<omega>') = socket_count (conc \<omega>) + 1"
    "\<forall>t. pc (reg (conc \<omega>')) t = Idle" "\<not> clientMapLock (reg (conc \<omega>'))"
    "the_registry (reg (conc \<omega>')) = addClient (site_exec S) (site_manager S) k s (the_registry (reg (conc \<omega>)))"
    "hooks \<omega>' = (hooks \<omega>)(s \<mapsto> fresh_listener S k)" "queue \<omega>' = queue \<omega>" "coroutines \<omega>' = coroutines \<omega>"
    "to_backend \<omega>' = to_backend \<omega>"
    "calls_made \<omega>' = calls_made \<omega> @ (if k = [] then [(s, SendClose 2 ''ClientId paramter is empty'')] else [])"
    using opening_path [where params = params, OF assms(1,2) absent k(2,3)] .
  have "exchanges_of \<omega>' = (exchanges_of \<omega>)\<lparr>sys := \<sigma>\<rparr>"
    using o(2,3,6-11) by (intro whole_eqI) (auto simp: \<sigma>)
  moreover have "at_ease \<omega>'" using set o(2,4,5,7) by (simp add: at_ease_def)
  ultimately show ?thesis using o(1) by blast
qed

lemma leaving_whole:
  \<comment> \<open>\<open>onClose\<close>, for a close frame or at the destruction, undisturbed\<close>
  fixes s :: 's
  assumes "whole_run S w tr \<omega>" "at_ease \<omega>" "\<not> is_opening p" "p \<noteq> Absent" "phase_of (conc \<omega>) s = Serving k"
    and "conn_step (site_exec S) (site_manager S) (site_config S) s (conc \<omega>) \<kappa>1"
    and "phase_of \<kappa>1 = (phase_of (conc \<omega>))(s := p)" "reg \<kappa>1 = call_op s (NotAvailable k) (reg (conc \<omega>))"
    and "\<And>\<kappa>. phase_of \<kappa> s = p \<Longrightarrow> pc (reg \<kappa>) s = Idle \<Longrightarrow>
      conn_step (site_exec S) (site_manager S) (site_config S) s \<kappa> (\<kappa>\<lparr>phase_of := (phase_of \<kappa>)(s := q)\<rparr>)"
  shows "\<exists>n \<kappa>. whole_run S w (tr @ replicate n (Callback s)) (\<omega>\<lparr>conc := \<kappa>\<rparr>)
    \<and> phase_of \<kappa> = (phase_of (conc \<omega>))(s := q) \<and> socket_count \<kappa> = socket_count \<kappa>1
    \<and> (\<forall>t. pc (reg \<kappa>) t = Idle) \<and> \<not> clientMapLock (reg \<kappa>)
    \<and> the_registry (reg \<kappa>) = setClientNotAvailable (site_exec S) (site_manager S) k (the_registry (reg (conc \<omega>)))"
proof -
  have ease: "\<forall>t. pc (reg (conc \<omega>)) t = Idle" "\<not> clientMapLock (reg (conc \<omega>))"
    using assms(2) by (simp_all add: at_ease_def)
  from whole_run.whole_more [OF assms(1) whole_step.callback [OF assms(6)]]
  have 1: "whole_run S w (tr @ [Callback s]) (\<omega>\<lparr>conc := \<kappa>1\<rparr>)"
    by (simp add: hooks_after_def calls_in_def assms(5))
  obtain n \<kappa>2 where 2: "whole_run S w ((tr @ [Callback s]) @ replicate n (Callback s)) (\<omega>\<lparr>conc := \<kappa>1, conc := \<kappa>2\<rparr>)"
    "phase_of \<kappa>2 = (phase_of (conc \<omega>))(s := p)" "socket_count \<kappa>2 = socket_count \<kappa>1"
    "\<forall>t. pc (reg \<kappa>2) t = Idle" "\<not> clientMapLock (reg \<kappa>2)"
    "clients (the_registry (reg \<kappa>2)) = map_effect (NotAvailable k :: 's op) (clients (the_registry (reg (conc \<omega>))))"
    "db (the_registry (reg \<kappa>2)) = db_effect (site_exec S) (site_manager S) (NotAvailable k :: 's op)
       (db (the_registry (reg (conc \<omega>))))"
    by (rule operation_whole [OF 1, of s "NotAvailable k"]) (use assms(7,8) ease in \<open>auto simp: call_op_def\<close>)
  let ?\<kappa>3 = "\<kappa>2\<lparr>phase_of := (phase_of \<kappa>2)(s := q)\<rparr>"
  have "conn_step (site_exec S) (site_manager S) (site_config S) s (conc (\<omega>\<lparr>conc := \<kappa>1, conc := \<kappa>2\<rparr>)) ?\<kappa>3"
    using assms(9) [of \<kappa>2] 2(2,4) by simp
  note whole_run.whole_more [OF 2(1) whole_step.callback [OF this]]
  moreover have "hooks_after (site_config S) s \<kappa>2 ?\<kappa>3 (hooks \<omega>) = hooks \<omega>" "calls_in s \<kappa>2 ?\<kappa>3 = []"
    using assms(3,4) 2(2) by (auto simp: hooks_after_def calls_in_def split: phase.splits)
  ultimately have "whole_run S w (tr @ replicate (Suc (Suc n)) (Callback s)) (\<omega>\<lparr>conc := ?\<kappa>3\<rparr>)"
    by (simp add: replicate_append_same)
  moreover have "the_registry (reg \<kappa>2) = setClientNotAvailable (site_exec S) (site_manager S) k (the_registry (reg (conc \<omega>)))"
    using 2(6,7) by (simp add: setClientNotAvailable_def Let_def split: prod.split)
  ultimately show ?thesis using 2(2-5) by (intro exI [of _ "Suc (Suc n)"] exI [of _ ?\<kappa>3]) simp
qed

lemma live_serving: "at_ease \<omega> \<Longrightarrow> counted (phase_of (conc \<omega>) s) \<Longrightarrow> hooks \<omega> s = Some l \<Longrightarrow>
    phase_of (conc \<omega>) s = Serving (clientID l)"
  unfolding at_ease_def by (cases "phase_of (conc \<omega>) s") (force dest: spec [of _ s])+

lemma close_leaves:
  assumes "whole_run S w tr \<omega>" "at_ease \<omega>" "phase_of (conc \<omega>) s = Serving k"
  obtains n \<kappa> where "whole_run S w (tr @ replicate n (Callback s)) (\<omega>\<lparr>conc := \<kappa>\<rparr>)"
    "phase_of \<kappa> = phase_of (conc \<omega>)" "socket_count \<kappa> = socket_count (conc \<omega>)"
    "\<forall>t. pc (reg \<kappa>) t = Idle" "\<not> clientMapLock (reg \<kappa>)"
    "the_registry (reg \<kappa>) = setClientNotAvailable (site_exec S) (site_manager S) k (the_registry (reg (conc \<omega>)))"
  using leaving_whole [OF assms(1,2) _ _ assms(3) conn_step.closes [OF assms(3)], of "Closing k" "Serving k"]
  by (auto simp: conn_step.closed fun_upd_idem [of "phase_of (conc \<omega>)", OF assms(3)])

lemma destruction_leaves:
  assumes "whole_run S w tr \<omega>" "at_ease \<omega>" "phase_of (conc \<omega>) s = Serving k"
  obtains n \<kappa> where "whole_run S w (tr @ replicate n (Callback s)) (\<omega>\<lparr>conc := \<kappa>\<rparr>)"
    "phase_of \<kappa> = (phase_of (conc \<omega>))(s := Gone)" "socket_count \<kappa> = socket_count (conc \<omega>) - 1"
    "\<forall>t. pc (reg \<kappa>) t = Idle" "\<not> clientMapLock (reg \<kappa>)"
    "the_registry (reg \<kappa>) = setClientNotAvailable (site_exec S) (site_manager S) k (the_registry (reg (conc \<omega>)))"
  using leaving_whole [OF assms(1,2) _ _ assms(3) conn_step.destroys [OF assms(3)], of "Destroying k" Gone]
  by (auto simp: conn_step.destroyed)

lemma closed_whole:
  assumes "whole_run S w tr \<omega>" "at_ease \<omega>" "gw_step S (Close s cc msg) (sys (exchanges_of \<omega>)) \<sigma>"
  shows "\<exists>n \<omega>'. whole_run S w (tr @ replicate n (Callback s)) \<omega>' \<and> at_ease \<omega>'
    \<and> exchanges_of \<omega>' = (exchanges_of \<omega>)\<lparr>sys := \<sigma>\<rparr>"
proof -
  from assms(3) obtain l where l: "hooks \<omega> s = Some l" "counted (phase_of (conc \<omega>) s)"
    by (auto simp: gw_step_simps)
  have \<sigma>: "\<sigma> = (sys (exchanges_of \<omega>))\<lparr>gw := (gw (sys (exchanges_of \<omega>)))\<lparr>registry :=
      setClientNotAvailable (site_exec S) (site_manager S) (clientID l) (the_registry (reg (conc \<omega>)))\<rparr>\<rparr>"
    using assms(3) l(1) by (auto simp: gw_step_simps onClose_def) (auto simp: exchanges_of_def)
  obtain n \<kappa> where k: "whole_run S w (tr @ replicate n (Callback s)) (\<omega>\<lparr>conc := \<kappa>\<rparr>)"
    "phase_of \<kappa> = phase_of (conc \<omega>)" "socket_count \<kappa> = socket_count (conc \<omega>)"
    "\<forall>t. pc (reg \<kappa>) t = Idle" "\<not> clientMapLock (reg \<kappa>)"
    "the_registry (reg \<kappa>) = setClientNotAvailable (site_exec S) (site_manager S) (clientID l) (the_registry (reg (conc \<omega>)))"
    using close_leaves [OF assms(1,2) live_serving [OF assms(2) l(2,1)]] .
  have "exchanges_of (\<omega>\<lparr>conc := \<kappa>\<rparr>) = (exchanges_of \<omega>)\<lparr>sys := \<sigma>\<rparr>"
    using k(2,3,6) by (intro whole_eqI) (simp_all add: \<sigma>, simp add: exchanges_of_def)
  moreover have "at_ease (\<omega>\<lparr>conc := \<kappa>\<rparr>)" using assms(2) k(2,4,5) by (simp add: at_ease_def)
  ultimately show ?thesis using k(1) by blast
qed

lemma destroyed_whole:
  assumes "whole_run S w tr \<omega>" "at_ease \<omega>" "gw_step S (Destroyed s) (sys (exchanges_of \<omega>)) \<sigma>"
  shows "\<exists>n \<omega>'. whole_run S w (tr @ replicate n (Callback s)) \<omega>' \<and> at_ease \<omega>'
    \<and> exchanges_of \<omega>' = (exchanges_of \<omega>)\<lparr>sys := \<sigma>\<rparr>"
proof -
  from assms(3) obtain l where l: "hooks \<omega> s = Some l" "counted (phase_of (conc \<omega>) s)"
    by (auto simp: gw_step_simps onBeforeDestroy_Inr)
  have \<sigma>: "\<sigma> = (sys (exchanges_of \<omega>))\<lparr>gw := (gw (sys (exchanges_of \<omega>)))\<lparr>SOCKETS := socket_count (conc \<omega>) - 1, registry :=
      setClientNotAvailable (site_exec S) (site_manager S) (clientID l) (the_registry (reg (conc \<omega>)))\<rparr>,
      live := {t. counted (phase_of (conc \<omega>) t)} - {s}\<rparr>"
    using assms(3) l(1) by (auto simp: gw_step_simps onBeforeDestroy_Inr onClose_def) (auto simp: exchanges_of_def)
  obtain n \<kappa> where k: "whole_run S w (tr @ replicate n (Callback s)) (\<omega>\<lparr>conc := \<kappa>\<rparr>)"
    "phase_of \<kappa> = (phase_of (conc \<omega>))(s := Gone)" "socket_count \<kappa> = socket_count (conc \<omega>) - 1"
    "\<forall>t. pc (reg \<kappa>) t = Idle" "\<not> clientMapLock (reg \<kappa>)"
    "the_registry (reg \<kappa>) = setClientNotAvailable (site_exec S) (site_manager S) (clientID l) (the_registry (reg (conc \<omega>)))"
    using destruction_leaves [OF assms(1,2) live_serving [OF assms(2) l(2,1)]] .
  have "exchanges_of (\<omega>\<lparr>conc := \<kappa>\<rparr>) = (exchanges_of \<omega>)\<lparr>sys := \<sigma>\<rparr>"
    using k(2,3,6) by (intro whole_eqI) (auto simp: \<sigma>)
  moreover have "at_ease (\<omega>\<lparr>conc := \<kappa>\<rparr>)" using assms(2) k(2,4,5) l(1) by (simp add: at_ease_def)
  ultimately show ?thesis using k(1) by blast
qed

lemma happens_keeps:
  assumes "ex_step S h (exchanges_of \<omega>) \<chi>" "may_happen (phase_of (conc \<omega>)) h"
  shows "exchanges_of (with_exchanges \<chi> \<omega>) = \<chi>"
    and "map_option clientID (listeners (gw (sys \<chi>)) s) = map_option clientID (hooks \<omega> s)"
proof -
  have "SOCKETS (gw (sys \<chi>)) = socket_count (conc \<omega>) \<and> registry (gw (sys \<chi>)) = the_registry (reg (conc \<omega>))"
    using assms(1)
  proof (cases rule: ex_step.cases)
    case (from_outside e \<sigma>)
    from from_outside(3) show ?thesis
      by (cases rule: gw_step.cases) (use assms(2) from_outside(1,2) in \<open>auto simp: exchanges_of_def\<close>)
  qed (auto simp: exchanges_of_def overwrite_port_def)
  moreover have "sees {} (exchanges_of \<omega>) (exchanges_of \<omega>)" by (simp add: sees_def)
  from happens_seen [OF assms(1) this assms(2)]
  obtain \<alpha>' where "follows {} (exchanges_of \<omega>) \<chi> (exchanges_of \<omega>) \<alpha>'" by blast
  then have live: "live (sys \<chi>) = live (sys (exchanges_of \<omega>))" and ids: "hk \<chi> t = hk \<alpha>' t"
      "map_option clientID (hk \<alpha>' t) = map_option clientID (hooks \<omega> t)" for t
    by (auto simp: follows_def sees_def hk_def [of "exchanges_of _"])
  ultimately show "exchanges_of (with_exchanges \<chi> \<omega>) = \<chi>" by (intro whole_eqI) simp_all
  show "map_option clientID (listeners (gw (sys \<chi>)) s) = map_option clientID (hooks \<omega> s)"
    using ids [of s] by (simp add: hk_def)
qed

lemma idle_whole_ease: "at_ease (idle_whole w)" "exchanges_of (idle_whole w) = \<lparr>sys = idle_system w, stages = []\<rparr>"
  by (simp_all add: at_ease_def idle_whole_def no_connections_def start_state_def exchanges_of_def idle_system_def
      fresh_gateway_def)

lemma callbacks_appended [simp]: "arrived (tr @ replicate n (Callback t)) = arrived tr"
  by (induction n) (simp_all add: arrived_def)

lemma happens_arrived: "arrived (tr @ [Happens h]) = arrived tr @ (case h of Outside e \<Rightarrow> [e] | _ \<Rightarrow> [])"
  by (cases h) (simp_all add: arrived_def)

lemma callback_whole:
  assumes "whole_run S w tr \<omega>" "at_ease \<omega>" "ex_step S h (exchanges_of \<omega>) \<chi>" "\<not> may_happen (phase_of (conc \<omega>)) h"
  shows "\<exists>s n \<omega>' e. whole_run S w (tr @ replicate n (Callback s)) \<omega>' \<and> at_ease \<omega>' \<and> exchanges_of \<omega>' = \<chi>
    \<and> h = Outside e \<and> (\<forall>t. frame_of t e = [])"
proof -
  from assms(3) obtain e \<sigma> where e: "h = Outside e" "gw_step S e (sys (exchanges_of \<omega>)) \<sigma>" "\<not> is_finished e"
    "\<chi> = (exchanges_of \<omega>)\<lparr>sys := \<sigma>,
       stages := coroutines \<omega> @ replicate (length (pending \<sigma>) - length (queue \<omega>)) None\<rparr>"
    using assms(4) by (cases rule: ex_step.cases) auto
  have serving: "\<exists>k. phase_of (conc \<omega>) s = Serving k" if "counted (phase_of (conc \<omega>) s)" for s
    using that assms(2) by (cases "phase_of (conc \<omega>) s") (auto simp: at_ease_def dest: spec [of _ s])
  have kinds: "(\<exists>s params peer. e = Created s params peer) \<or> (\<exists>s cc msg. e = Close s cc msg) \<or> (\<exists>s. e = Destroyed s)"
    using assms(4) e(1-3) by (cases e) (auto simp: gw_step_simps dest!: serving)
  have "\<exists>s n \<omega>'. whole_run S w (tr @ replicate n (Callback s)) \<omega>' \<and> at_ease \<omega>'
      \<and> exchanges_of \<omega>' = (exchanges_of \<omega>)\<lparr>sys := \<sigma>\<rparr>"
    using kinds created_whole [OF assms(1,2)] closed_whole [OF assms(1,2)] destroyed_whole [OF assms(1,2)] e(2) by blast
  moreover have "pending \<sigma> = queue \<omega>" using e(2) kinds by (auto simp: gw_step_simps)
  then have "\<chi> = (exchanges_of \<omega>)\<lparr>sys := \<sigma>\<rparr>" using e(4) by simp
  moreover have "\<forall>t. frame_of t e = []" using kinds by auto
  ultimately show ?thesis using e(1) by metis
qed

lemma atomic_runs_whole:
  "ex_run S w tr \<chi> \<Longrightarrow> \<exists>wtr \<omega>. whole_run S w wtr \<omega> \<and> at_ease \<omega> \<and> exchanges_of \<omega> = \<chi>
     \<and> (\<forall>s. frames_of s (arrived wtr) = frames_of s (outside_events tr))"
proof (induction rule: ex_run.induct)
  case ex_start
  have "at_ease (idle_whole w)" "exchanges_of (idle_whole w) = \<lparr>sys = idle_system w, stages = []\<rparr>"
    by (simp_all add: idle_whole_ease)
  with whole_run.whole_start show ?case by (fastforce simp: arrived_def)
next
  case (ex_more tr \<chi> h \<chi>')
  then obtain wtr \<omega> where o: "whole_run S w wtr \<omega>" "at_ease \<omega>" "exchanges_of \<omega> = \<chi>"
    "\<forall>s. frames_of s (arrived wtr) = frames_of s (outside_events tr)" by blast
  have step: "ex_step S h (exchanges_of \<omega>) \<chi>'" using ex_more(2) o(3) by simp
  show ?case
  proof (cases "may_happen (phase_of (conc \<omega>)) h")
    case True
    have "at_ease (with_exchanges \<chi>' \<omega>)" using o(2) happens_keeps(2) [OF step True] by (simp add: at_ease_def)
    then show ?thesis
      using happens_keeps(1) [OF step True] o(4) happens_arrived [of wtr h]
        whole_run.whole_more [OF o(1) whole_step.happens [OF step True]]
      by (intro exI [of _ "wtr @ [Happens h]"] exI) auto
  next
    case False
    from callback_whole [OF o(1,2) step False] obtain s n \<omega>' e where
      w: "whole_run S w (wtr @ replicate n (Callback s)) \<omega>'" "at_ease \<omega>'" "exchanges_of \<omega>' = \<chi>'" "h = Outside e"
      "\<forall>t. frame_of t e = []" by blast
    then show ?thesis
      using o(4) by (intro exI [of _ "wtr @ replicate n (Callback s)"] exI [of _ \<omega>']) simp
  qed
qed

lemma first_message:
  \<comment> \<open>a vehicle connects and sends an empty message\<close>
  fixes s :: 's and w :: 'w
  shows "\<exists>n (\<omega> :: ('s, 'w, 'v, 'f) whole). whole_run S w (replicate n (Callback s) @ [Happens (Outside (Frame s [] now))]) \<omega>
    \<and> {t. counted (phase_of (conc \<omega>) t)} = {s} \<and> clients (the_registry (reg (conc \<omega>))) k = Some s
    \<and> length (queue \<omega>) = 1"
proof -
  let ?e = "Created s [''ClientId'' \<mapsto> Some k] None"
  obtain \<sigma> :: "('s, 'w, 'v, 'f) system" where \<sigma>: "gw_run S w ([] @ [?e]) \<sigma>" "live \<sigma> = {s}" "pending \<sigma> = []"
    "clients (registry (gw \<sigma>)) k = Some s" "listeners (gw \<sigma>) s = Some (fresh_listener S k)"
    using first_connection [of S w s k] unfolding fresh_listener_def by auto
  from \<sigma>(1) obtain \<rho> where "gw_run S w [] \<rho>" "gw_step S ?e \<rho> \<sigma>" by (rule gw_run_snocE)
  then have "gw_step S ?e (sys (exchanges_of (idle_whole w))) \<sigma>"
    by (auto simp: idle_whole_ease(2) elim: gw_run_NilE)
  from created_whole [OF whole_run.whole_start idle_whole_ease(1) this]
  obtain n \<omega> where o: "whole_run S w (replicate n (Callback s)) \<omega>" "at_ease \<omega>"
    "exchanges_of \<omega> = (exchanges_of (idle_whole w))\<lparr>sys := \<sigma>\<rparr>" by auto
  have sys: "sys (exchanges_of \<omega>) = \<sigma>" using o(3) by simp
  have h: "hooks \<omega> s = Some (fresh_listener S k)" "{t. counted (phase_of (conc \<omega>) t)} = {s}"
    "clients (the_registry (reg (conc \<omega>))) k = Some s" "queue \<omega> = []"
    using \<sigma>(2-5) by (simp_all add: sys [symmetric] exchanges_of_def)
  let ?l = "fresh_listener S k" and ?f = "Frame s [] now"
  have fresh: "m_messageBuffer ?l = []" by (simp add: fresh_listener_def WebSocketListener_def)
  have "gw_step S ?f \<sigma> (\<sigma>\<lparr>gw := (gw \<sigma>)\<lparr>listeners := (listeners (gw \<sigma>))(s \<mapsto> ?l\<lparr>m_messageBuffer := []\<rparr>)\<rparr>,
      pending := pending \<sigma> @ spawn s (Some (m_messageBuffer ?l, show_int now))\<rparr>)"
    using \<sigma>(2,5) by (intro gw_step.frame [where l = ?l]) (simp_all add: readMessage_def fresh max_size_def)
  then have "gw_step S ?f (sys (exchanges_of \<omega>)) (\<sigma>\<lparr>gw := (gw \<sigma>)\<lparr>listeners := (listeners (gw \<sigma>))
      (s \<mapsto> ?l\<lparr>m_messageBuffer := []\<rparr>)\<rparr>, pending := pending \<sigma> @ spawn s (Some (m_messageBuffer ?l, show_int now))\<rparr>)"
    by (simp only: sys)
  from ex_step.from_outside [OF this]
  obtain \<chi> where x: "ex_step S (Outside ?f) (exchanges_of \<omega>) \<chi>" "length (pending (sys \<chi>)) = 1"
    using \<sigma>(3) by (auto simp: spawn_def)
  have "phase_of (conc \<omega>) s = Serving k" using live_serving [OF o(2) _ h(1)] h(2) by auto
  then have "may_happen (phase_of (conc \<omega>)) (Outside ?f)" by simp
  from whole_run.whole_more [OF o(1) whole_step.happens [OF x(1) this]] show ?thesis
    using h(2,3) x(2) by (intro exI [of _ n] exI [of _ "with_exchanges \<chi> \<omega>"]) simp
qed

section \<open>The counter\<close>

lemma ex_run_counter: "ex_run S w tr \<chi> \<Longrightarrow> SOCKETS (gw (sys \<chi>)) = of_nat (card (live (sys \<chi>)))"
proof -
  assume "ex_run S w tr \<chi>"
  from run_simulated [OF this] obtain atr \<tau> where a: "gw_run S w atr \<tau>" "simulates S \<chi> \<tau>" by blast
  then have "SOCKETS (gw (sys \<chi>)) = SOCKETS (gw \<tau>)" "live (sys \<chi>) = live \<tau>"
    by (simp_all add: simulates_def same_view_def same_gateway_def)
  then show ?thesis using run_conn_inv [OF a(1)] by (simp add: conn_inv_def)
qed

lemma whole_counter: "whole_run S w tr \<omega> \<Longrightarrow> socket_count (conc \<omega>) = of_nat (card {s. counted (phase_of (conc \<omega>) s)})"
  using whole_conn_run concurrent_registry_sound by metis

section \<open>Rest\<close>

lemma at_rest_answered:
  \<comment> \<open>where no coroutine can go on, every message has been answered\<close>
  assumes "whole_run S w tr \<omega>" "site_ok S" "field_laws (site_beast S) get"
    and "\<nexists>a \<omega>'. is_exchange a \<and> whole_step S a \<omega> \<omega>'"
  shows "queue \<omega> = []" "messages s (arrived tr) = length (texts_to s (calls_made \<omega>))"
proof -
  show "queue \<omega> = []"
  proof (rule ccontr)
    assume "queue \<omega> \<noteq> []"
    then obtain h \<omega>' where "h \<in> {Begin 0 0, Resume 0 Failed, Complete 0}" "whole_step S (Happens h) \<omega> \<omega>'"
      using whole_progress [OF assms(2,1), of 0 0] by blast
    moreover from this(1) have "is_exchange (Happens h)" by auto
    ultimately show False using assms(4) by blast
  qed
  then show "messages s (arrived tr) = length (texts_to s (calls_made \<omega>))"
    using whole_serves(1) [OF assms(1-3), of s] by (simp add: waiting_def)
qed

section \<open>Properties\<close>

text \<open>
  C3. The whole gateway is sound, with all its concurrency at once: however the callbacks of
  sockets, the registry operations inside them and the coroutines interleave, the counter
  is the number of sockets between creation and destruction, an id leads only to a
  socket that was opened under it and no message is handed to one that is gone, no socket
  waits for the lock for good; each complete message is waiting for its exchange or answered
  by one text; and every request written names the configured host and the id of the
  listener of its socket, the id under which that socket was opened.
\<close>

theorem whole_gateway_sound:
  assumes "whole_run S w tr \<omega>" "site_ok S" "field_laws (site_beast S) get"
  shows "socket_count (conc \<omega>) = of_nat (card {s. counted (phase_of (conc \<omega>) s)})
    \<and> (\<forall>k s. clients (the_registry (reg (conc \<omega>))) k = Some s \<longrightarrow> phase_id (phase_of (conc \<omega>) s) = Some k)
    \<and> (\<forall>k msg s c. (s, c) \<in> set (sendTextMessageToClient (the_registry (reg (conc \<omega>))) k msg) \<longrightarrow>
         phase_of (conc \<omega>) s \<notin> {Absent, Gone})
    \<and> (\<forall>s op. pc (reg (conc \<omega>)) s = Spinning op \<longrightarrow> (\<exists>t \<omega>'. whole_step S (Callback t) \<omega> \<omega>' \<and> conc \<omega>' \<noteq> conc \<omega>))
    \<and> (\<forall>s. messages s (arrived tr) = waiting s \<omega> + length (texts_to s (calls_made \<omega>)))
    \<and> (\<forall>(s, rq) \<in> set (to_backend \<omega>). get (rq_fields rq) ''Host'' = Some (http_request_address (site_config S))
         \<and> (\<exists>vin. map_option clientID (hooks \<omega> s) = Some vin \<and> get (rq_fields rq) ''X-Client-ID'' = Some vin
              \<and> phase_of (conc \<omega>) s \<in> {Serving vin, Closing vin, Destroying vin, Gone}))"
proof -
  obtain past where past: "conn_run (site_exec S) (site_manager S) (site_config S) w past (conc \<omega>)"
    using whole_conn_run [OF assms(1)] by blast
  have spin: "\<exists>t \<omega>'. whole_step S (Callback t) \<omega> \<omega>' \<and> conc \<omega>' \<noteq> conc \<omega>" if sp: "pc (reg (conc \<omega>)) s = Spinning op" for s op
  proof -
    obtain t \<kappa> where t: "conn_step (site_exec S) (site_manager S) (site_config S) t (conc \<omega>) \<kappa>" "\<kappa> \<noteq> conc \<omega>"
      using conn_progress [OF past sp] by blast
    from whole_step.callback [OF t(1)] t(2) show ?thesis by fastforce
  qed
  have "get (rq_fields rq) ''Host'' = Some (http_request_address (site_config S))
      \<and> (\<exists>vin. map_option clientID (hooks \<omega> s) = Some vin \<and> get (rq_fields rq) ''X-Client-ID'' = Some vin
           \<and> phase_of (conc \<omega>) s \<in> {Serving vin, Closing vin, Destroying vin, Gone})"
    if "(s, rq) \<in> set (to_backend \<omega>)" for s rq
    using whole_serves(2) [OF assms that] hook_id [OF assms(1), of s] by fastforce
  then show ?thesis
    using concurrent_registry_sound [OF past] spin whole_serves(1) [OF assms] by blast
qed

lemma whole_gateway_sound_witness:
  "\<exists>n (\<omega> :: (nat, string \<Rightarrow> string option, string, headers) whole).
     whole_run sample_site Map.empty (replicate n (Callback 1) @ [Happens (Outside (Frame 1 [] 7))]) \<omega>
     \<and> clients (the_registry (reg (conc \<omega>))) ''V1'' = Some 1 \<and> socket_count (conc \<omega>) = 1
     \<and> waiting 1 \<omega> + length (texts_to 1 (calls_made \<omega>)) = 1"
proof -
  obtain n and \<omega> :: "(nat, string \<Rightarrow> string option, string, headers) whole" where
    o: "whole_run sample_site Map.empty (replicate n (Callback 1) @ [Happens (Outside (Frame 1 [] 7))]) \<omega>"
    "{s. counted (phase_of (conc \<omega>) s)} = {1}" "clients (the_registry (reg (conc \<omega>))) ''V1'' = Some 1"
    using first_message [of sample_site Map.empty 1 7 "''V1''"] by blast
  note sound = whole_gateway_sound [OF o(1) sample_site_ok]
  have "socket_count (conc \<omega>) = 1" using sound [THEN conjunct1] o(2) by simp
  moreover have "messages 1 (arrived (replicate n (Callback 1) @
      [Happens (Outside (Frame 1 [] 7))] :: (nat, string, headers) activity list)) = 1"
    by (simp add: arrived_def messages_def)
  then have "waiting 1 \<omega> + length (texts_to 1 (calls_made \<omega>)) = 1"
    using sound [THEN conjunct2, THEN conjunct2, THEN conjunct2, THEN conjunct2, THEN conjunct1] by metis
  ultimately show ?thesis using o(1,3) by blast
qed

text \<open>
  C5. Every message is answered if the coroutines are let run: in every run of the whole
  gateway the coroutines have made at most six steps for each complete message, those that
  they can still make included; every exchange that has not ended can make one, whatever the
  callbacks and the holder of the lock are doing; and once no coroutine can go on,
  each message has been answered by one text.
\<close>

theorem coroutines_end:
  assumes "whole_run S w tr \<omega>" "site_ok S" "field_laws (site_beast S) get"
  shows "exchange_steps tr + work (exchanges_of \<omega>) \<le> 6 * all_messages (arrived tr)
    \<and> (\<forall>i < length (queue \<omega>). \<exists>h \<omega>'. h \<in> {Begin i draw, Resume i Failed, Complete i} \<and> whole_step S (Happens h) \<omega> \<omega>')
    \<and> ((\<nexists>a \<omega>'. is_exchange a \<and> whole_step S a \<omega> \<omega>') \<longrightarrow>
         (\<forall>s. messages s (arrived tr) = length (texts_to s (calls_made \<omega>))))"
  using whole_progress [OF assms(2,1), of _ draw] whole_work [OF assms(1)] at_rest_answered(2) [OF assms] by blast

lemma coroutines_end_witness:
  "\<exists>n (\<omega> :: (nat, string \<Rightarrow> string option, string, headers) whole) h \<omega>'.
     whole_run sample_site Map.empty (replicate n (Callback 1) @ [Happens (Outside (Frame 1 [] 7))]) \<omega>
     \<and> length (queue \<omega>) = 1 \<and> work (exchanges_of \<omega>) \<le> 6 \<and> whole_step sample_site (Happens h) \<omega> \<omega>'
     \<and> h \<in> {Begin 0 0, Resume 0 Failed, Complete 0}"
proof -
  obtain n and \<omega> :: "(nat, string \<Rightarrow> string option, string, headers) whole" where
    o: "whole_run sample_site Map.empty (replicate n (Callback 1) @ [Happens (Outside (Frame 1 [] 7))]) \<omega>"
    "length (queue \<omega>) = 1"
    using first_message [of sample_site Map.empty 1 7 "''V1''"] by blast
  note ends = coroutines_end [OF o(1) sample_site_ok, of 0]
  have "all_messages (arrived (replicate n (Callback 1) @
      [Happens (Outside (Frame 1 [] 7))] :: (nat, string, headers) activity list)) = 1"
    by (simp add: arrived_def all_messages_def)
  then have "work (exchanges_of \<omega>) \<le> 6" using ends [THEN conjunct1] by linarith
  moreover have "0 < length (queue \<omega>)" using o(2) by simp
  then obtain h \<omega>' where "h \<in> {Begin 0 0, Resume 0 Failed, Complete 0}" "whole_step sample_site (Happens h) \<omega> \<omega>'"
    using ends by blast
  ultimately show ?thesis using o by blast
qed

lemma whole_registry:
  assumes "whole_run S w tr \<omega>"
  shows "lock_inv (reg (conc \<omega>)) \<and> log_inv (site_exec S) (site_manager S) \<lparr>clients = Map.empty, db = w\<rparr> (reg (conc \<omega>))"
proof -
  obtain past where "conn_run (site_exec S) (site_manager S) (site_config S) w past (conc \<omega>)"
    using whole_conn_run [OF assms] by blast
  note run = conn_run_reachable [OF this]
  show ?thesis using reachable_lock_inv [OF run] reachable_log_inv [OF run] ..
qed

text \<open>
  C6. Callbacks taken apart at their registry operations against callbacks as they are written.
  Every run in which each callback is one step is a run of the whole gateway that leaves no
  callback in the middle of an operation, with the same registry, table, counter, listeners,
  jobs, coroutines, calls and requests: the steps of an operation compose to the operation. And
  for every run of the whole, whatever overlaps, there is a run with callbacks as single
  steps in which every socket sends the same frames and that ends with the same open sockets,
  counter, listeners, jobs, coroutines, calls and requests. The registry of the whole run is what
  its operations make one after the other: at most one callback holds the lock, the map is the
  result of the updates in one order and the table that of the statements in one order, and the
  operations of a socket come in the same sequence in both, none lost and none twice. The two
  orders need not be the same, so nothing is said of the map and the table of the other run.
\<close>

theorem callbacks_atomic:
  "(ex_run S w atr \<chi> \<longrightarrow> (\<exists>tr \<omega>. whole_run S w tr \<omega> \<and> exchanges_of \<omega> = \<chi>
      \<and> (\<forall>s. pc (reg (conc \<omega>)) s = Idle) \<and> \<not> clientMapLock (reg (conc \<omega>))
      \<and> (\<forall>s. frames_of s (arrived tr) = frames_of s (outside_events atr))))
    \<and> (whole_run S w tr \<omega> \<longrightarrow> (\<exists>atr \<chi>. ex_run S w atr \<chi>
      \<and> (\<forall>s. frames_of s (outside_events atr) = frames_of s (arrived tr))
      \<and> SOCKETS (gw (sys \<chi>)) = socket_count (conc \<omega>) \<and> live (sys \<chi>) = {s. counted (phase_of (conc \<omega>) s)}
      \<and> (\<forall>s. \<not> is_opening (phase_of (conc \<omega>) s) \<longrightarrow> listeners (gw (sys \<chi>)) s = hooks \<omega> s)
      \<and> pending (sys \<chi>) = queue \<omega> \<and> stages \<chi> = coroutines \<omega>
      \<and> socket_calls (sys \<chi>) = calls_made \<omega> \<and> wire (sys \<chi>) = to_backend \<omega>))
    \<and> (whole_run S w tr \<omega> \<longrightarrow>
        (\<exists>owner. (clientMapLock (reg (conc \<omega>)) \<longleftrightarrow> owner \<noteq> None)
          \<and> (\<forall>s. holding (pc (reg (conc \<omega>)) s) \<longleftrightarrow> owner = Some s))
      \<and> clients (the_registry (reg (conc \<omega>))) = fold map_effect (map snd (map_log (reg (conc \<omega>)))) Map.empty
      \<and> db (the_registry (reg (conc \<omega>)))
          = fold (db_effect (site_exec S) (site_manager S)) (map snd (db_log (reg (conc \<omega>)))) w
      \<and> (\<forall>s. ops_of s (map_log (reg (conc \<omega>)))
          = ops_of s (db_log (reg (conc \<omega>))) @ unwritten (pc (reg (conc \<omega>)) s)))"
proof (intro conjI [OF impI conjI [OF impI impI]])
  assume "ex_run S w atr \<chi>"
  from atomic_runs_whole [OF this] show "\<exists>tr \<omega>. whole_run S w tr \<omega> \<and> exchanges_of \<omega> = \<chi>
      \<and> (\<forall>s. pc (reg (conc \<omega>)) s = Idle) \<and> \<not> clientMapLock (reg (conc \<omega>))
      \<and> (\<forall>s. frames_of s (arrived tr) = frames_of s (outside_events atr))"
    unfolding at_ease_def by blast
next
  assume "whole_run S w tr \<omega>"
  from whole_simulated [OF this] obtain atr \<alpha> where a: "ex_run S w atr \<alpha>" "matches S \<omega> \<alpha> (outside_events atr)"
    "\<forall>s. frames_of s (outside_events atr) = frames_of s (arrived tr)" by blast
  have "listeners (gw (sys \<alpha>)) s = hooks \<omega> s" if "\<not> is_opening (phase_of (conc \<omega>) s)" for s
    using hooks_seen [OF a(2), of s] that by (simp add: being_opened_def hk_def)
  moreover have live: "live (sys \<alpha>) = {s. counted (phase_of (conc \<omega>) s)}"
    using a(2) by (simp add: matches_def sees_def)
  moreover have "SOCKETS (gw (sys \<alpha>)) = socket_count (conc \<omega>)"
    using ex_run_counter [OF a(1)] whole_counter [OF \<open>whole_run S w tr \<omega>\<close>] live by simp
  ultimately show "\<exists>atr \<chi>. ex_run S w atr \<chi>
      \<and> (\<forall>s. frames_of s (outside_events atr) = frames_of s (arrived tr))
      \<and> SOCKETS (gw (sys \<chi>)) = socket_count (conc \<omega>) \<and> live (sys \<chi>) = {s. counted (phase_of (conc \<omega>) s)}
      \<and> (\<forall>s. \<not> is_opening (phase_of (conc \<omega>) s) \<longrightarrow> listeners (gw (sys \<chi>)) s = hooks \<omega> s)
      \<and> pending (sys \<chi>) = queue \<omega> \<and> stages \<chi> = coroutines \<omega>
      \<and> socket_calls (sys \<chi>) = calls_made \<omega> \<and> wire (sys \<chi>) = to_backend \<omega>"
    using a by (intro exI [of _ atr] exI [of _ \<alpha>]) (simp add: matches_def sees_def)
next
  assume "whole_run S w tr \<omega>"
  from whole_registry [OF this] show "(\<exists>owner. (clientMapLock (reg (conc \<omega>)) \<longleftrightarrow> owner \<noteq> None)
          \<and> (\<forall>s. holding (pc (reg (conc \<omega>)) s) \<longleftrightarrow> owner = Some s))
      \<and> clients (the_registry (reg (conc \<omega>))) = fold map_effect (map snd (map_log (reg (conc \<omega>)))) Map.empty
      \<and> db (the_registry (reg (conc \<omega>)))
          = fold (db_effect (site_exec S) (site_manager S)) (map snd (db_log (reg (conc \<omega>)))) w
      \<and> (\<forall>s. ops_of s (map_log (reg (conc \<omega>)))
          = ops_of s (db_log (reg (conc \<omega>))) @ unwritten (pc (reg (conc \<omega>)) s))"
    by (simp add: lock_inv_def log_inv_def)
qed

lemma callbacks_atomic_witness:
  "\<exists>tr (\<omega> :: (nat, string \<Rightarrow> string option, string, headers) whole) atr (\<chi> :: (nat, string \<Rightarrow> string option, string, headers) suspended).
     whole_run sample_site Map.empty tr \<omega> \<and> length (to_backend \<omega>) = 1 \<and> pc (reg (conc \<omega>)) 1 = Idle
     \<and> ex_run sample_site Map.empty atr \<chi> \<and> SOCKETS (gw (sys \<chi>)) = socket_count (conc \<omega>) \<and> wire (sys \<chi>) = to_backend \<omega>"
proof -
  obtain atr and \<chi> :: "(nat, string \<Rightarrow> string option, string, headers) suspended" and rq where
    x: "ex_run sample_site Map.empty atr \<chi>" "wire (sys \<chi>) = [(1, rq)]"
    using sample_answered by blast
  obtain tr and \<omega> :: "(nat, string \<Rightarrow> string option, string, headers) whole" where
    o: "whole_run sample_site Map.empty tr \<omega>" "exchanges_of \<omega> = \<chi>" "pc (reg (conc \<omega>)) 1 = Idle"
    using callbacks_atomic [of sample_site Map.empty atr \<chi>, THEN conjunct1] x(1) by blast
  have "length (to_backend \<omega>) = 1" using x(2) by (simp add: o(2) [symmetric])
  moreover obtain atr' and \<chi>' :: "(nat, string \<Rightarrow> string option, string, headers) suspended" where
    "ex_run sample_site Map.empty atr' \<chi>'" "SOCKETS (gw (sys \<chi>')) = socket_count (conc \<omega>)" "wire (sys \<chi>') = to_backend \<omega>"
    using callbacks_atomic [THEN conjunct2, THEN conjunct1, of sample_site Map.empty tr \<omega>] o(1) by blast
  ultimately show ?thesis using o(1,3) by blast
qed

end
