(* ===== verification/Message_Flow.thy ===== *)
theory Message_Flow
  imports Whole_Runs
begin

text \<open>
  What flows through the gateway: the texts that a vehicle completes with its frames become
  requests to the backend, and the backend's responses become the texts the vehicle gets. The
  invariants are those of \<open>Exchange_Steps\<close>, with the frames of a run; the property is of the whole
  gateway.
\<close>

section \<open>Messages out of frames\<close>

definition sent_messages :: "'s \<Rightarrow> ('s, 'v, 'f) event list \<Rightarrow> string list" where
  \<comment> \<open>the texts that a socket has completed\<close>
  "sent_messages s es = butlast (message_texts [] (frames_of s es))"

definition unfinished :: "'s \<Rightarrow> ('s, 'v, 'f) event list \<Rightarrow> string" where
  "unfinished s es = last (message_texts [] (frames_of s es))"

lemma message_texts_snoc:
  "message_texts b (fs @ [f]) = (if f = [] then message_texts b fs @ [[]]
     else butlast (message_texts b fs) @ [last (message_texts b fs) @ f])"
proof (induction fs arbitrary: b)
  case (Cons a fs)
  show ?case using Cons.IH [of "[]"] Cons.IH [of "b @ a"] by (cases "f = []") (simp_all add: message_texts_Cons)
qed (simp add: message_texts_Cons)

lemma flow_frame:
  "sent_messages s (es @ [e]) = (if frame_of s e = [[]] then sent_messages s es @ [unfinished s es] else sent_messages s es)"
  "unfinished s (es @ [e]) = (case frame_of s e of [] \<Rightarrow> unfinished s es
     | f # _ \<Rightarrow> if f = [] then [] else unfinished s es @ f)"
  by (cases e; simp add: sent_messages_def unfinished_def message_texts_snoc butlast_append)+

lemma flow_start [simp]: "sent_messages s [] = []" "unfinished s [] = []"
  by (simp_all add: sent_messages_def unfinished_def)

abbreviation add_happening :: "('s, 'v, 'f) event list \<Rightarrow> ('s, 'v, 'f) happening \<Rightarrow> ('s, 'v, 'f) event list" where
  "add_happening es h \<equiv> es @ (case h of Outside e \<Rightarrow> [e] | _ \<Rightarrow> [])"

section \<open>Listeners\<close>

lemma hk_step:
  assumes "ex_step S h \<chi> \<chi>'" "hk \<chi> s = Some l"
  shows "\<exists>l'. hk \<chi>' s = Some l' \<and> same_target l l'"
  using assms(1)
proof (cases rule: ex_step.cases)
  case (from_outside e \<sigma>)
  then show ?thesis using step_same_target [OF from_outside(3)] assms(2) by (simp add: hk_def)
next
  case (begins i j l1 draw port' st)
  have "pick_port draw (http_server_port l1) = Inr port'" using begins(7) by (simp add: begin_exchange_Inr)
  then have "keeps_targets (gw (sys \<chi>)) (gw (sys \<chi>'))"
    using overwrite_port_target(1) [OF begins(6)] begins(2) by simp
  then show ?thesis using assms(2) by (simp add: keeps_targets_def hk_def)
qed (use assms(2) in \<open>simp_all add: hk_def\<close>)

fun buffer_of :: "listener option \<Rightarrow> string" where
  "buffer_of None = []"
| "buffer_of (Some l) = m_messageBuffer l"

definition buffer_inv :: "('s, 'v, 'f) event list \<Rightarrow> ('s, 'w, 'v, 'f) suspended \<Rightarrow> bool" where
  "buffer_inv es \<chi> \<longleftrightarrow> (\<forall>s. unfinished s es = buffer_of (hk \<chi> s))"

lemma buffer_inv_step:
  assumes "ex_step S h \<chi> \<chi>'" "buffer_inv es \<chi>"
  shows "buffer_inv (add_happening es h) \<chi>'"
  using assms(1)
proof (cases rule: ex_step.cases)
  case (from_outside e \<sigma>)
  have buf: "unfinished s es = buffer_of (listeners (gw (sys \<chi>)) s)" for s
    using assms(2) by (simp add: buffer_inv_def hk_def)
  have hk': "hk \<chi>' = listeners (gw \<sigma>)" by (simp add: hk_def from_outside(2))
  have "unfinished t (es @ [e]) = buffer_of (listeners (gw \<sigma>) t)" for t
    using from_outside(3)
  proof (cases rule: gw_step.cases)
    case (created s params peer g' calls)
    then show ?thesis by (auto simp: flow_frame buf onAfterCreate_Inr WebSocketListener_def)
  next
    case (frame s l data now l' spawned)
    then show ?thesis by (auto simp: flow_frame buf readMessage_frame split: if_splits)
  next
    case (destroyed s g')
    then show ?thesis by (auto simp: flow_frame buf onBeforeDestroy_Inr)
  next
    case (finished i j l r draw net)
    then show ?thesis using from_outside(4) by simp
  qed (simp_all add: flow_frame buf)
  then show ?thesis by (simp add: buffer_inv_def from_outside(1) hk')
next
  case (begins i j l draw port' st)
  have "buffer_of (hk \<chi>' t) = buffer_of (hk \<chi> t)" for t
    using begins(2,6) by (cases "hk \<chi> t") (auto simp: hk_def overwrite_port_def)
  then show ?thesis using assms(2) begins(1) by (simp add: buffer_inv_def)
qed (use assms(2) in \<open>simp_all add: buffer_inv_def hk_def\<close>)

section \<open>Requests and replies\<close>

definition request_from ::
    "('w, 'v, 'f) site \<Rightarrow> listener \<Rightarrow> string \<Rightarrow> string \<Rightarrow> ('v, 'f) http_request \<Rightarrow> bool" where
  \<comment> \<open>the request made of a text that arrived at a time on a listener\<close>
  "request_from S l m t rq \<longleftrightarrow>
     (\<exists>rq0. build_request (site_beast S) (site_order S) m (clientID l) t = Inr rq0
        \<and> set_in (site_beast S) ''Host'' (http_server_address l) rq0 = Inr rq)"

definition answer :: "('s \<Rightarrow> http_response \<Rightarrow> bool) \<Rightarrow> 's \<Rightarrow> string \<Rightarrow> bool" where
  \<comment> \<open>the error text, or a response that came in for the socket, as text\<close>
  "answer came s t \<longleftrightarrow> t = ''error'' \<or> (\<exists>res. came s res \<and> t = buildResponseStringBuffer res)"

fun stage_inv ::
    "('w, 'v, 'f) site \<Rightarrow> ('s \<Rightarrow> http_response \<Rightarrow> bool) \<Rightarrow> listener \<Rightarrow> 's job \<Rightarrow> ('v, 'f) stage \<Rightarrow> bool" where
  "stage_inv S came l j (Resolving port rq) =
     (build_request (site_beast S) (site_order S) (job_message j) (clientID l) (job_time j) = Inr rq)"
| "stage_inv S came l j (Connecting port rq) =
     (build_request (site_beast S) (site_order S) (job_message j) (clientID l) (job_time j) = Inr rq)"
| "stage_inv S came l j (Sending rq) = request_from S l (job_message j) (job_time j) rq"
| "stage_inv S came l j (Reading rq) = request_from S l (job_message j) (job_time j) rq"
| "stage_inv S came l j (Ended r out) =
     ((\<forall>t. r = Inr t \<longrightarrow> answer came (job_socket j) t) \<and> (\<forall>rq \<in> set out. request_from S l (job_message j) (job_time j) rq))"

lemma answer_error [simp]: "answer came s ''error''"
  by (simp add: answer_def)

lemma answer_received: "came s res \<Longrightarrow> answer came s (buildResponseStringBuffer res)"
  by (auto simp: answer_def)

lemma answer_later: "answer came s t \<Longrightarrow> (\<And>res. came s res \<Longrightarrow> came' s res) \<Longrightarrow> answer came' s t"
  by (auto simp: answer_def)

lemma request_from_target: "same_target l l' \<Longrightarrow> request_from S l m t rq = request_from S l' m t rq"
  by (simp add: request_from_def same_target_def)

lemma stage_inv_later:
  "stage_inv S came l j st \<Longrightarrow> (\<And>res. came (job_socket j) res \<Longrightarrow> came' (job_socket j) res) \<Longrightarrow> stage_inv S came' l j st"
  by (cases st) (auto intro: answer_later)

lemma stage_inv_target: "stage_inv S came l j st \<Longrightarrow> same_target l l' \<Longrightarrow> stage_inv S came l' j st"
  by (cases st) (auto simp: request_from_target [of l l'] same_target_def)

lemma stage_inv_begin:
  "begin_exchange (site_beast S) (site_order S) draw (job_message j) port (clientID l) (job_time j) = Inr (port', st) \<Longrightarrow>
     stage_inv S came l j st"
  by (auto simp: begin_exchange_Inr caught_def split: sum.splits)

lemma stage_inv_resume:
  assumes "resume (site_beast S) (http_server_address l) st a = Some st'" "stage_inv S came l j st"
    and "\<And>res. a = Received res \<Longrightarrow> came (job_socket j) res"
  shows "stage_inv S came l j st'"
proof (cases "(site_beast S, http_server_address l, st, a)" rule: resume.cases)
  case (2 B host port rq)
  then show ?thesis using assms(1,2) by (auto simp: caught_def request_from_def split: sum.splits)
qed (use assms answer_received in auto)

lemma stage_inv_written: "stage_inv S came l j st \<Longrightarrow> rq \<in> set (written st) \<Longrightarrow> request_from S l (job_message j) (job_time j) rq"
  by (cases st) auto

definition staged :: "('s, 'w, 'v, 'f) suspended \<Rightarrow> ('s job \<times> ('v, 'f) stage option) set" where
  "staged \<chi> = set (zip (pending (sys \<chi>)) (stages \<chi>))"

lemma staged_nth: "i < length (pending (sys \<chi>)) \<Longrightarrow> length (stages \<chi>) = length (pending (sys \<chi>)) \<Longrightarrow>
    (pending (sys \<chi>) ! i, stages \<chi> ! i) \<in> staged \<chi>"
  by (force simp: staged_def set_zip)

lemma staged_step:
  assumes "ex_step S h \<chi> \<chi>'" "length (stages \<chi>) = length (pending (sys \<chi>))" "(j, Some st') \<in> staged \<chi>'"
  obtains (old) "(j, Some st') \<in> staged \<chi>"
    | (begun) l draw port' where "hk \<chi> (job_socket j) = Some l"
        "begin_exchange (site_beast S) (site_order S) draw (job_message j) (http_server_port l) (clientID l)
           (job_time j) = Inr (port', st')"
    | (resumed) l i a st where "h = Resume i a" "i < length (pending (sys \<chi>))" "pending (sys \<chi>) ! i = j"
        "hk \<chi> (job_socket j) = Some l" "(j, Some st) \<in> staged \<chi>"
        "resume (site_beast S) (http_server_address l) st a = Some st'"
  using assms(1)
proof (cases rule: ex_step.cases)
  case (from_outside e \<sigma>)
  obtain new where "pending \<sigma> = pending (sys \<chi>) @ new" using pending_lengths [OF from_outside(3,4)] by blast
  then show ?thesis
    using assms(2,3) from_outside(2) old
    by (auto simp: staged_def zip_append dest: set_zip_rightD)
next
  case (begins i k l draw port' st)
  then have "(j, Some st') \<in> staged \<chi> \<or> j = k \<and> st' = st"
    using assms(2,3) by (auto simp: staged_def dest!: set_zip_update)
  then show ?thesis using old begun begins(6,7) by (auto simp: hk_def)
next
  case (goes_on i k st l a st1)
  then have "(j, Some st') \<in> staged \<chi> \<or> j = k \<and> st' = st1"
    using assms(2,3) by (auto simp: staged_def dest!: set_zip_update)
  moreover have "(k, Some st) \<in> staged \<chi>" using staged_nth [OF goes_on(3) assms(2)] goes_on(4,5) by simp
  ultimately show ?thesis using old resumed goes_on(1,3,4,6,7) by (auto simp: hk_def)
next
  case (completes i k r out)
  then show ?thesis
    using assms(2,3) old set_zip_remove [OF assms(2) [symmetric], of i] by (auto simp: staged_def)
qed

definition stages_inv ::
    "('w, 'v, 'f) site \<Rightarrow> ('s \<Rightarrow> http_response \<Rightarrow> bool) \<Rightarrow> ('s, 'w, 'v, 'f) suspended \<Rightarrow> bool" where
  "stages_inv S came \<chi> \<longleftrightarrow> (\<forall>(j, st) \<in> staged \<chi>. \<forall>st'. st = Some st' \<longrightarrow>
     (\<exists>l. hk \<chi> (job_socket j) = Some l \<and> stage_inv S came l j st'))"

lemma stages_invD: "stages_inv S came \<chi> \<Longrightarrow> (j, Some st) \<in> staged \<chi> \<Longrightarrow>
    \<exists>l. hk \<chi> (job_socket j) = Some l \<and> stage_inv S came l j st"
  unfolding stages_inv_def by (drule bspec, assumption) simp

lemma stages_inv_step:
  assumes "ex_step S h \<chi> \<chi>'" "ex_run S w tr \<chi>" "stages_inv S (received S w tr) \<chi>"
  shows "stages_inv S (received S w (tr @ [h])) \<chi>'"
proof -
  let ?came = "received S w (tr @ [h])"
  have later: "\<exists>l'. hk \<chi>' (job_socket j) = Some l' \<and> stage_inv S ?came l' j st"
    if "hk \<chi> (job_socket j) = Some l" "stage_inv S ?came l j st" for j l st
    using hk_step [OF assms(1) that(1)] that(2) stage_inv_target by blast
  have old_inv: "\<exists>l. hk \<chi> (job_socket j) = Some l \<and> stage_inv S ?came l j st" if st: "(j, Some st) \<in> staged \<chi>" for j st
  proof -
    obtain l where "hk \<chi> (job_socket j) = Some l" "stage_inv S (received S w tr) l j st"
      using stages_invD [OF assms(3) st] by blast
    moreover have "stage_inv S ?came l j st" using calculation(2) by (rule stage_inv_later) (rule received_later)
    ultimately show ?thesis by blast
  qed
  have "\<exists>l. hk \<chi>' (job_socket j) = Some l \<and> stage_inv S ?came l j st'" if "(j, Some st') \<in> staged \<chi>'" for j st'
    using assms(1) ex_run_stages [OF assms(2)] that
  proof (cases rule: staged_step)
    case old
    then show ?thesis using old_inv later by blast
  next
    case (begun l draw port')
    then show ?thesis using later stage_inv_begin by blast
  next
    case (resumed l i a st)
    then have "stage_inv S ?came l j st" using old_inv [OF resumed(5)] by simp
    then have "stage_inv S ?came l j st'"
    proof (rule stage_inv_resume [OF resumed(6)])
      show "?came (job_socket j) res" if "a = Received res" for res
        using received_now [OF assms(2) resumed(2), of res] unfolding resumed(1,3) that .
    qed
    then show ?thesis using later resumed(4) by blast
  qed
  then show ?thesis by (auto simp: stages_inv_def)
qed

lemma texts_step:
  \<comment> \<open>a text that is new for a socket is the result of an exchange\<close>
  assumes "ex_step S h \<chi> \<chi>'" "length (stages \<chi>) = length (pending (sys \<chi>))"
    and "t \<in> set (texts_to s (socket_calls (sys \<chi>')))"
  shows "t \<in> set (texts_to s (socket_calls (sys \<chi>))) \<or> (\<exists>j out. (j, Some (Ended (Inr t) out)) \<in> staged \<chi> \<and> job_socket j = s)"
  using assms(1)
proof (cases rule: ex_step.cases)
  case (from_outside e \<sigma>)
  from from_outside(3) show ?thesis
    by (cases rule: gw_step.cases) (use assms(3) from_outside(2,4) texts_to_created in fastforce)+
next
  case (completes i j r out)
  have "(j, Some (Ended r out)) \<in> staged \<chi>" using staged_nth [OF completes(3) assms(2)] completes(4,5) by simp
  then show ?thesis
    using assms(3) completes(2) by (auto simp: on_result_def SendMessageCoroutine_def split: sum.splits if_splits)
qed (use assms(3) in \<open>simp_all add: overwrite_port_def\<close>)

definition flow_inv ::
    "('w, 'v, 'f) site \<Rightarrow> 'w \<Rightarrow> ('s, 'v, 'f) happening list \<Rightarrow> ('s, 'w, 'v, 'f) suspended \<Rightarrow> bool" where
  "flow_inv S w tr \<chi> \<longleftrightarrow> buffer_inv (outside_events tr) \<chi> \<and> stages_inv S (received S w tr) \<chi>
   \<and> (\<forall>s. \<forall>t \<in> set (texts_to s (socket_calls (sys \<chi>))). answer (received S w tr) s t)"

lemma answers_step:
  assumes "ex_step S h \<chi> \<chi>'" "length (stages \<chi>) = length (pending (sys \<chi>))" "flow_inv S w tr \<chi>"
    and "t \<in> set (texts_to s (socket_calls (sys \<chi>')))"
  shows "answer (received S w tr) s t"
  using texts_step [OF assms(1,2,4)]
proof (elim disjE exE conjE)
  assume "t \<in> set (texts_to s (socket_calls (sys \<chi>)))"
  then show ?thesis using assms(3) unfolding flow_inv_def by blast
next
  fix j out
  assume "(j, Some (Ended (Inr t) out)) \<in> staged \<chi>" "job_socket j = s"
  moreover have "stages_inv S (received S w tr) \<chi>" using assms(3) by (simp add: flow_inv_def)
  ultimately show ?thesis using stages_invD by fastforce
qed

lemma flow_inv_step:
  assumes "ex_step S h \<chi> \<chi>'" "ex_run S w tr \<chi>" "flow_inv S w tr \<chi>"
  shows "flow_inv S w (tr @ [h]) \<chi>'"
proof -
  have inv: "buffer_inv (outside_events tr) \<chi>" "stages_inv S (received S w tr) \<chi>"
    using assms(3) by (simp_all add: flow_inv_def)
  note stages = stages_inv_step [OF assms(1,2) inv(2)]
  have "answer (received S w (tr @ [h])) s t" if "t \<in> set (texts_to s (socket_calls (sys \<chi>')))" for s t
    by (rule answer_later [OF answers_step [OF assms(1) ex_run_stages [OF assms(2)] assms(3) that]]) (rule received_later)
  then show ?thesis
    using buffer_inv_step [OF assms(1) inv(1)] stages unfolding flow_inv_def outside_events_snoc by auto
qed

lemma run_flow_inv: "ex_run S w tr \<chi> \<Longrightarrow> flow_inv S w tr \<chi>"
proof (induction rule: ex_run.induct)
  case ex_start
  then show ?case
    by (simp add: flow_inv_def buffer_inv_def stages_inv_def staged_def hk_def idle_system_def
        fresh_gateway_def)
next
  case (ex_more tr \<chi> h \<chi>')
  then show ?case by (intro flow_inv_step)
qed

section \<open>At most one request for a message\<close>

definition requests_by :: "'s \<Rightarrow> ('s \<times> 'r) list \<Rightarrow> 'r list" where
  "requests_by s ws = map snd (filter (\<lambda>x. fst x = s) ws)"

lemma requests_by_simps [simp]:
  "requests_by s [] = []" "requests_by s (ws @ ws') = requests_by s ws @ requests_by s ws'"
  "requests_by s (map (Pair s') rqs) = (if s' = s then rqs else [])"
  by (simp_all add: requests_by_def filter_map comp_def)

definition unsent :: "'s \<Rightarrow> 's job \<Rightarrow> ('v, 'f) stage option \<Rightarrow> string multiset" where
  \<comment> \<open>the text of an exchange of the socket that has not written its request\<close>
  "unsent s j st = (if job_socket j = s \<and> (case st of None \<Rightarrow> True | Some st \<Rightarrow> written st = [])
     then {#job_message j#} else {#})"

lemma resume_written: "resume B host st a = Some st' \<Longrightarrow> length (written st') \<le> 1"
  by (cases "(B, host, st, a)" rule: resume.cases) (auto simp: caught_def split: sum.splits)

definition made_of :: "('w, 'v, 'f) site \<Rightarrow> listener option \<Rightarrow> string \<Rightarrow> ('v, 'f) http_request \<Rightarrow> bool" where
  "made_of S lis m rq \<longleftrightarrow> (\<exists>l t. lis = Some l \<and> request_from S l m t rq)"

definition paired ::
    "('w, 'v, 'f) site \<Rightarrow> 's \<Rightarrow> ('s, 'v, 'f) event list \<Rightarrow> ('s, 'w, 'v, 'f) suspended \<Rightarrow> string list \<Rightarrow> bool" where
  \<comment> \<open>the requests of the socket are made of these texts, and with those not yet used they are some
     of the texts that the socket has completed, each taken once\<close>
  "paired S s es \<chi> ms \<longleftrightarrow> list_all2 (made_of S (hk \<chi> s)) ms (requests_by s (wire (sys \<chi>)))
     \<and> mset ms + sum2 (unsent s) (pending (sys \<chi>)) (stages \<chi>) \<subseteq># mset (sent_messages s es)"

lemma made_of_step: "ex_step S h \<chi> \<chi>' \<Longrightarrow> made_of S (hk \<chi> s) m rq \<Longrightarrow> made_of S (hk \<chi>' s) m rq"
  using hk_step [of S h \<chi> \<chi>' s] request_from_target unfolding made_of_def by metis

lemma requests_made_of_step:
  "ex_step S h \<chi> \<chi>' \<Longrightarrow> list_all2 (made_of S (hk \<chi> s)) ms rqs \<Longrightarrow> list_all2 (made_of S (hk \<chi>' s)) ms rqs"
  by (erule list_all2_mono) (rule made_of_step)

lemma paired_frame:
  \<comment> \<open>what happens outside sends nothing, and a message that it completes is added to those unsent\<close>
  assumes "gw_step S e (sys \<chi>) \<sigma>" "\<not> is_finished e" "buffer_inv es \<chi>" "length (stages \<chi>) = length (pending (sys \<chi>))"
    and "n = length (pending \<sigma>) - length (pending (sys \<chi>))"
  shows "wire \<sigma> = wire (sys \<chi>)"
    and "sum2 (unsent s) (pending \<sigma>) (stages \<chi> @ replicate n None) + mset (sent_messages s es)
      = sum2 (unsent s) (pending (sys \<chi>)) (stages \<chi>) + mset (sent_messages s (es @ [e]))"
proof -
  show "wire \<sigma> = wire (sys \<chi>)" using assms(1) by (cases rule: gw_step.cases) (use assms(2) in auto)
  show "sum2 (unsent s) (pending \<sigma>) (stages \<chi> @ replicate n None) + mset (sent_messages s es)
      = sum2 (unsent s) (pending (sys \<chi>)) (stages \<chi>) + mset (sent_messages s (es @ [e]))"
    using assms(1)
  proof (cases rule: gw_step.cases)
    case (frame s' l data now l' spawned)
    have "unfinished s' es = m_messageBuffer l" using assms(3) frame(4) by (simp add: buffer_inv_def hk_def)
    then show ?thesis
      using assms(4,5) frame
      by (auto simp: flow_frame readMessage_frame spawn_def sum2_append unsent_def split: if_splits)
  qed (use assms(2,5) in \<open>simp_all add: flow_frame\<close>)
qed

lemma paired_goes_on:
  \<comment> \<open>an exchange uses its text when it writes its request\<close>
  assumes "i < length (pending (sys \<chi>))" "length (stages \<chi>) = length (pending (sys \<chi>))" "stages \<chi> ! i = Some st"
    and "resume B host st a = Some st'" "j = pending (sys \<chi>) ! i"
  shows "(if job_socket j = s then mset (map (\<lambda>_. job_message j) (new_in st st')) else {#})
      + sum2 (unsent s) (pending (sys \<chi>)) ((stages \<chi>)[i := Some st'])
    = sum2 (unsent s) (pending (sys \<chi>)) (stages \<chi>)"
proof -
  have "length (written st @ new_in st st') \<le> 1"
    using resume_written [OF assms(4)] written_new [OF assms(4)] by simp
  then have "unsent s j (Some st)
      = (if job_socket j = s then mset (map (\<lambda>_. job_message j) (new_in st st')) else {#}) + unsent s j (Some st')"
    using written_new [OF assms(4)] by (cases "written st"; cases "new_in st st'") (auto simp: unsent_def)
  with sum2_update [OF assms(1) assms(2) [symmetric], of "unsent s" "Some st'"] show ?thesis
    using assms(3,5) by (simp add: ac_simps)
qed

lemma paired_step:
  assumes "ex_step S h \<chi> \<chi>'" "ex_run S w tr \<chi>" "paired S s (outside_events tr) \<chi> ms"
  shows "\<exists>ms'. paired S s (outside_events (tr @ [h])) \<chi>' ms'"
proof -
  note even = ex_run_stages [OF assms(2)]
  note req = requests_made_of_step [OF assms(1)]
  from assms(3) have old: "list_all2 (made_of S (hk \<chi> s)) ms (requests_by s (wire (sys \<chi>)))"
    "mset ms + sum2 (unsent s) (pending (sys \<chi>)) (stages \<chi>) \<subseteq># mset (sent_messages s (outside_events tr))"
    by (simp_all add: paired_def)
  show ?thesis
    using assms(1)
  proof (cases rule: ex_step.cases)
    case (from_outside e \<sigma>)
    have buf: "buffer_inv (outside_events tr) \<chi>" using run_flow_inv [OF assms(2)] by (simp add: flow_inv_def)
    note fr = paired_frame [OF from_outside(3,4) buf even refl]
    have "mset ms + sum2 (unsent s) (pending (sys \<chi>')) (stages \<chi>') \<subseteq># mset (sent_messages s (outside_events (tr @ [h])))"
    proof -
      obtain C where "mset (sent_messages s (outside_events tr))
          = mset ms + sum2 (unsent s) (pending (sys \<chi>)) (stages \<chi>) + C"
        using old(2) by (auto simp: mset_subset_eq_exists_conv)
      with fr(2) [of s] have "mset (sent_messages s (outside_events tr @ [e])) = mset ms
          + sum2 (unsent s) (pending \<sigma>) (stages \<chi> @ replicate (length (pending \<sigma>) - length (pending (sys \<chi>))) None) + C"
        by (simp add: ac_simps)
      then show ?thesis using from_outside(1,2) by simp
    qed
    then show ?thesis
      using req [OF old(1)] fr(1) from_outside(2) by (intro exI [of _ ms]) (simp add: paired_def)
  next
    case (begins i j l draw port' st)
    have "sum2 (unsent s) (pending (sys \<chi>)) ((stages \<chi>)[i := Some st]) = sum2 (unsent s) (pending (sys \<chi>)) (stages \<chi>)"
      using sum2_update [OF begins(3) even [symmetric], of "unsent s" "Some st"] begins(4,5) written_begin [OF begins(7)]
      by (simp add: unsent_def)
    then show ?thesis
      using req [OF old(1)] old(2) begins(1,2) by (intro exI [of _ ms]) (simp add: paired_def)
  next
    case (goes_on i j st l a st')
    let ?new = "new_in st st'" and ?used = "if job_socket j = s then map (\<lambda>_. job_message j) (new_in st st') else []"
    have j: "(j, Some st') \<in> staged \<chi>'" using staged_nth [of i \<chi>'] even goes_on(2-5) by simp
    obtain l' where l': "hk \<chi>' (job_socket j) = Some l'" "stage_inv S (received S w (tr @ [h])) l' j st'"
      using stages_invD [OF _ j] run_flow_inv [OF ex_run.ex_more [OF assms(2,1)]] unfolding flow_inv_def by blast
    have "made_of S (hk \<chi>' (job_socket j)) (job_message j) rq" if "rq \<in> set ?new" for rq
      using stage_inv_written [OF l'(2)] that written_new [OF goes_on(7)] l'(1) by (auto simp: made_of_def)
    then have "list_all2 (made_of S (hk \<chi>' s)) ?used (requests_by s (map (Pair (job_socket j)) ?new))"
      by (auto simp: list_all2_conv_all_nth)
    then have "list_all2 (made_of S (hk \<chi>' s)) (ms @ ?used) (requests_by s (wire (sys \<chi>')))"
      using req [OF old(1)] goes_on(2) by (simp add: list_all2_appendI)
    moreover have "mset (ms @ ?used) + sum2 (unsent s) (pending (sys \<chi>')) (stages \<chi>')
        \<subseteq># mset (sent_messages s (outside_events (tr @ [h])))"
      using old(2) paired_goes_on [OF goes_on(3) even goes_on(5,7,4), of s] goes_on(1,2)
      by (simp add: add.assoc split: if_splits)
    ultimately show ?thesis unfolding paired_def by blast
  next
    case (completes i j r out)
    have "sum2 (unsent s) (pending (sys \<chi>')) (stages \<chi>') \<subseteq># sum2 (unsent s) (pending (sys \<chi>)) (stages \<chi>)"
      using sum2_remove [OF completes(3) even [symmetric], of "unsent s"] completes(2)
      by (auto simp: mset_subset_eq_exists_conv intro: exI [of _ "unsent s (pending (sys \<chi>) ! i) (stages \<chi> ! i)"])
    then have "mset ms + sum2 (unsent s) (pending (sys \<chi>')) (stages \<chi>') \<subseteq># mset (sent_messages s (outside_events tr))"
      using old(2) by (meson subset_mset.add_left_mono subset_mset.order_trans)
    then show ?thesis
      using req [OF old(1)] completes(1,2) by (intro exI [of _ ms]) (simp add: paired_def)
  qed
qed

lemma run_paired: "ex_run S w tr \<chi> \<Longrightarrow> \<exists>ms. paired S s (outside_events tr) \<chi> ms"
proof (induction rule: ex_run.induct)
  case ex_start
  show ?case by (intro exI [of _ "[]"]) (simp add: paired_def idle_system_def)
next
  case (ex_more tr \<chi> h \<chi>')
  then obtain ms where "paired S s (outside_events tr) \<chi> ms" by blast
  from paired_step [OF ex_more(2,1) this] show ?case .
qed

section \<open>The whole gateway\<close>

lemma whole_requests:
  assumes "whole_run S w tr \<omega>"
  shows "\<exists>ms. mset ms \<subseteq># mset (sent_messages s (arrived tr))
    \<and> list_all2 (\<lambda>m rq. \<exists>l t. hooks \<omega> s = Some l \<and> request_from S l m t rq) ms (requests_by s (to_backend \<omega>))"
proof -
  obtain atr \<alpha> where a: "ex_run S w atr \<alpha>" "matches S \<omega> \<alpha> (outside_events atr)"
    "\<forall>s. frames_of s (outside_events atr) = frames_of s (arrived tr)"
    using whole_simulated [OF assms] by blast
  have eq: "wire (sys \<alpha>) = to_backend \<omega>" using a(2) by (simp add: matches_def sees_def)
  obtain ms where ms: "paired S s (outside_events atr) \<alpha> ms" using run_paired [OF a(1)] by blast
  have "hooks \<omega> s = hk \<alpha> s" if some: "requests_by s (to_backend \<omega>) \<noteq> []"
  proof -
    obtain rq where "(s, rq) \<in> set (to_backend \<omega>)"
      using some by (fastforce simp: requests_by_def filter_empty_conv)
    then have "hooks \<omega> s \<noteq> None" using a(2) by (fastforce simp: matches_def)
    then show ?thesis using hooks_seen [OF a(2), of s] by (simp split: if_splits)
  qed
  then have "list_all2 (made_of S (hooks \<omega> s)) ms (requests_by s (to_backend \<omega>))"
    using ms unfolding paired_def eq by (cases "requests_by s (to_backend \<omega>)") auto
  moreover have "mset ms \<subseteq># mset (sent_messages s (arrived tr))"
    using ms a(3) unfolding paired_def sent_messages_def by (metis mset_subset_eq_add_left subset_mset.order_trans)
  ultimately show ?thesis unfolding made_of_def by blast
qed

lemma whole_answers:
  assumes "whole_run S w tr \<omega>" "t \<in> set (texts_to s (calls_made \<omega>))"
  shows "t = ''error'' \<or> (\<exists>res. whole_received S w tr s res \<and> t = buildResponseStringBuffer res)"
proof -
  obtain atr \<alpha> where a: "ex_run S w atr \<alpha>" "matches S \<omega> \<alpha> (outside_events atr)"
    "\<forall>s res. received S w atr s res \<longrightarrow> whole_received S w tr s res"
    using whole_simulated [OF assms(1)] by blast
  have "socket_calls (sys \<alpha>) = calls_made \<omega>" using a(2) by (simp add: matches_def sees_def)
  then have "answer (received S w atr) s t" using run_flow_inv [OF a(1)] assms(2) unfolding flow_inv_def by simp
  then show ?thesis using a(3) unfolding answer_def by blast
qed

section \<open>Properties\<close>

text \<open>
  C4. Messages become requests and responses become replies, with all the concurrency of
  the gateway: the requests of a socket on the wire are made one by one of texts that this very
  socket has completed, no completed text being used twice, with the id and the host of the
  socket's listener; and every text sent to a socket is the error text or the text of a response
  that came in for an exchange of that socket.
\<close>

theorem requests_are_messages:
  assumes "whole_run S w tr \<omega>"
  shows "(\<forall>s. \<exists>ms. mset ms \<subseteq># mset (sent_messages s (arrived tr))
        \<and> list_all2 (\<lambda>m rq. \<exists>l t. hooks \<omega> s = Some l \<and> request_from S l m t rq) ms (requests_by s (to_backend \<omega>)))
    \<and> (\<forall>s. \<forall>t \<in> set (texts_to s (calls_made \<omega>)). t = ''error''
         \<or> (\<exists>res. whole_received S w tr s res \<and> t = buildResponseStringBuffer res))"
  using whole_requests [OF assms] whole_answers [OF assms] by blast

lemma requests_are_messages_witness:
  "\<exists>tr (\<omega> :: (nat, string \<Rightarrow> string option, string, headers) whole) rq l m t res.
     whole_run sample_site Map.empty tr \<omega> \<and> to_backend \<omega> = [(1, rq)] \<and> {#m#} \<subseteq># mset (sent_messages 1 (arrived tr))
     \<and> hooks \<omega> 1 = Some l \<and> request_from sample_site l m t rq \<and> whole_received sample_site Map.empty tr 1 res
     \<and> buildResponseStringBuffer res \<in> set (texts_to 1 (calls_made \<omega>))"
proof -
  obtain atr and \<chi> :: "(nat, string \<Rightarrow> string option, string, headers) suspended" and rq where
    x: "ex_run sample_site Map.empty atr \<chi>" "wire (sys \<chi>) = [(1, rq)]"
    "buildResponseStringBuffer sample_answer \<in> set (texts_to 1 (socket_calls (sys \<chi>)))"
    using sample_answered by blast
  obtain tr \<omega> where o: "whole_run sample_site Map.empty tr \<omega>" "exchanges_of \<omega> = \<chi>"
    using atomic_runs_whole [OF x(1)] by blast
  have eqs: "to_backend \<omega> = [(1, rq)]" "buildResponseStringBuffer sample_answer \<in> set (texts_to 1 (calls_made \<omega>))"
    using x(2,3) by (simp_all add: o(2) [symmetric])
  note flow = requests_are_messages [OF o(1)]
  obtain ms where ms: "mset ms \<subseteq># mset (sent_messages 1 (arrived tr))"
    "list_all2 (\<lambda>m rq. \<exists>l t. hooks \<omega> 1 = Some l \<and> request_from sample_site l m t rq) ms [rq]"
    using flow [THEN conjunct1] eqs(1) by (fastforce simp: requests_by_def)
  obtain l m t where "ms = [m]" "hooks \<omega> 1 = Some l" "request_from sample_site l m t rq"
    using ms(2) by (auto simp: list_all2_Cons2)
  moreover have "buildResponseStringBuffer sample_answer \<noteq> ''error''"
    by (simp add: buildResponseStringBuffer_def)
  then obtain res where "whole_received sample_site Map.empty tr 1 res"
    "buildResponseStringBuffer res = buildResponseStringBuffer sample_answer"
    using flow [THEN conjunct2] eqs(2) by metis
  ultimately show ?thesis using o(1) eqs ms(1) by (metis mset_single_iff_right)
qed

end
