(* ===== verification/Delivery.thy ===== *)
theory Delivery
  imports Message_Flow
begin

text \<open>
  The last step of a reply. The completion handler in \<open>WebSocketListener.cpp\<close> does not send: it
  hands a \<open>SendMessageCoroutine\<close> to the oatpp executor, whose threads run such coroutines in
  any order. Here what the other theories record as the call that sends a text is taken apart:
  the call is what is handed over, and a step of the executor makes it. A frame sent is a call of
  \<open>sendOneFrameTextAsync\<close>; writing it out is left to the library.
\<close>

section \<open>The executor\<close>

definition sends :: "('s \<times> socket_call) list \<Rightarrow> ('s \<times> string) list" where
  "sends calls = concat (map (\<lambda>(s, c). case c of SendOneFrameText t \<Rightarrow> [(s, t)] | _ \<Rightarrow> []) calls)"

record ('s, 'w, 'v, 'f) delivery =
  running :: "('s, 'w, 'v, 'f) whole"
  scheduled :: "('s \<times> string) list"  \<comment> \<open>coroutines that the executor has not run yet\<close>
  frames_sent :: "('s \<times> socket_call) list"

datatype ('s, 'v, 'f) move = In_Gateway "('s, 'v, 'f) activity" | Act nat

inductive delivery_step ::
    "('w, 'v, 'f) site \<Rightarrow> ('s, 'v, 'f) move \<Rightarrow> ('s, 'w, 'v, 'f) delivery \<Rightarrow> ('s, 'w, 'v, 'f) delivery \<Rightarrow> bool"
  for S :: "('w, 'v, 'f) site" where
  hands_over: "whole_step S a (running d) \<omega> \<Longrightarrow>
    delivery_step S (In_Gateway a) d (d\<lparr>running := \<omega>,
      scheduled := scheduled d @ sends (drop (length (calls_made (running d))) (calls_made \<omega>))\<rparr>)"
| acts: "i < length (scheduled d) \<Longrightarrow>
    delivery_step S (Act i) d (d\<lparr>scheduled := take i (scheduled d) @ drop (Suc i) (scheduled d),
      frames_sent := frames_sent d @ (case scheduled d ! i of (s, t) \<Rightarrow> SendMessageCoroutine s t)\<rparr>)"

inductive delivery_run ::
    "('w, 'v, 'f) site \<Rightarrow> 'w \<Rightarrow> ('s, 'v, 'f) move list \<Rightarrow> ('s, 'w, 'v, 'f) delivery \<Rightarrow> bool"
  for S :: "('w, 'v, 'f) site" and w :: 'w where
  delivery_start: "delivery_run S w [] \<lparr>running = idle_whole w, scheduled = [], frames_sent = []\<rparr>"
| delivery_more: "delivery_run S w tr d \<Longrightarrow> delivery_step S m d d' \<Longrightarrow> delivery_run S w (tr @ [m]) d'"

definition gateway_part :: "('s, 'v, 'f) move list \<Rightarrow> ('s, 'v, 'f) activity list" where
  "gateway_part tr = concat (map (\<lambda>m. case m of In_Gateway a \<Rightarrow> [a] | Act i \<Rightarrow> []) tr)"

definition frames_to :: "'s \<Rightarrow> ('s \<times> string) list \<Rightarrow> string list" where
  "frames_to s fs = map snd (filter (\<lambda>x. fst x = s) fs)"

lemma sends_append: "sends (cs @ ds) = sends cs @ sends ds"
  by (simp add: sends_def)

lemma sends_send_message: "sends (SendMessageCoroutine s t) = [(s, t)]"
  by (simp add: sends_def SendMessageCoroutine_def)

lemma gateway_part_simps [simp]:
  "gateway_part [] = []" "gateway_part (tr @ [In_Gateway a]) = gateway_part tr @ [a]"
  "gateway_part (tr @ [Act i]) = gateway_part tr"
  by (simp_all add: gateway_part_def)

lemma frames_to_simps [simp]:
  "frames_to s [] = []" "frames_to s (fs @ gs) = frames_to s fs @ frames_to s gs"
  by (simp_all add: frames_to_def)

lemma frames_to_sends: "frames_to s (sends calls) = texts_to s calls"
  by (induction calls) (auto simp: frames_to_def sends_def split: socket_call.splits)

lemma frames_to_mset: "mset fs = mset gs \<Longrightarrow> length (frames_to s fs) = length (frames_to s gs)"
  unfolding frames_to_def by (metis length_map mset_filter size_mset)

section \<open>What has been handed over is sent or waiting\<close>

lemma ex_step_calls: 
  assumes "ex_step S h \<chi> \<chi>'"
  shows "\<exists>new. socket_calls (sys \<chi>') = socket_calls (sys \<chi>) @ new"
  using assms
proof (cases rule: ex_step.cases)
  case (from_outside e \<sigma>)
  from from_outside(3) show ?thesis by (cases rule: gw_step.cases) (use from_outside(2,4) in auto)
qed (simp_all add: overwrite_port_def)

lemma whole_step_calls: 
  assumes "whole_step S a \<omega> \<omega>'"
  shows "\<exists>new. calls_made \<omega>' = calls_made \<omega> @ new"
  using assms
proof (cases rule: whole_step.cases)
  case (happens h \<chi>)
  then show ?thesis using ex_step_calls [OF happens(3)] by simp
qed simp

lemma mset_remove_nth: "i < length xs \<Longrightarrow> mset (take i xs @ drop (Suc i) xs) + {#xs ! i#} = mset xs"
  by (metis add_mset_add_single id_take_nth_drop mset.simps(2) mset_append union_mset_add_mset_right)

lemma delivery_inv:
  "delivery_run S w tr d \<Longrightarrow> whole_run S w (gateway_part tr) (running d)
     \<and> mset (sends (calls_made (running d))) = mset (scheduled d) + mset (sends (frames_sent d))"
proof (induction rule: delivery_run.induct)
  case delivery_start
  then show ?case by (simp add: whole_run.whole_start) (simp add: idle_whole_def sends_def)
next
  case (delivery_more tr d m d')
  from delivery_more(2) show ?case
  proof (cases rule: delivery_step.cases)
    case (hands_over a \<omega>)
    obtain new where "calls_made \<omega> = calls_made (running d) @ new" using whole_step_calls [OF hands_over(3)] by blast
    then show ?thesis
      using delivery_more.IH hands_over whole_run.whole_more by (fastforce simp: sends_append ac_simps)
  next
    case (acts i)
    then have "mset (scheduled d') + mset (sends (frames_sent d')) = mset (scheduled d) + mset (sends (frames_sent d))"
      using mset_remove_nth [OF acts(3)] by (cases "scheduled d ! i") (simp add: sends_append sends_send_message)
    then show ?thesis using delivery_more.IH acts(1,2) by simp
  qed
qed

lemma delivery_counts:
  assumes "delivery_run S w tr d"
  shows "length (texts_to s (calls_made (running d)))
    = length (frames_to s (scheduled d)) + length (texts_to s (frames_sent d))"
proof -
  have "mset (sends (calls_made (running d))) = mset (scheduled d @ sends (frames_sent d))"
    using delivery_inv [OF assms] by simp
  from frames_to_mset [OF this, of s] show ?thesis by (simp add: frames_to_sends)
qed

lemma any_order:
  "delivery_run S w tr d \<Longrightarrow> mset p = mset (scheduled d) \<Longrightarrow>
     \<exists>js d'. delivery_run S w (tr @ map Act js) d' \<and> frames_sent d' = frames_sent d @ map (\<lambda>(s, t). (s, SendOneFrameText t)) p \<and> scheduled d' = []
       \<and> running d' = running d"
proof (induction p arbitrary: tr d)
  case Nil
  then show ?case by (intro exI [of _ "[]"] exI [of _ d]) simp
next
  case (Cons x p)
  then obtain i where i: "i < length (scheduled d)" "scheduled d ! i = x"
    by (metis in_set_conv_nth list.set_intros(1) mset_eq_setD)
  let ?d = "d\<lparr>scheduled := take i (scheduled d) @ drop (Suc i) (scheduled d), frames_sent := frames_sent d @ [(fst x, SendOneFrameText (snd x))]\<rparr>"
  have run: "delivery_run S w (tr @ [Act i]) ?d"
    using delivery_run.delivery_more [OF Cons.prems(1) delivery_step.acts [OF i(1)]] i(2)
    by (simp add: SendMessageCoroutine_def case_prod_unfold)
  have "add_mset x (mset (scheduled ?d)) = add_mset x (mset p)"
    using mset_remove_nth [OF i(1)] Cons.prems(2) i(2) by simp
  then have "mset p = mset (scheduled ?d)" by simp
  from Cons.IH [OF run this] obtain js d' where
    "delivery_run S w ((tr @ [Act i]) @ map Act js) d'" "frames_sent d' = frames_sent ?d @ map (\<lambda>(s, t). (s, SendOneFrameText t)) p" "scheduled d' = []"
    "running d' = running ?d" by blast
  then show ?case by (intro exI [of _ "i # js"] exI [of _ d']) (simp add: case_prod_unfold)
qed

text \<open>Every run of the gateway is one in which the executor has run nothing yet.\<close>

lemma whole_run_delivers:
  "whole_run S w tr \<omega> \<Longrightarrow> \<exists>d. delivery_run S w (map In_Gateway tr) d \<and> running d = \<omega>
     \<and> scheduled d = sends (calls_made \<omega>) \<and> frames_sent d = []"
proof (induction rule: whole_run.induct)
  case whole_start
  show ?case
    by (intro exI [of _ "\<lparr>running = idle_whole w, scheduled = [], frames_sent = []\<rparr>"])
      (simp add: delivery_run.delivery_start, simp add: idle_whole_def sends_def)
next
  case (whole_more tr \<omega> a \<omega>')
  then obtain d where d: "delivery_run S w (map In_Gateway tr) d" "running d = \<omega>"
    "scheduled d = sends (calls_made \<omega>)" "frames_sent d = []" by blast
  obtain new where new: "calls_made \<omega>' = calls_made \<omega> @ new" using whole_step_calls [OF whole_more(2)] by blast
  have "delivery_step S (In_Gateway a) d (d\<lparr>running := \<omega>', scheduled := sends (calls_made \<omega>')\<rparr>)"
    using delivery_step.hands_over [of S a d \<omega>'] whole_more(2) d(2,3) new by (simp add: sends_append)
  from delivery_run.delivery_more [OF d(1) this] show ?case
    using d(4) by (intro exI [of _ "d\<lparr>running := \<omega>', scheduled := sends (calls_made \<omega>')\<rparr>"]) simp
qed

lemma texts_to_frames: "texts_to s (map (\<lambda>(s, t). (s, SendOneFrameText t)) fs) = frames_to s fs"
  by (induction fs) (auto simp: frames_to_def)

section \<open>Properties\<close>

text \<open>
  C25. Each message is answered by one frame in the end, and nothing else is sent: at any
  time the complete messages of a socket are as many as the exchanges pending for it, the
  replies handed to the executor and the frames sent to it together; every frame sent is the
  error text or the text of a response that came in for an exchange of that very socket; the
  replies handed over can be sent in any order, whatever order they were handed over in; and
  once neither a coroutine nor the executor can go on, each message has been answered by
  one frame.
\<close>

theorem replies_sent_once:
  assumes "delivery_run S w tr d" "site_ok S" "field_laws (site_beast S) get"
  shows "(\<forall>s. messages s (arrived (gateway_part tr))
        = waiting s (running d) + length (frames_to s (scheduled d)) + length (texts_to s (frames_sent d)))
    \<and> (\<forall>s. \<forall>t \<in> set (texts_to s (frames_sent d)). t = ''error''
        \<or> (\<exists>res. whole_received S w (gateway_part tr) s res \<and> t = buildResponseStringBuffer res))
    \<and> (\<forall>p. mset p = mset (scheduled d) \<longrightarrow>
        (\<exists>js d'. delivery_run S w (tr @ map Act js) d' \<and> frames_sent d' = frames_sent d @ map (\<lambda>(s, t). (s, SendOneFrameText t)) p \<and> scheduled d' = []))
    \<and> ((\<nexists>m d'. delivery_step S m d d' \<and> (\<forall>a. m = In_Gateway a \<longrightarrow> is_exchange a)) \<longrightarrow>
        (\<forall>s. length (texts_to s (frames_sent d)) = messages s (arrived (gateway_part tr))))"
proof -
  have run: "whole_run S w (gateway_part tr) (running d)"
    and all: "mset (sends (calls_made (running d))) = mset (scheduled d) + mset (sends (frames_sent d))"
    using delivery_inv [OF assms(1)] by simp_all
  have count: "messages s (arrived (gateway_part tr))
      = waiting s (running d) + length (frames_to s (scheduled d)) + length (texts_to s (frames_sent d))" for s
    using whole_serves(1) [OF run assms(2,3), of s] delivery_counts [OF assms(1), of s] by simp
  moreover have "t = ''error'' \<or> (\<exists>res. whole_received S w (gateway_part tr) s res \<and> t = buildResponseStringBuffer res)"
    if "t \<in> set (texts_to s (frames_sent d))" for s t
  proof -
    have "(s, t) \<in> set (sends (frames_sent d))" using that unfolding frames_to_sends [symmetric] by (auto simp: frames_to_def)
    then have "(s, t) \<in> set (sends (calls_made (running d)))" using all by (metis UnCI set_mset_mset set_mset_union)
    then have "t \<in> set (texts_to s (calls_made (running d)))"
      unfolding frames_to_sends [symmetric] by (force simp: frames_to_def)
    then show ?thesis by (rule whole_answers [OF run])
  qed
  moreover have "length (texts_to s (frames_sent d)) = messages s (arrived (gateway_part tr))"
    if stuck: "\<nexists>m d'. delivery_step S m d d' \<and> (\<forall>a. m = In_Gateway a \<longrightarrow> is_exchange a)" for s
  proof -
    have "scheduled d = []" using stuck delivery_step.acts [of 0 d S] by fastforce
    moreover have "\<nexists>a \<omega>'. is_exchange a \<and> whole_step S a (running d) \<omega>'"
      using stuck delivery_step.hands_over [of S _ d] by blast
    then have "queue (running d) = []" by (rule at_rest_answered(1) [OF run assms(2,3)])
    ultimately show ?thesis using count [of s] by (simp add: waiting_def)
  qed
  ultimately show ?thesis using any_order [OF assms(1)] by blast
qed

lemma replies_sent_once_witness:
  "\<exists>tr (d :: (nat, string \<Rightarrow> string option, string, headers) delivery).
     delivery_run sample_site Map.empty tr d \<and> messages 1 (arrived (gateway_part tr)) \<noteq> 0
     \<and> buildResponseStringBuffer sample_answer \<in> set (texts_to 1 (frames_sent d))"
proof -
  let ?t = "buildResponseStringBuffer sample_answer"
  obtain atr and \<chi> :: "(nat, string \<Rightarrow> string option, string, headers) suspended" where
    x: "ex_run sample_site Map.empty atr \<chi>" "?t \<in> set (texts_to 1 (socket_calls (sys \<chi>)))"
    using sample_answered by blast
  obtain tr \<omega> where o: "whole_run sample_site Map.empty tr \<omega>" "exchanges_of \<omega> = \<chi>"
    using atomic_runs_whole [OF x(1)] by blast
  have t: "?t \<in> set (texts_to 1 (calls_made \<omega>))" using x(2) by (simp add: o(2) [symmetric])
  obtain d where d: "delivery_run sample_site Map.empty (map In_Gateway tr) d" "running d = \<omega>"
    "scheduled d = sends (calls_made \<omega>)" "frames_sent d = []"
    using whole_run_delivers [OF o(1)] by blast
  note once = replies_sent_once [OF d(1) sample_site_ok]
  obtain js d' where d': "delivery_run sample_site Map.empty (map In_Gateway tr @ map Act js) d'"
    "frames_sent d' = frames_sent d @ map (\<lambda>(s, t). (s, SendOneFrameText t)) (scheduled d)"
    using once [THEN conjunct2, THEN conjunct2, THEN conjunct1] by blast
  have "texts_to 1 (frames_sent d') = frames_to 1 (scheduled d)" using d'(2) d(4) by (simp add: texts_to_frames)
  then have sent: "?t \<in> set (texts_to 1 (frames_sent d'))" using t d(3) by (simp add: frames_to_sends)
  have "messages 1 (arrived (gateway_part (map In_Gateway tr @ map Act js)))
      = waiting 1 (running d') + length (frames_to 1 (scheduled d')) + length (texts_to 1 (frames_sent d'))"
    using replies_sent_once [OF d'(1) sample_site_ok] by blast
  then have "messages 1 (arrived (gateway_part (map In_Gateway tr @ map Act js))) \<noteq> 0"
    using sent by (auto simp: length_pos_if_in_set)
  with d'(1) sent show ?thesis by blast
qed

end
