(* ===== verification/Ssl_Context.thy ===== *)
theory Ssl_Context
  imports Env_Config
begin

unbundle bit_operations_syntax

text \<open>
  \<open>src/src/utilis/sslContext.h\<close>: the password callback, the logging callback and the
  creation of the server's TLS context. OpenSSL is a parameter: the record \<open>openssl\<close> holds the
  return values of the calls, \<open>ssl_flags\<close> the values of the constants; what the code
  configures is collected in a record \<open>ssl_ctx\<close>.
\<close>

section \<open>The password callback\<close>

definition strncpy :: "string \<Rightarrow> string \<Rightarrow> nat \<Rightarrow> string result" where
  \<comment> \<open>copy at most \<open>n\<close> characters of a C string into a buffer and fill up with NULs\<close>
  "strncpy buffer src n =
     (if length buffer < n then Inl (UndefinedBehaviour ''buffer overflow'')
      else Inr (take n src @ replicate (n - length src) NUL @ drop n buffer))"

definition passwordCB :: "string \<Rightarrow> int \<Rightarrow> string \<Rightarrow> (int \<times> string) result" where
  \<comment> \<open>the return value and the buffer; \<open>sz\<close>, the size, and the result are of type \<open>int\<close>\<close>
  "passwordCB buffer sz pass =
     (if (word_of_int sz :: size_t) < str_size pass then Inr (0, buffer)
      else and_then (strncpy buffer (c_str pass) (unat (word_of_int sz :: size_t))) (\<lambda>buffer'.
        Inr (sint (word_of_int (int (length pass)) :: uint32), buffer')))"

lemma length_c_str: "length (c_str s) \<le> length s"
  by (simp add: c_str_def length_takeWhile_le)

lemma word_size_t: "0 \<le> n \<Longrightarrow> n \<le> int_max \<Longrightarrow> unat (word_of_int n :: size_t) = nat n"
  by (simp add: int_max_def unat_eq_nat_uint uint_word_of_int)

lemma passwordCB_cases:
  assumes "sz = int (length buffer)" "sz \<le> int_max" "length pass \<le> max_size"
  shows "passwordCB buffer sz pass =
    Inr (if length buffer < length pass then (0, buffer)
         else (int (length pass), c_str pass @ replicate (length buffer - length (c_str pass)) NUL))"
proof -
  have sz: "unat (word_of_int sz :: size_t) = length buffer"
    using assms(1,2) word_size_t [of sz] by simp
  then have less: "(word_of_int sz :: size_t) < str_size pass \<longleftrightarrow> length buffer < length pass"
    by (simp add: word_less_nat_alt unat_str_size assms(3))
  have "sint (word_of_int (int (length pass)) :: uint32) = int (length pass)"
    if "\<not> length buffer < length pass"
    using that assms(1,2) sint_uint32 [of "int (length pass)"] by (simp add: int_min_def)
  then show ?thesis
    using less sz length_c_str [of pass] by (simp add: passwordCB_def strncpy_def)
qed

text \<open>
  C34. The password is handed over whole or not at all: with a buffer of the size that is
  passed, the callback stays within it; a password that fits is in the buffer with its
  length returned, even where no room is left for a final NUL, and for a longer one the buffer
  is untouched and zero is returned. With a negative size it would write out of bounds.
\<close>

theorem passwordCB_whole:
  assumes "NUL \<notin> set pass" "length pass \<le> max_size"
  shows "(length buffer \<le> nat int_max \<longrightarrow>
      (\<exists>n buffer'. passwordCB buffer (int (length buffer)) pass = Inr (n, buffer')
         \<and> length buffer' = length buffer
         \<and> (if length pass \<le> length buffer then n = int (length pass) \<and> take (nat n) buffer' = pass
            else n = 0 \<and> buffer' = buffer)))
    \<and> (\<forall>sz < 0. int_min \<le> sz \<longrightarrow> length buffer \<le> nat int_max \<longrightarrow> length pass \<le> nat int_max \<longrightarrow>
         passwordCB buffer sz pass = Inl (UndefinedBehaviour ''buffer overflow''))"
proof (intro conjI impI allI)
  assume "length buffer \<le> nat int_max"
  then have "int (length buffer) \<le> int_max" by (simp add: int_max_def)
  with passwordCB_cases [OF refl this assms(2)]
  show "\<exists>n buffer'. passwordCB buffer (int (length buffer)) pass = Inr (n, buffer')
      \<and> length buffer' = length buffer
      \<and> (if length pass \<le> length buffer then n = int (length pass) \<and> take (nat n) buffer' = pass
         else n = 0 \<and> buffer' = buffer)"
    using assms(1) by simp
next
  fix sz :: int
  assume sz: "sz < 0" "int_min \<le> sz" "length buffer \<le> nat int_max" "length pass \<le> nat int_max"
  have "sz mod 2 ^ 64 = (sz + 2 ^ 64) mod 2 ^ 64" by simp
  also have "\<dots> = sz + 2 ^ 64"
    using sz(1,2) by (intro mod_pos_pos_trivial) (simp_all add: int_min_def)
  finally have "uint (word_of_int sz :: size_t) = sz + 2 ^ 64"
    by (simp add: uint_word_of_int)
  then have "unat (word_of_int sz :: size_t) = nat (sz + 2 ^ 64)"
    by (simp add: unat_eq_nat_uint)
  moreover have "nat int_max < nat (sz + 2 ^ 64)"
    using sz(2) by (simp add: int_min_def int_max_def)
  ultimately have "length buffer < unat (word_of_int sz :: size_t)"
    "\<not> unat (word_of_int sz :: size_t) < length pass"
    using sz(3,4) by linarith+
  then show "passwordCB buffer sz pass = Inl (UndefinedBehaviour ''buffer overflow'')"
    by (simp add: passwordCB_def strncpy_def word_less_nat_alt unat_str_size assms(2))
qed

lemma passwordCB_whole_witness:
  "\<exists>n b. passwordCB (replicate 10 NUL) 10 ''1234567890'' = Inr (n, b) \<and> n = 10 \<and> b = ''1234567890''"
  using passwordCB_whole [of "''1234567890''" "replicate 10 NUL"]
  by (force simp: max_size_def int_max_def)

section \<open>The logging callback\<close>

record ssl_flags =
  SSL_CB_ALERT :: uint32
  SSL_CB_EXIT :: uint32
  SSL_CB_LOOP :: uint32
  SSL_CB_READ :: uint32
  SSL_CB_WRITE :: uint32
  SSL_CB_ACCEPT_EXIT :: uint32
  SSL_CB_ACCEPT_LOOP :: uint32
  SSL_CB_CONNECT_EXIT :: uint32
  SSL_CB_CONNECT_LOOP :: uint32
  SSL_CB_HANDSHAKE_DONE :: uint32
  SSL_CB_HANDSHAKE_START :: uint32
  SSL_CB_READ_ALERT :: uint32
  SSL_CB_WRITE_ALERT :: uint32

definition state_checks :: "ssl_flags \<Rightarrow> (uint32 \<times> string) list" where
  \<comment> \<open>the conditions of the callback in their order, each with the text it adds\<close>
  "state_checks F =
     [(SSL_CB_ALERT F, ''SSL_CB_ALERT''),
      (SSL_CB_EXIT F, '' SSL_CB_EXIT''),
      (SSL_CB_LOOP F, '' SSL_CB_LOOP''),
      (SSL_CB_READ F, '' SSL_CB_READ''),
      (SSL_CB_WRITE F, '' SSL_CB_WRITE''),
      (SSL_CB_ACCEPT_EXIT F, '' SSL_CB_ACCEPT_EXIT''),
      (SSL_CB_ACCEPT_LOOP F, '' SSL_CB_ACCEPT_LOOP''),
      (SSL_CB_CONNECT_EXIT F, '' SSL_CB_CONNECT_EXIT''),
      (SSL_CB_CONNECT_LOOP F, '' SSL_CB_CONNECT_LOOP''),
      (SSL_CB_HANDSHAKE_DONE F, '' SSL_CB_HANDSHAKE_DONE''),
      (SSL_CB_HANDSHAKE_START F, '' SSL_CB_HANDSHAKE_START''),
      (SSL_CB_READ_ALERT F, '' SSL_CB_READ_ALERT''),
      (SSL_CB_WRITE_ALERT F, '' SSL_CB_WRITE_ALERT'')]"

definition strType :: "ssl_flags \<Rightarrow> uint32 \<Rightarrow> string" where
  "strType F t =
     foldl (\<lambda>s (flag, text). if t AND flag \<noteq> 0 then s @ text else s) [] (state_checks F)"

definition printStateCB :: "ssl_flags \<Rightarrow> string \<Rightarrow> uint32 \<Rightarrow> int \<Rightarrow> string" where
  \<comment> \<open>the line that is logged; \<open>str\<close> is OpenSSL's name of the state\<close>
  "printStateCB F str t val =
     ''SSL state: '' @ str @ '' and type = '' @ strType F t @ '' val = '' @ show_int val"

lemma foldl_texts:
  "foldl (\<lambda>s (flag, text). if t AND flag \<noteq> 0 then s @ text else s) acc checks
     = acc @ concat (map snd (filter (\<lambda>(flag, text). t AND flag \<noteq> 0) checks))"
  by (induction checks arbitrary: acc) auto

lemma strType_checks:
  "strType F t = concat (map snd (filter (\<lambda>(flag, text). t AND flag \<noteq> 0) (state_checks F)))"
  by (simp add: strType_def foldl_texts)

definition composite_flags :: "ssl_flags \<Rightarrow> uint32 \<Rightarrow> uint32 \<Rightarrow> bool" where
  \<comment> \<open>how OpenSSL composes the constants; \<open>acc\<close> and \<open>con\<close> are \<open>SSL_ST_ACCEPT\<close> and \<open>SSL_ST_CONNECT\<close>\<close>
  "composite_flags F acc con \<longleftrightarrow>
     SSL_CB_ACCEPT_LOOP F = acc OR SSL_CB_LOOP F \<and> SSL_CB_ACCEPT_EXIT F = acc OR SSL_CB_EXIT F
   \<and> SSL_CB_CONNECT_LOOP F = con OR SSL_CB_LOOP F \<and> SSL_CB_CONNECT_EXIT F = con OR SSL_CB_EXIT F
   \<and> SSL_CB_READ_ALERT F = SSL_CB_ALERT F OR SSL_CB_READ F
   \<and> SSL_CB_WRITE_ALERT F = SSL_CB_ALERT F OR SSL_CB_WRITE F"

lemma and_or_nonzero:
  "t AND b \<noteq> 0 \<Longrightarrow> t AND (a OR b) \<noteq> (0 :: uint32)" "t AND a \<noteq> 0 \<Longrightarrow> t AND (a OR b) \<noteq> (0 :: uint32)"
  by (simp_all add: bit.conj_disj_distrib or_eq_0_iff)

lemma check_shown:
  "(flag, text) \<in> set checks \<Longrightarrow> t AND flag \<noteq> 0 \<Longrightarrow>
     text \<in> set (map snd (filter (\<lambda>(flag, text). t AND flag \<noteq> 0) checks))"
  by force

text \<open>
  What the TLS log says of an event: a composite constant is a mask of several bits and is
  reported as soon as one of them is set, so the line cannot tell a server's step from a
  client's: every step of the accepting side is logged as a step of the connecting side as
  well, and every alert that is read also as one that is written.
\<close>

theorem log_conflates_roles:
  assumes "composite_flags F acc con"
  shows "let shown = map snd (filter (\<lambda>(flag, text). t AND flag \<noteq> 0) (state_checks F)) in
      printStateCB F str t val
        = ''SSL state: '' @ str @ '' and type = '' @ concat shown @ '' val = '' @ show_int val
    \<and> (t AND SSL_CB_LOOP F \<noteq> 0 \<longrightarrow> '' SSL_CB_ACCEPT_LOOP'' \<in> set shown \<and> '' SSL_CB_CONNECT_LOOP'' \<in> set shown)
    \<and> (t AND SSL_CB_EXIT F \<noteq> 0 \<longrightarrow> '' SSL_CB_ACCEPT_EXIT'' \<in> set shown \<and> '' SSL_CB_CONNECT_EXIT'' \<in> set shown)
    \<and> (t AND SSL_CB_ALERT F \<noteq> 0 \<longrightarrow> '' SSL_CB_READ_ALERT'' \<in> set shown \<and> '' SSL_CB_WRITE_ALERT'' \<in> set shown)"
proof -
  have checks: "(SSL_CB_ACCEPT_EXIT F, '' SSL_CB_ACCEPT_EXIT'') \<in> set (state_checks F)"
    "(SSL_CB_ACCEPT_LOOP F, '' SSL_CB_ACCEPT_LOOP'') \<in> set (state_checks F)"
    "(SSL_CB_CONNECT_EXIT F, '' SSL_CB_CONNECT_EXIT'') \<in> set (state_checks F)"
    "(SSL_CB_CONNECT_LOOP F, '' SSL_CB_CONNECT_LOOP'') \<in> set (state_checks F)"
    "(SSL_CB_READ_ALERT F, '' SSL_CB_READ_ALERT'') \<in> set (state_checks F)"
    "(SSL_CB_WRITE_ALERT F, '' SSL_CB_WRITE_ALERT'') \<in> set (state_checks F)"
    by (simp_all only: state_checks_def list.set insert_iff simp_thms)
  show ?thesis
    using checks [THEN check_shown, of t] assms and_or_nonzero
    unfolding printStateCB_def strType_checks Let_def composite_flags_def by presburger
qed

definition openssl_flags :: ssl_flags where
  \<comment> \<open>an instance: the bits of OpenSSL 3\<close>
  "openssl_flags = \<lparr>SSL_CB_ALERT = 0x4000, SSL_CB_EXIT = 2, SSL_CB_LOOP = 1, SSL_CB_READ = 4,
     SSL_CB_WRITE = 8, SSL_CB_ACCEPT_EXIT = 0x2002, SSL_CB_ACCEPT_LOOP = 0x2001,
     SSL_CB_CONNECT_EXIT = 0x1002, SSL_CB_CONNECT_LOOP = 0x1001, SSL_CB_HANDSHAKE_DONE = 0x20,
     SSL_CB_HANDSHAKE_START = 0x10, SSL_CB_READ_ALERT = 0x4004, SSL_CB_WRITE_ALERT = 0x4008\<rparr>"

lemma log_conflates_roles_witness:
  "'' SSL_CB_CONNECT_LOOP'' \<in>
     set (map snd (filter (\<lambda>(flag, text). 0x2001 AND flag \<noteq> 0) (state_checks openssl_flags)))"
proof -
  have "composite_flags openssl_flags 0x2000 0x1000"
    by (simp add: composite_flags_def openssl_flags_def)
  moreover have "0x2001 AND SSL_CB_LOOP openssl_flags \<noteq> 0" by (simp add: openssl_flags_def)
  ultimately show ?thesis
    using log_conflates_roles [of openssl_flags "0x2000" "0x1000" "0x2001"]
    by (simp only: Let_def simp_thms)
qed

section \<open>The context\<close>

datatype verify_mode = SSL_VERIFY_NONE | SSL_VERIFY_PEER

record ssl_ctx =
  passwd_phrase :: "string option"
  certificate_file :: "string option"
  private_key_file :: "string option"
  verify_locations :: "string option"
  verify :: verify_mode
  verify_depth :: "int option"
  info_callback :: bool

record openssl =
  SSL_CTX_new :: "ssl_ctx option"
  SSL_CTX_use_certificate_file :: "ssl_ctx \<Rightarrow> string \<Rightarrow> int"
  SSL_CTX_use_PrivateKey_file :: "ssl_ctx \<Rightarrow> string \<Rightarrow> int"
  SSL_CTX_load_verify_locations :: "ssl_ctx \<Rightarrow> string \<Rightarrow> int"
  SSL_CTX_check_private_key :: "ssl_ctx \<Rightarrow> int"

definition getSSLContext :: "openssl \<Rightarrow> config \<Rightarrow> ssl_ctx result" where
  "getSSLContext ossl cfg =
     (case SSL_CTX_new ossl of
        None \<Rightarrow> Inl (Exit (-1))
      | Some ctx0 \<Rightarrow>
          (let ctx1 = ctx0\<lparr>passwd_phrase := Some (server_phrase cfg)\<rparr>;
               cert = c_str (server_cert_filename cfg);
               key = c_str (private_key_filename cfg);
               ca = c_str (ca_key_file_name cfg)
           in if SSL_CTX_use_certificate_file ossl ctx1 cert \<le> 0 then Inl (Exit (-1))
              else let ctx2 = ctx1\<lparr>certificate_file := Some cert\<rparr> in
              if SSL_CTX_use_PrivateKey_file ossl ctx2 key \<le> 0 then Inl (Exit (-1))
              else let ctx3 = ctx2\<lparr>private_key_file := Some key\<rparr> in
              if SSL_CTX_load_verify_locations ossl ctx3 ca \<le> 0 then Inl (Exit (-1))
              else let ctx4 = ctx3\<lparr>verify_locations := Some ca\<rparr> in
              if SSL_CTX_check_private_key ossl ctx4 = 0 then Inl (Exit (-1))
              else Inr (ctx4\<lparr>verify := SSL_VERIFY_NONE, verify_depth := Some 5, info_callback := True\<rparr>)))"

lemma getSSLContext_Inr:
  assumes "getSSLContext ossl cfg = Inr ctx"
  shows "\<exists>c0 c1 c2 c3 c4. SSL_CTX_new ossl = Some c0 \<and> c1 = c0\<lparr>passwd_phrase := Some (server_phrase cfg)\<rparr>
    \<and> 0 < SSL_CTX_use_certificate_file ossl c1 (c_str (server_cert_filename cfg))
    \<and> c2 = c1\<lparr>certificate_file := Some (c_str (server_cert_filename cfg))\<rparr>
    \<and> 0 < SSL_CTX_use_PrivateKey_file ossl c2 (c_str (private_key_filename cfg))
    \<and> c3 = c2\<lparr>private_key_file := Some (c_str (private_key_filename cfg))\<rparr>
    \<and> 0 < SSL_CTX_load_verify_locations ossl c3 (c_str (ca_key_file_name cfg))
    \<and> c4 = c3\<lparr>verify_locations := Some (c_str (ca_key_file_name cfg))\<rparr>
    \<and> SSL_CTX_check_private_key ossl c4 \<noteq> 0
    \<and> ctx = c4\<lparr>verify := SSL_VERIFY_NONE, verify_depth := Some 5, info_callback := True\<rparr>"
  using assms by (auto simp: getSSLContext_def Let_def split: option.splits if_splits)


definition sample_openssl :: openssl where
  "sample_openssl = \<lparr>
     SSL_CTX_new = Some \<lparr>passwd_phrase = None, certificate_file = None, private_key_file = None,
       verify_locations = None, verify = SSL_VERIFY_PEER, verify_depth = None, info_callback = False\<rparr>,
     SSL_CTX_use_certificate_file = (\<lambda>ctx f. if f = ''server.crt'' then 1 else 0),
     SSL_CTX_use_PrivateKey_file = (\<lambda>ctx f. if passwd_phrase ctx = Some ''1234567890'' then 1 else 0),
     SSL_CTX_load_verify_locations = (\<lambda>ctx f. 1),
     SSL_CTX_check_private_key = (\<lambda>ctx. 1)\<rparr>"


end
