(* ===== verification/Startup.thy ===== *)
theory Startup
  imports Ssl_Context Presence_Store
begin

text \<open>
  \<open>src/src/AppComponent.h\<close> and \<open>src/src/App.cpp\<close>: the components that are created from the
  configuration, and \<open>run\<close>, which prepares the database and starts one server thread per
  connection provider. oatpp, OpenSSL and the operating system are parameters, collected in
  the record \<open>platform\<close>; the Cassandra driver is the one of the theory \<open>Scylla\<close>.
\<close>

section \<open>The components\<close>

record 'p platform =
  os :: os_net
  ssl :: openssl
  Executor :: "uint32 \<Rightarrow> uint32 \<Rightarrow> uint32 \<Rightarrow> unit result"
  createShared :: "ssl_ctx option \<Rightarrow> string \<Rightarrow> uint16 \<Rightarrow> 'p result"
  constructed :: "string \<Rightarrow> unit result"  \<comment> \<open>the creation of another object of a library, or of the io thread\<close>
  session_connect :: "cluster \<Rightarrow> string option"
  thread_starts :: "'p \<Rightarrow> bool"

lemma counter_advances: "i < n \<Longrightarrow> unat (i + 1 :: uint8) = unat i + 1"
proof -
  assume "i < n"
  then have "unat i < unat n" by (simp add: word_less_nat_alt)
  then have "unat i + 1 < 256" using unsigned_less [of n, where 'a = nat] by simp
  then show ?thesis by (simp add: unat_word_ariths)
qed

function provider_loop :: "(uint16 \<Rightarrow> 'p result) \<Rightarrow> uint16 \<Rightarrow> uint8 \<Rightarrow> uint8 \<Rightarrow> 'p list result" where
  \<comment> \<open>the loop from counter \<open>i\<close>; the sum of port and counter is cut to 16 bits\<close>
  "provider_loop create port n i =
     (if i < n then
        (case create (port + ucast i) of
           Inl e \<Rightarrow> if is_exception e then Inl (Exit (-1)) else Inl e
         | Inr p \<Rightarrow> and_then (provider_loop create port n (i + 1)) (\<lambda>ps. Inr (p # ps)))
      else Inr [])"
  by pat_completeness auto

termination
  by (relation "measure (\<lambda>(create, port, n, i). unat n - unat i)")
    (auto simp: counter_advances word_less_nat_alt)

declare provider_loop.simps [simp del]

definition connectionProviders :: "'p platform \<Rightarrow> config \<Rightarrow> 'p list result" where
  "connectionProviders P cfg =
     (let port = (if use_mtls cfg then mtls_base_port cfg else base_port cfg)
      in and_then (if use_mtls cfg then and_then (getSSLContext (ssl P) cfg) (\<lambda>ctx. Inr (Some ctx))
                   else Inr None) (\<lambda>ctx.
           provider_loop (createShared P ctx (server_address cfg)) port (number_of_ports cfg) 0))"

definition dbManger :: "config \<Rightarrow> scylla_manager" where
  "dbManger cfg = ScyllaDBManager (scylladb_address cfg) (host_ip cfg) (scylladb_port cfg)"

definition requestExcecutor :: "config \<Rightarrow> string \<times> uint16" where
  \<comment> \<open>the address of the request executor: the number is cut to \<open>v_int16\<close>, then read as \<open>v_uint16\<close>\<close>
  "requestExcecutor cfg =
     (let port = word_of_int (fst (strtol (http_request_port cfg))) :: 16 word
      in (http_request_address cfg, port))"

fun make_all :: "(string \<Rightarrow> unit result) \<Rightarrow> string list \<Rightarrow> unit result" where
  \<comment> \<open>creations one after the other, up to the first that throws\<close>
  "make_all mk [] = Inr ()"
| "make_all mk (x # xs) = and_then (mk x) (\<lambda>_. make_all mk xs)"

definition app_objects :: "string list" where
  \<comment> \<open>what \<open>AppComponent\<close> creates after the connection providers\<close>
  "app_objects = [''HttpRouter'', ''AsyncHttpConnectionHandler'', ''Objectmapper'', ''apiObjectMapper'',
     ''clientApiObjectmapper'', ''AsyncConnectionHandler'', ''WSInstanceListener'', ''ScyllaDBManager'',
     ''ConnectionProvider'', ''HttpRequestExecutor'']"

definition run_objects :: "string list" where
  \<comment> \<open>what \<open>run\<close> creates once the database is prepared\<close>
  "run_objects = [''WsController'', ''io_context'', ''workGuard'', ''ioThread'']"

record 'p components =
  configuration :: config
  providers :: "'p list"
  manager :: scylla_manager
  request_address :: "string \<times> uint16"

definition AppComponent :: "'p platform \<Rightarrow> environment \<Rightarrow> 'p components result" where
  \<comment> \<open>the members are initialised in the order of their declaration\<close>
  "AppComponent P env =
     and_then (Config (os P) env) (\<lambda>cfg.
     and_then (Executor P (number_of_worker_threads cfg) (number_of_io_threads cfg)
                 (number_of_timer_threads cfg)) (\<lambda>_.
     and_then (connectionProviders P cfg) (\<lambda>ps.
     and_then (make_all (constructed P) app_objects) (\<lambda>_.
       Inr \<lparr>configuration = cfg, providers = ps, manager = dbManger cfg,
             request_address = requestExcecutor cfg\<rparr>))))"

section \<open>run and main\<close>

definition prepare_database ::
    "'w driver \<Rightarrow> (cluster \<Rightarrow> string option) \<Rightarrow> config \<Rightarrow> scylla_manager \<Rightarrow> cluster \<Rightarrow> 'w
       \<Rightarrow> (scylla_manager \<times> 'w) result \<times> cass_call list" where
  \<comment> \<open>the first part of \<open>run\<close>, with the calls on the driver\<close>
  "prepare_database exec sc cfg m0 cl w0 =
     (let (ok0, c0, cl') = connect sc m0 cl (scylladb_address cfg) in
      if \<not> ok0 then (Inl (Exit (-1)), c0)
      else let (m1, ok1, c1, w1) = create_keyspace exec m0 (scylladb_keyspace_name cfg)
             (scylladb_strategy cfg) (sint (scylladb_replication_factor cfg)) w0 in
      if \<not> ok1 then (Inl (Exit (-1)), c0 @ c1)
      else let (m2, ok2, c2, w2) = create_table exec m1 (scylladb_table_name cfg) w1 in
      if \<not> ok2 then (Inl (Exit (-1)), c0 @ c1 @ c2)
      else let (ok3, c3, w3) = create_materialized_view exec m2 w2 in
      if \<not> ok3 then (Inl (Exit (-1)), c0 @ c1 @ c2 @ c3)
      else (Inr (m2, w3), c0 @ c1 @ c2 @ c3))"

record ('p, 'w) served =
  threads :: "'p list"
  db_manager :: scylla_manager
  database :: 'w
  components_of :: "'p components"

definition run ::
    "'p platform \<Rightarrow> 'w driver \<Rightarrow> environment \<Rightarrow> cluster \<Rightarrow> 'w \<Rightarrow> ('p, 'w) served option result" where
  \<comment> \<open>\<open>None\<close>: an exception was caught and logged; a thread that fails to start is skipped\<close>
  "run P exec env cl w =
     (case and_then (AppComponent P env) (\<lambda>c.
           and_then (fst (prepare_database exec (session_connect P) (configuration c) (manager c) cl w)) (\<lambda>(m, w').
           and_then (make_all (constructed P) run_objects) (\<lambda>_.
             Inr \<lparr>threads = filter (thread_starts P) (providers c), db_manager = m,
                  database = w', components_of = c\<rparr>)))
      of Inl e \<Rightarrow> if is_exception e then Inr None else Inl e
       | Inr s \<Rightarrow> Inr (Some s))"

definition main :: "'p platform \<Rightarrow> 'w driver \<Rightarrow> environment \<Rightarrow> cluster \<Rightarrow> 'w \<Rightarrow> int result" where
  \<comment> \<open>the exit status of the process, once every server has stopped\<close>
  "main P exec env cl w =
     (case run P exec env cl w of
        Inl (Exit status) \<Rightarrow> Inr status
      | Inl e \<Rightarrow> Inl e
      | Inr _ \<Rightarrow> Inr 0)"

section \<open>Listening ports\<close>

lemma provider_loop_Inr:
  "provider_loop create port n i = Inr ps \<longleftrightarrow>
     list_all2 (\<lambda>k p. create (port + of_nat k) = Inr p) [unat i..<unat n] ps"
proof (induction create port n i arbitrary: ps rule: provider_loop.induct)
  case (1 create port n i)
  show ?case
  proof (cases "i < n")
    case True
    then have range: "[unat i..<unat n] = unat i # [unat (i + 1)..<unat n]"
      by (simp add: word_less_nat_alt counter_advances upt_conv_Cons)
    show ?thesis
      using True 1
      by (subst provider_loop.simps)
        (auto simp: range list_all2_Cons1 and_then_eq_Inr split: sum.splits)
  next
    case False
    then have "[unat i..<unat n] = []" by (simp add: word_less_nat_alt)
    with False show ?thesis by (subst provider_loop.simps) auto
  qed
qed

lemma provider_loop_Inl:
  assumes "\<And>p e. create p = Inl e \<Longrightarrow> is_exception e"
  shows "provider_loop create port n i = Inl e \<Longrightarrow> e = Exit (-1)"
  using assms
proof (induction create port n i rule: provider_loop.induct)
  case (1 create port n i)
  show ?case
  proof (cases "i < n")
    case True
    note unfolded = 1(2) [unfolded provider_loop.simps [of create port n i]]
    show ?thesis
    proof (cases "create (port + ucast i)")
      case (Inl e')
      then show ?thesis using unfolded True 1(3) by simp
    next
      case (Inr p)
      then have "provider_loop create port n (i + 1) = Inl e"
        using unfolded True by (cases "provider_loop create port n (i + 1)") simp_all
      then show ?thesis using 1(1) [OF True Inr] 1(3) by blast
    qed
  next
    case False
    then show ?thesis using 1(2) by (subst (asm) provider_loop.simps) simp
  qed
qed

lemma connectionProviders_Inr:
  assumes "connectionProviders P cfg = Inr ps"
  shows "\<exists>ctx. (use_mtls cfg \<longrightarrow> (\<exists>x. getSSLContext (ssl P) cfg = Inr x \<and> ctx = Some x))
    \<and> (\<not> use_mtls cfg \<longrightarrow> ctx = None)
    \<and> list_all2 (\<lambda>k p. createShared P ctx (server_address cfg)
          ((if use_mtls cfg then mtls_base_port cfg else base_port cfg) + of_nat k) = Inr p)
        [0..<unat (number_of_ports cfg)] ps"
  using assms
  by (auto simp: connectionProviders_def and_then_eq_Inr provider_loop_Inr Let_def split: if_splits)

lemma word_of_int_mod_16: "word_of_int (x mod 2 ^ 16) = (word_of_int x :: uint16)"
  unfolding take_bit_eq_mod [symmetric] by (rule bit_word_eqI) (simp add: bit_simps)

text \<open>
  C27. The gateway listens on exactly the configured number of ports: the provider list is
  complete or there is none, its element \<open>i\<close> is the provider created for the base port of
  the selected mode plus \<open>i\<close> modulo \<open>2^16\<close>, no port occurs twice, and every provider carries
  the TLS context exactly if TLS is in use.
\<close>

theorem listening_ports:
  assumes "connectionProviders P cfg = Inr ps"
  shows "length ps = unat (number_of_ports cfg)
    \<and> (\<exists>ctx. (ctx \<noteq> None \<longleftrightarrow> use_mtls cfg)
       \<and> (\<forall>i < length ps. createShared P ctx (server_address cfg)
            (word_of_int ((uint (if use_mtls cfg then mtls_base_port cfg else base_port cfg) + int i) mod 2 ^ 16))
          = Inr (ps ! i)))
    \<and> distinct (map (\<lambda>i. base + of_nat i :: uint16) [0..<length ps])"
proof -
  let ?base = "if use_mtls cfg then mtls_base_port cfg else base_port cfg"
  obtain ctx where ctx: "ctx \<noteq> None \<longleftrightarrow> use_mtls cfg" and
    all: "list_all2 (\<lambda>k p. createShared P ctx (server_address cfg) (?base + of_nat k) = Inr p)
        [0..<unat (number_of_ports cfg)] ps"
    using connectionProviders_Inr [OF assms] by auto
  have len: "length ps = unat (number_of_ports cfg)" using list_all2_lengthD [OF all] by simp
  have sum: "word_of_int ((uint b + int i) mod 2 ^ 16) = (b + of_nat i :: uint16)" for b i
  proof -
    have "word_of_int ((uint b + int i) mod 2 ^ 16) = (word_of_int (uint b + int i) :: uint16)"
      by (rule word_of_int_mod_16)
    also have "\<dots> = b + of_nat i" by simp
    finally show ?thesis .
  qed
  have "length ps < 256" using unsigned_less [of "number_of_ports cfg", where 'a = nat] len by simp
  moreover have "i = j" if "base + of_nat i = (base + of_nat j :: uint16)" "i < 256" "j < 256" for i j
    using that by (simp add: word_of_nat_eq_iff take_bit_eq_mod)
  ultimately have "distinct (map (\<lambda>i. base + of_nat i :: uint16) [0..<length ps])"
    by (auto simp: distinct_map inj_on_def)
  moreover have "\<forall>i < length ps. createShared P ctx (server_address cfg)
      (word_of_int ((uint ?base + int i) mod 2 ^ 16)) = Inr (ps ! i)"
    unfolding sum using list_all2_nthD [OF all] len by simp
  ultimately show ?thesis using len ctx by blast
qed

definition numbered_platform :: "string list \<Rightarrow> uint16 platform" where
  \<comment> \<open>an instance: a provider is its port, host names and contexts are always available\<close>
  "numbered_platform busy = \<lparr>os = sample_os, ssl = sample_openssl,
     Executor = (\<lambda>w i t. if w = 0 \<or> i = 0 \<or> t = 0 then Inl (LibraryException ''no threads'') else Inr ()),
     createShared = (\<lambda>ctx addr p. if show_nat (unat p) \<in> set busy then Inl (LibraryException ''port in use'')
                               else Inr p),
     constructed = (\<lambda>x. Inr ()),
     session_connect = (\<lambda>cl. if contact_points cl \<noteq> [] then None else Some ''no hosts''), thread_starts = (\<lambda>p. True)\<rparr>"

definition sample_env :: environment where
  "sample_env = [''WSS_NUMBER_OF_PORTS'' \<mapsto> ''2'', ''WSS_PORT'' \<mapsto> ''-1'']"

lemma sample_env_fields:
  "number_of_ports (Config_of h sample_env) = 2" "base_port (Config_of h sample_env) = 65535"
  "use_mtls (Config_of h sample_env) = False"
proof -
  have "stoi ''2'' = Inr 2" "stoi ''-1'' = Inr (-1)" by code_simp+
  then have "getEnvInt sample_env ''WSS_NUMBER_OF_PORTS'' 24 = 2" "getEnvInt sample_env ''WSS_PORT'' 8020 = -1"
    by (simp_all add: sample_env_def getEnvInt_def)
  then show "number_of_ports (Config_of h sample_env) = 2" "base_port (Config_of h sample_env) = 65535"
    by (simp_all only: Config_of_def config.simps) simp_all
  have "getEnvString sample_env ''WSS_USE_MTLS'' ''false'' = ''false''"
    by (simp add: sample_env_def getEnvString_def)
  moreover have "map tolower ''false'' \<noteq> ''true''" by code_simp
  ultimately show "use_mtls (Config_of h sample_env) = False"
    by (simp only: Config_of_def config.simps)
qed

lemma connectionProviders_sample:
  "connectionProviders (numbered_platform []) (Config_of h sample_env) = Inr [65535, 0]"
proof -
  have "provider_loop (createShared (numbered_platform []) None a) 65535 2 0 = Inr [65535, 0]" for a
    by (subst provider_loop.simps, subst provider_loop.simps, subst provider_loop.simps)
      (simp add: numbered_platform_def)
  then show ?thesis by (simp add: connectionProviders_def sample_env_fields)
qed

lemma listening_ports_witness:
  "distinct (map (\<lambda>i. 65535 + of_nat i :: uint16) [0..<length [65535, 0 :: uint16]])"
  using listening_ports [OF connectionProviders_sample, where base = 65535] by blast

section \<open>The database at start\<close>

lemma execute_query_fst:
  "fst (execute_query exec q w) \<longleftrightarrow> (\<exists>rs w'. exec (c_str q) w = (CassOk rs, w'))"
  by (auto simp: execute_query_def Let_def split: prod.splits cass_result.splits)

lemma execute_query_ok:
  "execute_query exec q w = (True, c, w') \<longleftrightarrow>
     (\<exists>rs. exec (c_str q) w = (CassOk rs, w'))
     \<and> c = [StatementNew (c_str q), SessionExecute, StatementFree, FutureFree]"
  by (auto simp: execute_query_def Let_def split: prod.splits cass_result.splits)

definition named :: "config \<Rightarrow> scylla_manager \<Rightarrow> scylla_manager" where
  \<comment> \<open>the manager once keyspace and table are named as configured\<close>
  "named cfg m = m\<lparr>m_keyspace := scylladb_keyspace_name cfg, m_table := scylladb_table_name cfg\<rparr>"

definition start_statements :: "config \<Rightarrow> scylla_manager \<Rightarrow> string list" where
  "start_statements cfg m =
     map c_str [keyspace_query (scylladb_keyspace_name cfg) (scylladb_strategy cfg)
                  (sint (scylladb_replication_factor cfg)),
                table_query (named cfg m), view_query (named cfg m)]"

fun exec_all :: "'w driver \<Rightarrow> string list \<Rightarrow> 'w \<Rightarrow> 'w option" where
  \<comment> \<open>specification: all statements accepted, one after the other\<close>
  "exec_all exec [] w = Some w"
| "exec_all exec (q # qs) w =
     (case exec q w of (CassOk rs, w') \<Rightarrow> exec_all exec qs w' | (CassError e, w') \<Rightarrow> None)"

fun until_rejected :: "'w driver \<Rightarrow> string list \<Rightarrow> 'w \<Rightarrow> string list" where
  \<comment> \<open>specification: the statements as far as the first that is rejected, that one included\<close>
  "until_rejected exec [] w = []"
| "until_rejected exec (q # qs) w =
     q # (case exec q w of (CassOk rs, w') \<Rightarrow> until_rejected exec qs w' | (CassError e, w') \<Rightarrow> [])"

lemma until_rejected_all: "exec_all exec qs w \<noteq> None \<Longrightarrow> until_rejected exec qs w = qs"
  by (induction qs arbitrary: w) (auto split: prod.splits cass_result.splits)

definition statements :: "cass_call list \<Rightarrow> string list" where
  "statements calls = concat (map (\<lambda>c. case c of StatementNew q \<Rightarrow> [q] | _ \<Rightarrow> []) calls)"

lemma statements_simps [simp]:
  "statements [] = []"
  "statements (c # cs) = (case c of StatementNew q \<Rightarrow> [q] | _ \<Rightarrow> []) @ statements cs"
  "statements (cs @ ds) = statements cs @ statements ds" "statements (print_error e) = []"
  by (simp_all add: statements_def print_error_def)

lemma execute_query_log: "statements (fst (snd (execute_query exec q w))) = [c_str q]"
  by (simp add: execute_query_def Let_def split: prod.splits cass_result.splits)

lemma connect_parts:
  "connect sc m cl hosts = (ok, c, cl') \<Longrightarrow> ok = (sc (configured m cl hosts) = None) \<and> statements c = []"
  using connect_configured [of sc m cl hosts] by (auto split: option.splits)

lemma exec_all_step:
  "execute_query exec q w = (ok, c, w') \<Longrightarrow>
     exec_all exec (c_str q # qs) w = (if ok then exec_all exec qs w' else None) \<and> statements c = [c_str q]
     \<and> until_rejected exec (c_str q # qs) w = c_str q # (if ok then until_rejected exec qs w' else [])"
  using execute_query_log [of exec q w]
  by (auto simp: execute_query_def Let_def split: prod.splits cass_result.splits)

lemma start_queries:
  "create_keyspace exec m (scylladb_keyspace_name cfg) (scylladb_strategy cfg)
     (sint (scylladb_replication_factor cfg)) w
     = (m\<lparr>m_keyspace := scylladb_keyspace_name cfg\<rparr>, execute_query exec
          (keyspace_query (scylladb_keyspace_name cfg) (scylladb_strategy cfg)
             (sint (scylladb_replication_factor cfg))) w)"
  "create_table exec (m\<lparr>m_keyspace := scylladb_keyspace_name cfg\<rparr>) (scylladb_table_name cfg) w
     = (named cfg m, execute_query exec (table_query (named cfg m)) w)"
  by (simp_all add: create_keyspace_def create_table_def named_def Let_def)

lemma prepare_database_all:
  "prepare_database exec sc cfg m cl w = (r, calls) \<Longrightarrow>
     (r = (if sc (configured m cl (scylladb_address cfg)) = None then
             (case exec_all exec (start_statements cfg m) w of
                None \<Rightarrow> Inl (Exit (-1)) | Some w' \<Rightarrow> Inr (named cfg m, w'))
           else Inl (Exit (-1))))
     \<and> statements calls = (if sc (configured m cl (scylladb_address cfg)) = None
          then until_rejected exec (start_statements cfg m) w else [])"
  by (auto simp: prepare_database_def start_statements_def start_queries create_materialized_view_def
      exec_all_step Let_def simp del: exec_all.simps(2) until_rejected.simps(2)
      dest!: connect_parts exec_all_step split: prod.splits if_splits option.splits)

text \<open>
  C26. The database is prepared in order and to the end, or the start is aborted: when the
  session was opened, the statements that are sent are those for keyspace, table and view, with
  the configured names, in this order, exactly as far as the first that is rejected; when it was
  not, none is sent. Only when the session was opened and all three were accepted does the
  start go on, with the manager that every later statement uses carrying the configured
  names, and in every other case the process exits with \<open>-1\<close>.
\<close>

theorem database_prepared_in_order:
  assumes "prepare_database exec sc cfg m cl w = (r, calls)"
  shows "(r = (if sc (configured m cl (scylladb_address cfg)) = None then
             (case exec_all exec (start_statements cfg m) w of
                None \<Rightarrow> Inl (Exit (-1)) | Some w' \<Rightarrow> Inr (named cfg m, w'))
           else Inl (Exit (-1))))
     \<and> statements calls = (if sc (configured m cl (scylladb_address cfg)) = None
          then until_rejected exec (start_statements cfg m) w else [])"
  by (rule prepare_database_all [OF assms])

definition counting_exec :: "string list driver" where
  \<comment> \<open>an instance: every statement is accepted and recorded\<close>
  "counting_exec q w = (CassOk [], w @ [q])"

definition fresh_cluster :: cluster where
  "fresh_cluster = \<lparr>contact_points = [], cluster_port = None\<rparr>"

lemma counting_all: "exec_all counting_exec qs w = Some (w @ qs)"
  by (induction qs arbitrary: w) (simp_all add: counting_exec_def)

lemma database_prepared_in_order_witness:
  "fst (prepare_database counting_exec (\<lambda>_. None) (Config_of ''gw1'' Map.empty)
      (dbManger (Config_of ''gw1'' Map.empty)) fresh_cluster [])
   = Inr (named (Config_of ''gw1'' Map.empty) (dbManger (Config_of ''gw1'' Map.empty)),
          start_statements (Config_of ''gw1'' Map.empty) (dbManger (Config_of ''gw1'' Map.empty)))"
proof -
  let ?c = "Config_of ''gw1'' Map.empty"
  obtain r calls where r: "prepare_database counting_exec (\<lambda>_. None) ?c (dbManger ?c) fresh_cluster [] = (r, calls)"
    by fastforce
  show ?thesis
    using database_prepared_in_order [OF r] r counting_all [of "start_statements ?c (dbManger ?c)" "[]"]
    by simp
qed

section \<open>Outcomes of a start\<close>

lemma AppComponent_Inr:
  "AppComponent P env = Inr c \<Longrightarrow>
     Config (os P) env = Inr (configuration c) \<and> connectionProviders P (configuration c) = Inr (providers c)
   \<and> manager c = dbManger (configuration c) \<and> request_address c = requestExcecutor (configuration c)
   \<and> Executor P (number_of_worker_threads (configuration c)) (number_of_io_threads (configuration c))
       (number_of_timer_threads (configuration c)) = Inr () \<and> make_all (constructed P) app_objects = Inr ()"
  by (auto simp: AppComponent_def and_then_eq_Inr)

lemma make_all_Inr: "make_all mk xs = Inr u \<longleftrightarrow> list_all (\<lambda>x. mk x = Inr ()) xs"
  by (induction xs) (auto simp: and_then_eq_Inr)

lemma make_all_Inl:
  "make_all mk xs = Inl e \<Longrightarrow> \<forall>x e. mk x = Inl e \<longrightarrow> is_exception e \<Longrightarrow> is_exception e \<and> \<not> list_all (\<lambda>x. mk x = Inr ()) xs"
  by (induction xs) (auto simp: and_then_eq_Inl)

lemma prepare_database_fst:
  "fst (prepare_database exec sc cfg m cl w) =
     (if sc (configured m cl (scylladb_address cfg)) = None then
        (case exec_all exec (start_statements cfg m) w of
           None \<Rightarrow> Inl (Exit (-1)) | Some w' \<Rightarrow> Inr (named cfg m, w'))
      else Inl (Exit (-1)))"
  using prepare_database_all [of exec sc cfg m cl w] by (metis surjective_pairing)

lemma run_served:
  "run P exec env cl w = Inr (Some s) \<longleftrightarrow>
     (\<exists>c w'. AppComponent P env = Inr c
        \<and> session_connect P (configured (manager c) cl (scylladb_address (configuration c))) = None
        \<and> exec_all exec (start_statements (configuration c) (manager c)) w = Some w'
        \<and> make_all (constructed P) run_objects = Inr ()
        \<and> s = \<lparr>threads = filter (thread_starts P) (providers c),
               db_manager = named (configuration c) (manager c), database = w', components_of = c\<rparr>)"
  by (auto simp: run_def prepare_database_fst and_then_eq_Inr split: sum.splits option.splits if_splits)

lemma getSSLContext_Inl: "getSSLContext L cfg = Inl e \<Longrightarrow> e = Exit (-1)"
  by (auto simp: getSSLContext_def Let_def split: option.splits if_splits)

lemma connectionProviders_Inl:
  assumes "\<forall>ctx addr p e. createShared P ctx addr p = Inl e \<longrightarrow> is_exception e"
    and "connectionProviders P cfg = Inl e"
  shows "e = Exit (-1)"
proof -
  let ?loop = "\<lambda>ctx. provider_loop (createShared P ctx (server_address cfg))
    (if use_mtls cfg then mtls_base_port cfg else base_port cfg) (number_of_ports cfg) 0"
  have "e = Exit (-1)" if "?loop ctx = Inl e" for ctx
    using provider_loop_Inl [of "createShared P ctx (server_address cfg)", OF _ that] assms(1) by blast
  then show ?thesis
    using assms(2) getSSLContext_Inl [of "ssl P" cfg e]
    by (auto simp: connectionProviders_def and_then_eq_Inl Let_def split: if_splits)
qed

definition tls_ready :: "'p platform \<Rightarrow> config \<Rightarrow> ssl_ctx option \<Rightarrow> bool" where
  "tls_ready P cfg ctx \<longleftrightarrow>
     (if use_mtls cfg then \<exists>x. getSSLContext (ssl P) cfg = Inr x \<and> ctx = Some x else ctx = None)"

definition can_listen :: "'p platform \<Rightarrow> config \<Rightarrow> bool" where
  \<comment> \<open>specification: TLS, if it is in use, can be set up, and every port is available\<close>
  "can_listen P cfg \<longleftrightarrow> (\<exists>ctx. tls_ready P cfg ctx
     \<and> (\<forall>i < unat (number_of_ports cfg). \<exists>p. createShared P ctx (server_address cfg)
          ((if use_mtls cfg then mtls_base_port cfg else base_port cfg) + of_nat i) = Inr p))"

definition has_threads :: "'p platform \<Rightarrow> config \<Rightarrow> bool" where
  "has_threads P cfg \<longleftrightarrow> Executor P (number_of_worker_threads cfg) (number_of_io_threads cfg)
     (number_of_timer_threads cfg) = Inr ()"

definition database_ready :: "'p platform \<Rightarrow> 'w driver \<Rightarrow> config \<Rightarrow> cluster \<Rightarrow> 'w \<Rightarrow> bool" where
  \<comment> \<open>specification: the session opens and the three statements are accepted\<close>
  "database_ready P exec cfg cl w \<longleftrightarrow>
     session_connect P (configured (dbManger cfg) cl (scylladb_address cfg)) = None
   \<and> exec_all exec (start_statements cfg (dbManger cfg)) w \<noteq> None"

definition all_made :: "'p platform \<Rightarrow> string list \<Rightarrow> bool" where
  "all_made P xs \<longleftrightarrow> list_all (\<lambda>x. constructed P x = Inr ()) xs"

definition only_throws :: "'p platform \<Rightarrow> bool" where
  \<comment> \<open>oatpp, Boost and the thread library fail only by exceptions\<close>
  "only_throws P \<longleftrightarrow> (\<forall>a b c e. Executor P a b c = Inl e \<longrightarrow> is_exception e)
     \<and> (\<forall>ctx addr p e. createShared P ctx addr p = Inl e \<longrightarrow> is_exception e)
     \<and> (\<forall>x e. constructed P x = Inl e \<longrightarrow> is_exception e)"

lemma connectionProviders_can_listen: "(\<exists>ps. connectionProviders P cfg = Inr ps) \<longleftrightarrow> can_listen P cfg"
proof
  assume "\<exists>ps. connectionProviders P cfg = Inr ps"
  then obtain ps ctx where c: "tls_ready P cfg ctx"
    "list_all2 (\<lambda>k p. createShared P ctx (server_address cfg)
       ((if use_mtls cfg then mtls_base_port cfg else base_port cfg) + of_nat k) = Inr p)
       [0..<unat (number_of_ports cfg)] ps"
    using connectionProviders_Inr unfolding tls_ready_def by metis
  then have "\<exists>p. createShared P ctx (server_address cfg)
      ((if use_mtls cfg then mtls_base_port cfg else base_port cfg) + of_nat i) = Inr p"
    if "i < unat (number_of_ports cfg)" for i
    using list_all2_nthD [OF c(2), of i] that by auto
  with c(1) show "can_listen P cfg" unfolding can_listen_def by blast
next
  assume "can_listen P cfg"
  then obtain ctx f where c: "tls_ready P cfg ctx"
    "\<forall>i < unat (number_of_ports cfg). createShared P ctx (server_address cfg)
       ((if use_mtls cfg then mtls_base_port cfg else base_port cfg) + of_nat i) = Inr (f i)"
    unfolding can_listen_def by metis
  then have "provider_loop (createShared P ctx (server_address cfg))
      (if use_mtls cfg then mtls_base_port cfg else base_port cfg) (number_of_ports cfg) 0
      = Inr (map f [0..<unat (number_of_ports cfg)])"
    by (simp add: provider_loop_Inr list_all2_conv_all_nth)
  with c(1) show "\<exists>ps. connectionProviders P cfg = Inr ps"
    by (auto simp: connectionProviders_def tls_ready_def Let_def split: if_splits)
qed

lemma AppComponent_cases:
  assumes "only_throws P" "Config (os P) env = Inr cfg"
  shows "case AppComponent P env of
      Inl e \<Rightarrow> (if is_exception e then \<not> has_threads P cfg \<or> can_listen P cfg \<and> \<not> all_made P app_objects
               else e = Exit (-1) \<and> has_threads P cfg \<and> \<not> can_listen P cfg)
    | Inr c \<Rightarrow> configuration c = cfg \<and> manager c = dbManger cfg \<and> has_threads P cfg \<and> can_listen P cfg
               \<and> all_made P app_objects"
proof (cases "AppComponent P env")
  case (Inr c)
  note parts = AppComponent_Inr [OF Inr]
  then have "configuration c = cfg" using assms(2) by simp
  then show ?thesis
    using parts connectionProviders_can_listen [of P cfg]
    by (auto simp: Inr has_threads_def all_made_def make_all_Inr)
next
  case (Inl e)
  from assms(1) have throws: "\<forall>ctx addr p e. createShared P ctx addr p = Inl e \<longrightarrow> is_exception e"
    "\<forall>a b c e. Executor P a b c = Inl e \<longrightarrow> is_exception e" "\<forall>x e. constructed P x = Inl e \<longrightarrow> is_exception e"
    by (simp_all add: only_throws_def)
  from Inl assms(2) consider
      (threads) "Executor P (number_of_worker_threads cfg) (number_of_io_threads cfg) (number_of_timer_threads cfg) = Inl e"
    | (listen) "has_threads P cfg" "connectionProviders P cfg = Inl e"
    | (objects) "has_threads P cfg" "\<exists>ps. connectionProviders P cfg = Inr ps" "make_all (constructed P) app_objects = Inl e"
    by (auto simp: AppComponent_def and_then_eq_Inl has_threads_def)
  then show ?thesis
  proof cases
    case threads
    then show ?thesis using Inl throws(2) by (auto simp: has_threads_def)
  next
    case listen
    then have "e = Exit (-1)" "\<not> can_listen P cfg"
      using connectionProviders_Inl [OF throws(1)] connectionProviders_can_listen [of P cfg] by auto
    then show ?thesis using Inl listen(1) by simp
  next
    case objects
    then show ?thesis
      using Inl make_all_Inl [OF objects(3) throws(3)] connectionProviders_can_listen [of P cfg] by (simp add: all_made_def)
  qed
qed

lemma run_cases:
  assumes "only_throws P" "Config (os P) env = Inr cfg"
  shows "run P exec env cl w =
      (if \<not> has_threads P cfg then Inr None
       else if \<not> can_listen P cfg then Inl (Exit (-1))
       else if \<not> all_made P app_objects then Inr None
       else if \<not> database_ready P exec cfg cl w then Inl (Exit (-1))
       else if \<not> all_made P run_objects then Inr None
       else run P exec env cl w)
    \<and> (has_threads P cfg \<and> can_listen P cfg \<and> all_made P app_objects \<and> database_ready P exec cfg cl w
         \<and> all_made P run_objects \<longrightarrow> (\<exists>s. run P exec env cl w = Inr (Some s)))"
proof (cases "AppComponent P env")
  case (Inl e)
  then have "run P exec env cl w = (if is_exception e then Inr None else Inl e)" by (simp add: run_def)
  then show ?thesis using AppComponent_cases [OF assms] Inl by (auto split: if_splits)
next
  case (Inr c)
  with AppComponent_cases [OF assms] have c: "configuration c = cfg" "manager c = dbManger cfg" "has_threads P cfg"
    "can_listen P cfg" "all_made P app_objects" by simp_all
  show ?thesis
  proof (cases "database_ready P exec cfg cl w")
    case False
    then have "run P exec env cl w = Inl (Exit (-1))"
      using c(1,2) Inr by (auto simp: run_def prepare_database_fst database_ready_def split: option.splits)
    then show ?thesis using False c by simp
  next
    case True
    then obtain w' where d: "fst (prepare_database exec (session_connect P) (configuration c) (manager c) cl w)
        = Inr (named cfg (dbManger cfg), w')"
      using c(1,2) by (auto simp: prepare_database_fst database_ready_def)
    have throws: "\<forall>x e. constructed P x = Inl e \<longrightarrow> is_exception e" using assms(1) by (simp add: only_throws_def)
    show ?thesis
    proof (cases "make_all (constructed P) run_objects")
      case (Inl e)
      with make_all_Inl [OF Inl throws] have "run P exec env cl w = Inr None" "\<not> all_made P run_objects"
        using Inr d by (auto simp: run_def all_made_def)
      then show ?thesis using True c by simp
    next
      case (Inr u)
      then have "all_made P run_objects" by (simp add: all_made_def make_all_Inr)
      moreover have "\<exists>s. run P exec env cl w = Inr (Some s)"
        using \<open>AppComponent P env = Inr c\<close> d Inr by (auto simp: run_def)
      ultimately show ?thesis using True c by auto
    qed
  qed
qed


lemma numbered_throws: "only_throws (numbered_platform busy)"
  by (auto simp: numbered_platform_def only_throws_def)

lemma sample_threads: "has_threads (numbered_platform busy) (Config_of ''gw1'' sample_env)"
proof -
  have ints: "getEnvInt sample_env ''WSS_NUMBER_OF_WORKER_THREADS'' 24 = 24"
    "getEnvInt sample_env ''WSS_NUMBER_OF_IO_THREADS'' 24 = 24"
    "getEnvInt sample_env ''WSS_NUMBER_OF_TIMER_THREADS'' 2 = 2"
    by (simp_all add: getEnvInt_def sample_env_def)
  have "number_of_worker_threads (Config_of ''gw1'' sample_env) = 24"
    "number_of_io_threads (Config_of ''gw1'' sample_env) = 24" "number_of_timer_threads (Config_of ''gw1'' sample_env) = 2"
    by (simp_all only: Config_of_def config.simps ints) simp_all
  then show ?thesis by (simp add: has_threads_def numbered_platform_def)
qed


lemma getEnvString_free:
  "(\<And>k v. env k = Some v \<Longrightarrow> NUL \<notin> set v) \<Longrightarrow> NUL \<notin> set d \<Longrightarrow> NUL \<notin> set (getEnvString env k d)"
  by (auto simp: getEnvString_def split: option.splits)

text \<open>
  What a running gateway is configured with: its statements use the keyspace and table
  of the environment, every vehicle is recorded under the host's own name, no more threads
  than ports are started, the database has seen exactly the three statements of the start,
  and the names are fit for the contract of the presence table.
\<close>

theorem served_configuration:
  assumes "run P exec env cl w = Inr (Some s)" "\<And>k v. env k = Some v \<Longrightarrow> NUL \<notin> set v"
  shows "\<exists>cfg. Config (os P) env = Inr cfg
    \<and> getAppServerName (db_manager s) = host_ip cfg
    \<and> m_keyspace (db_manager s) = getEnvString env ''WSS_SCYLLADB_KEYSPACE_NAME'' ''vin''
    \<and> m_table (db_manager s) = getEnvString env ''WSS_SCYLLADB_TABLE_NAME'' ''vehicles''
    \<and> names_ok (db_manager s)
    \<and> length (threads s) \<le> unat (number_of_ports cfg)
    \<and> exec_all exec (start_statements cfg (dbManger cfg)) w = Some (database s)"
proof -
  obtain c w' where c: "AppComponent P env = Inr c"
    "exec_all exec (start_statements (configuration c) (manager c)) w = Some w'"
    "s = \<lparr>threads = filter (thread_starts P) (providers c),
          db_manager = named (configuration c) (manager c), database = w', components_of = c\<rparr>"
    using assms(1) unfolding run_served by blast
  note parts = AppComponent_Inr [OF c(1)]
  obtain hip where cfg: "configuration c = Config_of hip env" using parts Config_Inr by blast
  have "length (filter (thread_starts P) (providers c)) \<le> unat (number_of_ports (configuration c))"
    using connectionProviders_Inr [of P "configuration c" "providers c"] parts
    by (metis diff_zero length_filter_le length_upt list_all2_lengthD)
  moreover have names: "m_keyspace (db_manager s) = getEnvString env ''WSS_SCYLLADB_KEYSPACE_NAME'' ''vin''"
    "m_table (db_manager s) = getEnvString env ''WSS_SCYLLADB_TABLE_NAME'' ''vehicles''"
    by (simp_all add: c(3) cfg named_def Config_of_def)
  moreover have "names_ok (db_manager s)"
    using getEnvString_free assms(2) by (simp add: names_ok_def names)
  moreover have "getAppServerName (db_manager s) = host_ip (configuration c)"
    using parts by (simp add: c(3) getAppServerName_def named_def dbManger_def ScyllaDBManager_def)
  ultimately show ?thesis using parts c by auto
qed

lemma sample_run:
  "\<exists>s. run (numbered_platform []) counting_exec sample_env fresh_cluster [] = Inr (Some s)"
proof -
  let ?P = "numbered_platform []" and ?c = "Config_of ''gw1'' sample_env"
  have cfg: "Config (os ?P) sample_env = Inr ?c" using Config_sample by (simp add: numbered_platform_def)
  have "can_listen ?P ?c" using connectionProviders_sample connectionProviders_can_listen by blast
  moreover have addr: "scylladb_address ?c = ''127.0.0.1''"
    by (simp only: Config_of_def config.simps) (simp add: getEnvString_def sample_env_def)
  have "contact_points (configured (dbManger ?c) fresh_cluster (scylladb_address ?c)) = ''127.0.0.1''"
    by (simp add: configured_cases addr c_str_def)
  then have "database_ready ?P counting_exec ?c fresh_cluster []"
    by (simp add: database_ready_def numbered_platform_def counting_all)
  moreover have "all_made ?P xs" for xs by (simp add: all_made_def numbered_platform_def list_all_iff)
  ultimately show ?thesis
    using run_cases [OF numbered_throws cfg, THEN conjunct2, of counting_exec fresh_cluster "[]"] sample_threads by simp
qed

lemma served_configuration_witness:
  "\<exists>s. run (numbered_platform []) counting_exec sample_env fresh_cluster [] = Inr (Some s)
     \<and> names_ok (db_manager s)"
proof -
  obtain s where s: "run (numbered_platform []) counting_exec sample_env fresh_cluster [] = Inr (Some s)"
    using sample_run by blast
  have "NUL \<notin> set v" if "sample_env k = Some v" for k v
    using that by (auto simp: sample_env_def split: if_splits)
  then show ?thesis using served_configuration [OF s] s by blast
qed

end
