(* ===== verification/Wiring.thy ===== *)
theory Wiring
  imports WS_Prelude
begin

text \<open>
  The wiring of \<open>src/src/AppComponent.h\<close>, \<open>App.cpp\<close>, \<open>WsController.h\<close>, \<open>WebSocketComponents.h\<close> and
  \<open>WebSocketListener.cpp\<close> through oatpp's component environment. \<open>OATPP_CREATE_COMPONENT\<close> puts an
  object there under its static type and an optional qualifier, \<open>OATPP_COMPONENT\<close> takes it out
  again. As oatpp documents it, a component may be created once, a qualified lookup needs a
  component of that type and qualifier, and an unqualified one needs the type to have exactly
  one component; every violation throws. The order of the creations and lookups is that of
  the execution: members are initialised in the order of their declaration, each after the
  lookups of its initialiser.
\<close>

section \<open>Creations and lookups\<close>

datatype component_type =
    ConfigT | ExecutorT | ProviderListT | HttpRouterT | ConnectionHandlerT | JsonObjectMapperT
  | DataObjectMapperT | ScyllaDBManagerT | RequestExecutorT | IoContextT | WorkGuardT

datatype wiring =
    Create component_type "string option"
  | Lookup component_type "string option"

definition app_component_wiring :: "wiring list" where
  "app_component_wiring =
     [Create ConfigT None,
      Lookup ConfigT None, Create ExecutorT None,
      Lookup ConfigT None, Create ProviderListT None,
      Create HttpRouterT None,
      Lookup HttpRouterT None, Lookup ExecutorT None, Create ConnectionHandlerT (Some ''http''),
      Create JsonObjectMapperT None,
      Create DataObjectMapperT (Some ''clientObjectMapper''),
      Create DataObjectMapperT None,
      Lookup ExecutorT None, Create ConnectionHandlerT (Some ''websocket''),
      Lookup ConfigT None, Create ScyllaDBManagerT (Some ''scyllaDBManager''),
      Lookup ConfigT None, Create RequestExecutorT (Some ''clientExcecutor'')]"

definition controller_wiring :: "wiring list" where
  \<comment> \<open>the default argument of \<open>createShared\<close> and the member of the controller\<close>
  "controller_wiring = [Lookup JsonObjectMapperT None, Lookup ConnectionHandlerT (Some ''websocket'')]"

definition run_wiring :: "nat \<Rightarrow> wiring list" where
  \<comment> \<open>\<open>run\<close> with \<open>n\<close> server threads\<close>
  "run_wiring n =
     app_component_wiring
     @ [Lookup ConfigT None, Lookup ScyllaDBManagerT (Some ''scyllaDBManager''), Lookup HttpRouterT None]
     @ controller_wiring
     @ [Lookup ProviderListT None, Create IoContextT None, Create WorkGuardT None]
     @ replicate n (Lookup ConnectionHandlerT (Some ''http''))"

datatype served_event = SocketCreated bool | MessageRead

fun event_wiring :: "served_event \<Rightarrow> wiring list" where
  \<comment> \<open>the flag: the registry singleton is constructed on this call\<close>
  "event_wiring (SocketCreated first) =
     [Lookup ConfigT None] @ (if first then [Lookup ScyllaDBManagerT (Some ''scyllaDBManager'')] else [])
     @ [Lookup IoContextT None]"
| "event_wiring MessageRead = [Lookup ExecutorT None]"

section \<open>Resolution\<close>

type_synonym component_env = "(component_type \<times> string option) list"

fun found :: "component_env \<Rightarrow> component_type \<Rightarrow> string option \<Rightarrow> bool" where
  "found env t None \<longleftrightarrow> length (filter (\<lambda>c. fst c = t) env) = 1"
| "found env t (Some q) \<longleftrightarrow> (t, Some q) \<in> set env"

fun resolves :: "component_env \<Rightarrow> wiring list \<Rightarrow> bool" where
  "resolves env [] \<longleftrightarrow> True"
| "resolves env (Create t q # ws) \<longleftrightarrow> (t, q) \<notin> set env \<and> resolves ((t, q) # env) ws"
| "resolves env (Lookup t q # ws) \<longleftrightarrow> found env t q \<and> resolves env ws"

fun created :: "wiring list \<Rightarrow> component_env" where
  "created [] = []"
| "created (Create t q # ws) = created ws @ [(t, q)]"
| "created (Lookup t q # ws) = created ws"

fun lookups_found :: "component_env \<Rightarrow> wiring list \<Rightarrow> bool" where
  "lookups_found env [] \<longleftrightarrow> True"
| "lookups_found env (Create t q # ws) \<longleftrightarrow> False"
| "lookups_found env (Lookup t q # ws) \<longleftrightarrow> found env t q \<and> lookups_found env ws"

lemma created_append [simp]: "created (ws @ vs) = created vs @ created ws"
  by (induction ws rule: created.induct) auto

lemma resolves_append: "resolves env (ws @ vs) \<longleftrightarrow> resolves env ws \<and> resolves (created ws @ env) vs"
  by (induction env ws rule: resolves.induct) auto

lemma lookups_found_resolves: "lookups_found env ws \<Longrightarrow> resolves env ws \<and> created ws = []"
  by (induction env ws rule: lookups_found.induct) auto

lemma lookups_found_append:
  "lookups_found env (ws @ vs) \<longleftrightarrow> lookups_found env ws \<and> lookups_found env vs"
  by (induction env ws rule: lookups_found.induct) auto

lemma lookups_found_concat: "lookups_found env (concat wss) \<longleftrightarrow> list_all (lookups_found env) wss"
  by (induction wss) (simp_all add: lookups_found_append)

lemma lookups_found_replicate: "found env t q \<Longrightarrow> lookups_found env (replicate n (Lookup t q))"
  by (induction n) simp_all

definition served_env :: component_env where
  "served_env = created (run_wiring 0)"

lemma created_replicate [simp]: "created (replicate n (Lookup t q)) = []"
  by (induction n) simp_all

lemma run_wiring_split: "run_wiring n = run_wiring 0 @ replicate n (Lookup ConnectionHandlerT (Some ''http''))"
  by (simp add: run_wiring_def)

lemma served_env_found:
  "found served_env ConfigT None" "found served_env ExecutorT None" "found served_env IoContextT None"
  "found served_env ScyllaDBManagerT (Some ''scyllaDBManager'')"
  "found served_env ConnectionHandlerT (Some ''http'')"
  by (simp_all add: served_env_def run_wiring_def app_component_wiring_def controller_wiring_def)

lemma event_wiring_found: "lookups_found served_env (event_wiring e)"
  by (cases e) (simp_all add: served_env_found del: found.simps)

lemma resolves_start: "resolves [] (run_wiring 0)"
  by (simp add: run_wiring_def app_component_wiring_def controller_wiring_def)

section \<open>Property\<close>

text \<open>
  C40. Every component that is asked for is there: no creation is repeated and every lookup of the
  start, for any number of server threads, and of every sequence of connections and messages
  after it finds exactly one component, although two types have several; the unqualified
  lookup of either of these would not.
\<close>

theorem every_lookup_resolves:
  "resolves [] (run_wiring n @ concat (map event_wiring es))
   \<and> \<not> found (created (run_wiring n)) ConnectionHandlerT None
   \<and> \<not> found (created (run_wiring n)) DataObjectMapperT None"
proof -
  have env: "created (run_wiring n) = served_env"
    by (subst run_wiring_split) (simp add: served_env_def)
  have "lookups_found served_env (concat (map event_wiring es))"
    by (simp add: lookups_found_concat list_all_iff event_wiring_found)
  moreover have "resolves [] (run_wiring n)"
    using lookups_found_resolves [OF lookups_found_replicate [OF served_env_found(5)]]
    by (subst run_wiring_split) (simp add: resolves_append resolves_start flip: served_env_def)
  ultimately have "resolves [] (run_wiring n @ concat (map event_wiring es))"
    using lookups_found_resolves env by (simp add: resolves_append)
  then show ?thesis
    unfolding env by (simp add: served_env_def run_wiring_def app_component_wiring_def controller_wiring_def)
qed

end
