(* ===== verification/Spec2Isabelle.thy ===== *)
theory Spec2Isabelle
  imports Controller Cluster Delivery Startup Wiring
begin

text \<open>
  A verification of the WebSocket gateway \<^bold>\<open>wsgateway\<close>.

  \<^bold>\<open>The program.\<close> The gateway (C++, under \<open>src/src\<close>) accepts WebSocket connections of vehicles,
  registers each under a client id, and forwards every message it receives as an HTTP request
  to a backend; the backend's response goes back to the vehicle as one text frame. Which
  vehicle is connected to which gateway is kept in a table of a ScyllaDB cluster. The
  libraries oatpp (HTTP and WebSocket server, executor), Boost.Asio and Boost.Beast (HTTP
  client), OpenSSL and the Cassandra driver are not part of the repository; they are parameters
  of the model, and what the code relies on is a named hypothesis.

  \<^bold>\<open>The theories\<close>, in the order in which they build on each other:

  \<^item> \<open>WS_Prelude\<close>: integer types, errors as values (exceptions, undefined behaviour, \<open>exit\<close>), the
    result type, list lemmas.
  \<^item> \<open>Cxx_Strings\<close>, \<open>Cxx_Stream\<close>: what the code uses of \<open>std::string\<close>, \<open>std::stoi\<close>, \<open>std::strtol\<close>,
    \<open>std::to_string\<close> and of \<open>std::istringstream\<close>; the locale \<open>token_loop\<close> is the contract of a loop
    that splits text with \<open>std::getline\<close>.
  \<^item> \<open>Cxx_Float\<close>: \<open>std::stof\<close>, up to the rounding of the literal that was read.
  \<^item> \<open>Tokens\<close>: \<open>utilis/split.h\<close> and \<open>utilis/ipUtils.h\<close>. Both loops are interpretations of
    \<open>token_loop\<close>; \<open>isValidIPv4\<close> is proved equivalent to a description of dotted quads.
  \<^item> \<open>Env_Config\<close>: \<open>utilis/env.h\<close> and \<open>config.h\<close>; the environment is a partial map, the narrowing
    casts are words.
  \<^item> \<open>Http_Parser\<close>: \<open>utilis/HttpParser.h\<close>; round trips of requests and responses, and the exact
    outcome, errors included, on other texts. The loop over the header lines is a terminating
    function, measured by the rest of the stream.
  \<^item> \<open>Scylla\<close>: \<open>ScyllaDBManager.h\<close>, each operation with the calls it makes on the driver; the driver
    is a function from a statement text and a database state to an outcome and a state. The
    statements are read back by a small reader of CQL.
  \<^item> \<open>Presence_Store\<close>: the contract \<open>presence_store\<close> that the registry relies on and the documented
    behaviour \<open>cql_driver\<close> of the driver; the second gives the first for the manager's operations,
    and a reference driver satisfies it.
  \<^item> \<open>Registry\<close>: \<open>websocket/WebSocketComponents.h\<close> with atomic operations; refinement of an abstract
    directory of vehicles; the locale \<open>client_directory\<close> is what the listener relies on.
  \<^item> \<open>Registry_Steps\<close>: the same operations as steps of threads at the spin lock and outside it, under
    every interleaving; a single operation run alone is that of \<open>Registry\<close>.
  \<^item> \<open>Http_Client\<close>: \<open>utilis/boostBeastClient.h\<close>; the operations of Boost.Beast are the fields of a
    record, their documented behaviour is \<open>field_laws\<close> and \<open>throws_only\<close>, met by a list of fields.
  \<^item> \<open>Listener\<close>: \<open>websocket/WebSocketListener.h\<close> and \<open>.cpp\<close>; messages out of frames, registration
    and destruction of connections.
  \<^item> \<open>Connection_Steps\<close>: the callbacks of sockets on several threads, each taken apart at the steps of
    its registry operation; every such run is one of \<open>Registry_Steps\<close> with a thread per socket.
  \<^item> \<open>Cluster\<close>: several gateways of that kind, each a process that may crash, on one table.
  \<^item> \<open>Gateway\<close>: listeners, registry and pending exchanges as one step relation; its events are what
    oatpp and the \<open>io_context\<close> may run next, in any order. Invariants hold in every run, and a run is
    determined by its events.
  \<^item> \<open>Exchange_Steps\<close>: the coroutine of \<open>utilis/boostBeastClient.h\<close> taken apart at its suspensions and
    interleaved with everything else; every such run is simulated by one of \<open>Gateway\<close>, and every
    exchange ends within six steps.
  \<^item> \<open>Whole_Gateway\<close>: the callbacks of \<open>Connection_Steps\<close> and the coroutines of \<open>Exchange_Steps\<close> in one
    system, which share the listeners; its runs project to runs of either.
  \<^item> \<open>Whole_Runs\<close>: the converse, every run of \<open>Exchange_Steps\<close> is a run of the whole; taking a
    callback as one step changes nothing but the order in which overlapping operations reach the map
    and the table. The properties of the whole gateway.
  \<^item> \<open>Message_Flow\<close>: what flows through the whole gateway, from the frames of a socket to the requests
    on the wire, and from the responses to the texts for the socket.
  \<^item> \<open>Delivery\<close>: the last step of a reply. The completion handler of \<open>co_spawn\<close> hands a
    \<open>SendMessageCoroutine\<close> to the oatpp executor, which runs such coroutines later and in any order.
    The other theories record the call a coroutine will make when it is handed over; here handing
    over and sending are separate steps.
  \<^item> \<open>Controller\<close>: \<open>controler/WsController.h\<close>.
  \<^item> \<open>Ssl_Context\<close>: \<open>utilis/sslContext.h\<close>.
  \<^item> \<open>Startup\<close>: \<open>AppComponent.h\<close> and \<open>App.cpp\<close>: the components that carry data, the preparation of the
    database, \<open>run\<close> and \<open>main\<close>. Every object and thread that the start creates may throw instead.
  \<^item> \<open>Wiring\<close>: the creations and lookups in oatpp's component environment, of all files.
  \<^item> This theory composes the start with the running gateway: \<open>started_site\<close> is the gateway with the
    configuration and the database manager that \<open>run\<close> leaves.

  \<^bold>\<open>How state corresponds.\<close> The map \<open>clients\<close> and the lock of \<open>WebSocketComponent\<close> are fields of the
  records \<open>registry\<close> and \<open>shared\<close>; the members of \<open>WebSocketListener\<close>, \<open>ScyllaDBManager\<close> and
  \<open>Config\<close> are the records \<open>listener\<close>, \<open>scylla_manager\<close> and \<open>config\<close>; \<open>SOCKETS\<close> and the listener of
  each socket are in \<open>gateway\<close>. A coroutine that \<open>co_spawn\<close> was called with is a \<open>job\<close>: it owns
  its message and time and refers to the listener for host, port and id, as the C++ code does,
  so the port it overwrites is the listener's. In \<open>Gateway\<close> an exchange runs as one step;
  \<open>Exchange_Steps\<close> shows that this loses nothing, since all that the coroutine shares with others
  is written before its first suspension. \<open>Whole_Gateway\<close> puts the two refinements together: what
  is atomic in it is a step of a registry operation, a frame, what a coroutine does between two
  suspensions, and its completion, whose call is recorded when it is handed to the executor;
  \<open>Delivery\<close> makes the executor's turn a step of its own.

  \<^bold>\<open>What is shown.\<close> Messages: a request text is parsed to what was formatted, the messages are
  exactly the pieces between empty frames, each is answered by exactly one non-empty text, in
  an order neither the backend nor the executor fixes, and every request names the client it comes from, which no
  header can change. Every request is made of a text that its own socket completed, no text being
  used for more requests than it was completed times, and every text a socket gets is the error text or the response to an exchange of its
  own, however callbacks and coroutines interleave. Registry: an id leads to a live socket of that id or nowhere, and on a
  driver that accepts every statement the table names this server for it exactly then, as long
  as registry operations do not interleave; map and table refine one directory as long as operations do not interleave, and agree if operations on
  one id do not overlap; where they do they can diverge. Even then the map never leads to a socket that is gone, and
  the table tells the truth of a vehicle whose connections follow one after the other, at one
  gateway or at several, also past the crash of a gateway; if they overlap, the clean-up of the
  old connection hides the new one. Database: statements are read back
  for ids without quotes and are ambiguous with them; handles are freed but for one, and
  each error is reported once. Start: the
  preparation runs in order or the process exits; the ports are those configured. Where
  the code departs from its comments or from what it evidently means to do, the property
  states what it does.

  \<^bold>\<open>Bounds.\<close> No fuel is used: every loop of the code is a terminating function. Strings are assumed
  to be at most \<open>max_size\<close> long (the largest \<open>std::string\<close>), which the steps of \<open>Gateway\<close> guard.

  \<^bold>\<open>Not modelled.\<close> Log lines other than that of \<open>printStateCB\<close>; the rounding of a
  floating-point literal, which is a parameter; the oatpp router, connection handlers and object mappers of \<open>AppComponent.h\<close>
  beyond their place in the component environment; the coroutine starters that some callers
  drop (the call is recorded, not whether oatpp ever runs it); what the library does with a frame for a
  socket that has been closed; the restart of the \<open>io_context\<close> in the constructor of a listener;
  that Beast drops white space around a field value; timeouts, which are outcomes of the
  network parameter; the build files and shell scripts.
\<close>

section \<open>From the environment to the backend\<close>

definition started_site ::
    "('p, 'w) served \<Rightarrow> 'w driver \<Rightarrow> ('v, 'f) beast \<Rightarrow> (headers \<Rightarrow> headers) \<Rightarrow> ('w, 'v, 'f) site" where
  \<comment> \<open>the gateway that a start leaves running: its components are those of the start\<close>
  "started_site s exec B order = \<lparr>site_exec = exec, site_manager = db_manager s,
     site_config = configuration (components_of s), site_beast = B, site_order = order\<rparr>"

lemma served_config:
  "run P exec env cl w = Inr (Some s) \<Longrightarrow> \<exists>hip. configuration (components_of s) = Config_of hip env"
  unfolding run_served using AppComponent_Inr Config_Inr by fastforce

lemma started_site_ok:
  "run P exec env cl w = Inr (Some s) \<Longrightarrow> throws_only B \<Longrightarrow> site_ok (started_site s exec B order)"
  using served_config by (fastforce simp: site_ok_def started_site_def Config_of_def getEnvString_nonempty)

text \<open>
  C2. A start that serves leaves a gateway that answers: whatever environment the process
  was started in, in every run of the whole gateway from the state of the database that the
  start left, with callbacks, registry operations and exchanges interleaved in any way, each
  complete message is waiting for its exchange or has been answered by one text; every request
  to the backend, also of an exchange that has not ended, names the host of the environment and
  the id of the listener of its socket, under which the socket was opened; and each waiting
  exchange can go on.
\<close>

theorem started_gateway_serves:
  assumes "run P exec env cl w = Inr (Some s)" "throws_only B" "field_laws B get"
    and "whole_run (started_site s exec B order) (database s) tr \<omega>"
  shows "messages k (arrived tr) = waiting k \<omega> + length (texts_to k (calls_made \<omega>))
    \<and> (\<forall>(k, rq) \<in> set (to_backend \<omega>).
         get (rq_fields rq) ''Host'' = Some (getEnvString env ''WSS_HTTP_REQUEST_ADDRESS'' ''127.0.0.1'')
         \<and> (\<exists>l. hooks \<omega> k = Some l \<and> get (rq_fields rq) ''X-Client-ID'' = Some (clientID l)
              \<and> phase_of (conc \<omega>) k \<in> {Serving (clientID l), Closing (clientID l), Destroying (clientID l), Gone}))
    \<and> (\<forall>i < length (queue \<omega>). \<exists>h \<omega>'. h \<in> {Begin i draw, Resume i Failed, Complete i}
         \<and> whole_step (started_site s exec B order) (Happens h) \<omega> \<omega>')"
proof -
  let ?S = "started_site s exec B order"
  have addr: "http_request_address (site_config ?S) = getEnvString env ''WSS_HTTP_REQUEST_ADDRESS'' ''127.0.0.1''"
    using served_config [OF assms(1)] by (auto simp: started_site_def Config_of_def)
  have laws: "field_laws (site_beast ?S) get" using assms(3) by (simp add: started_site_def)
  note ok = started_site_ok [OF assms(1,2)]
  have "get (rq_fields rq) ''Host'' = Some (getEnvString env ''WSS_HTTP_REQUEST_ADDRESS'' ''127.0.0.1'')
      \<and> (\<exists>l. hooks \<omega> k = Some l \<and> get (rq_fields rq) ''X-Client-ID'' = Some (clientID l)
           \<and> phase_of (conc \<omega>) k \<in> {Serving (clientID l), Closing (clientID l), Destroying (clientID l), Gone})"
    if "(k, rq) \<in> set (to_backend \<omega>)" for k rq
    using whole_serves(2) [OF assms(4) ok laws that] hook_id [OF assms(4), of k] addr by metis
  then show ?thesis
    using whole_serves(1) [OF assms(4) ok laws] whole_progress [OF ok assms(4)] by blast
qed

lemma started_gateway_serves_witness:
  "\<exists>s n \<omega>. run (numbered_platform []) counting_exec sample_env fresh_cluster [] = Inr (Some s)
     \<and> whole_run (started_site s counting_exec list_beast (\<lambda>hs. hs)) (database s)
         (replicate n (Callback (1 :: nat)) @ [Happens (Outside (Frame 1 [] 7))]) \<omega>
     \<and> waiting 1 \<omega> + length (texts_to 1 (calls_made \<omega>)) = 1"
proof -
  obtain s where s: "run (numbered_platform []) counting_exec sample_env fresh_cluster [] = Inr (Some s)"
    using sample_run by blast
  let ?S = "started_site s counting_exec list_beast (\<lambda>hs. hs)"
  obtain n \<omega> where o: "whole_run ?S (database s) (replicate n (Callback (1 :: nat)) @ [Happens (Outside (Frame 1 [] 7))]) \<omega>"
    using first_message [of ?S "database s" "1 :: nat" 7] by blast
  have "messages 1 (arrived (replicate n (Callback (1 :: nat)) @ [Happens (Outside (Frame 1 [] 7))])) = 1"
    by (simp add: arrived_def messages_def)
  then have "waiting 1 \<omega> + length (texts_to 1 (calls_made \<omega>)) = 1"
    using started_gateway_serves [OF s list_throws_only list_field_laws o, of 1, THEN conjunct1] by metis
  then show ?thesis using s o by blast
qed

end
